(* ===== verification/Prelude.thy ===== *)
theory Prelude
  imports Main "HOL-Library.Word"
begin

text \<open>
  Shared vocabulary of the development: the machine word \<open>usize\<close>, the outcome of a
  call (a value, a panic, a memory fault, or a loop that has used up the iterations it was
  given), overflow-checked arithmetic, the oracle for spurious failures of
  \<open>compare_exchange_weak\<close>, and the word lemmas that more than one component uses.
\<close>

unbundle bit_operations_syntax

named_theorems outcome_simps "evaluation of outcomes and of checked arithmetic"

type_synonym usize = "64 word"

section \<open>Outcomes\<close>

text \<open>
  \<open>Panic\<close> is a Rust panic (an \<open>assert!\<close>, an \<open>unwrap\<close> of \<open>None\<close>, an arithmetic
  overflow in a build with overflow checks, \<open>unreachable!\<close>). \<open>Fault\<close> is undefined
  behaviour: an access outside the buffer, through a dangling pointer, or a read of
  uninitialised memory. \<open>Spin\<close> says that a loop has not left within the iterations its
  oracle or fuel grants.
\<close>

datatype 'a outcome = Done 'a | Panic | Fault | Spin

fun obind :: "'a outcome \<Rightarrow> ('a \<Rightarrow> 'b outcome) \<Rightarrow> 'b outcome" where
  "obind (Done x) f = f x"
| "obind Panic f = Panic"
| "obind Fault f = Fault"
| "obind Spin f = Spin"

declare obind.simps [outcome_simps]

lemma obind_eq_Done [outcome_simps]:
  "obind x f = Done y \<longleftrightarrow> (\<exists>z. x = Done z \<and> f z = Done y)"
  by (cases x) auto

lemma obind_assoc: "obind (obind x f) g = obind x (\<lambda>y. obind (f y) g)"
  by (cases x) auto

definition omap :: "('a \<Rightarrow> 'b) \<Rightarrow> 'a outcome \<Rightarrow> 'b outcome" where
  "omap f x = obind x (\<lambda>y. Done (f y))"

lemma omap_simps [simp]:
  "omap f (Done x) = Done (f x)" "omap f Panic = Panic" "omap f Fault = Fault"
  "omap f Spin = Spin"
  by (simp_all add: omap_def)

lemma omap_eq_Done [outcome_simps]: "omap f x = Done y \<longleftrightarrow> (\<exists>z. x = Done z \<and> y = f z)"
  by (cases x) auto

lemma omap_eq_wrong [simp]: "omap f x = Fault \<longleftrightarrow> x = Fault" "omap f x = Panic \<longleftrightarrow> x = Panic"
  by (cases x; simp)+

definition is_done :: "'a outcome \<Rightarrow> bool" where
  "is_done x = (case x of Done _ \<Rightarrow> True | _ \<Rightarrow> False)"

lemma is_done_simps [simp]:
  "is_done (Done x)" "\<not> is_done Panic" "\<not> is_done Fault" "\<not> is_done Spin"
  by (simp_all add: is_done_def)

section \<open>Checked arithmetic\<close>

text \<open>
  \<open>+\<close> and \<open>-\<close> of the source panic on overflow in a build with overflow checks and wrap
  in one without. The checked form is the model; wherever a theorem shows that the
  panic is not taken, the two builds agree. \<open>wrapping_add\<close>, \<open>wrapping_sub\<close> and the
  atomic \<open>fetch_add\<close> and \<open>fetch_sub\<close> are the word operations themselves.
\<close>

definition add_chk :: "usize \<Rightarrow> usize \<Rightarrow> usize outcome" where
  "add_chk a b = (if unat a + unat b < 2 ^ 64 then Done (a + b) else Panic)"

definition sub_chk :: "usize \<Rightarrow> usize \<Rightarrow> usize outcome" where
  "sub_chk a b = (if b \<le> a then Done (a - b) else Panic)"

definition mul_chk :: "usize \<Rightarrow> usize \<Rightarrow> usize outcome" where
  "mul_chk a b = (if unat a * unat b < 2 ^ 64 then Done (a * b) else Panic)"

lemma unat_lt_64 [simp]: "unat (a :: usize) < 18446744073709551616"
  using unsigned_less [of a, where ?'a = nat] by simp

lemma add_chk_1 [outcome_simps]: "a \<noteq> - 1 \<Longrightarrow> add_chk a 1 = Done (a + 1)"
proof -
  assume "a \<noteq> - 1"
  then have "unat a \<noteq> 18446744073709551615"
    by (simp add: word_unat_eq_iff unsigned_minus_1_eq_mask mask_eq_exp_minus_1)
  moreover have "unat a < 18446744073709551616" by (rule unat_lt_64)
  ultimately have "unat a + 1 < 18446744073709551616" by linarith
  then show ?thesis by (simp add: add_chk_def)
qed

text \<open>The same without numbers as large as the word, for evaluation.\<close>

lemma add_chk_code [code]: "add_chk a b = (if b \<le> - 1 - a then Done (a + b) else Panic)"
proof -
  have m: "unat (- 1 :: usize) = 18446744073709551615"
    by (simp add: unsigned_minus_1_eq_mask mask_eq_exp_minus_1)
  have "a \<le> - 1" by simp
  then have "unat (- 1 - a) = unat (- 1 :: usize) - unat a" by (rule unat_sub)
  then have "unat (- 1 - a) = 18446744073709551615 - unat a" by (simp only: m)
  moreover have "unat a < 18446744073709551616" by (rule unat_lt_64)
  ultimately have "unat a + unat b < 18446744073709551616 \<longleftrightarrow> unat b \<le> unat (- 1 - a)" by linarith
  then show ?thesis by (simp add: add_chk_def word_le_nat_alt)
qed
section \<open>Spurious failures\<close>

text \<open>
  \<open>compare_exchange_weak\<close> may fail although the cell holds the expected value. The
  oracle of a call gives every loop of the call a list: its \<open>i\<close>-th element says
  whether the weak exchange of the loop's \<open>i\<close>-th iteration fails spuriously, and its
  length bounds the iterations. An oracle is fair when no loop fails for ever.
\<close>

type_synonym weak = "nat \<Rightarrow> bool list"

definition fair :: "weak \<Rightarrow> bool" where
  "fair sp \<longleftrightarrow> (\<forall>i. False \<in> set (sp i))"

lemma fairD [intro]: "fair sp \<Longrightarrow> False \<in> set (sp i)"
  by (simp add: fair_def)

lemma fair_const [simp]: "fair (\<lambda>_. [False])"
  by (simp add: fair_def)

section \<open>Polling\<close>

text \<open>
  The values of the \<open>futures\<close> traits: \<open>Poll<T, E>\<close> is \<open>'e + 'a async\<close>, and a sink's
  \<open>start_send\<close> answers with an \<open>AsyncSink\<close>, which gives a refused item back.
\<close>

datatype 'a async = Ready 'a | NotReady

datatype 'm async_sink = SinkReady | SinkNotReady 'm

section \<open>Words\<close>

lemma unat_of_nat_64 [simp]: "unat (of_nat n :: usize) = n mod 2 ^ 64"
  by (simp add: unat_of_nat)

lemma and_mask_mod: "(w :: usize) AND (2 ^ n - 1) = of_nat (unat w mod 2 ^ n)"
proof -
  have "w AND (2 ^ n - 1) = take_bit n w"
    by (simp add: take_bit_eq_mask mask_eq_exp_minus_1)
  also have "\<dots> = of_nat (unat (take_bit n w))" by simp
  also have "unat (take_bit n w) = unat w mod 2 ^ n"
    by (simp only: unsigned_take_bit_eq) (simp only: take_bit_eq_mod)
  finally show ?thesis .
qed

lemma and_not_mask_mod: "(w :: usize) AND NOT (2 ^ n - 1) = w - of_nat (unat w mod 2 ^ n)"
proof -
  have disj: "(w AND NOT (2 ^ n - 1)) AND (w AND (2 ^ n - 1)) = 0"
    by (rule bit_eqI) (simp add: bit_simps)
  have "(w AND NOT (2 ^ n - 1)) + (w AND (2 ^ n - 1))
      = (w AND NOT (2 ^ n - 1)) OR (w AND (2 ^ n - 1))"
    using disj by (rule disjunctive_add_eq_or)
  also have "\<dots> = w"
    by (rule bit_eqI) (auto simp add: bit_simps)
  finally show ?thesis
    by (metis and_mask_mod add_diff_cancel_right')
qed

lemma or_exp_and_exp: "n < 64 \<Longrightarrow> ((w :: usize) OR 2 ^ n) AND 2 ^ n \<noteq> 0"
  by (simp add: and_exp_eq_0_iff_not_bit bit_simps)

lemma or_exp_and_not_exp: "\<not> bit (w :: usize) n \<Longrightarrow> (w OR 2 ^ n) AND NOT (2 ^ n) = w"
  by (rule bit_eqI) (auto simp add: bit_simps)

lemma and_not_exp_id: "\<not> bit (w :: usize) n \<Longrightarrow> w AND NOT (2 ^ n) = w"
  by (rule bit_eqI) (auto simp add: bit_simps)

lemma or_exp_and_mask: "((w :: usize) OR 2 ^ n) AND (2 ^ n - 1) = w AND (2 ^ n - 1)"
  by (rule bit_eqI) (auto simp add: bit_simps simp flip: mask_eq_exp_minus_1)

lemma or_exp_twice: "((w :: usize) OR 2 ^ n) OR 2 ^ n = w OR 2 ^ n"
  by (simp add: or.assoc)

lemma or_exp_neq: "\<not> bit (v :: usize) n \<Longrightarrow> n < 64 \<Longrightarrow> w OR 2 ^ n \<noteq> v"
  by (auto simp add: bit_simps)

text \<open>Two numbers with the same remainder that are less than the modulus apart are the same.\<close>

lemma mod_window:
  assumes "x mod cap = y mod (cap :: nat)" "x \<le> y" "y < x + cap"
  shows "x = y"
proof -
  have "cap dvd y - x" using assms mod_eq_dvd_iff_nat [of x y cap] by simp
  moreover have "y - x < cap" using assms(2,3) by simp
  ultimately have "y - x = 0" by (metis dvd_imp_le gr0I linorder_not_le)
  with assms(2) show ?thesis by simp
qed

section \<open>Lists\<close>

lemma upt_split: "i < n \<Longrightarrow> [0..<n] = [0..<i] @ i # [Suc i..<n]"
  using upt_add_eq_append [of 0 i "n - i"] upt_conv_Cons [of i n] by simp

lemma find_split:
  "find P xs = Some x \<Longrightarrow> \<exists>ys zs. xs = ys @ x # zs \<and> P x \<and> (\<forall>y \<in> set ys. \<not> P y)"
proof (induction xs)
  case Nil
  then show ?case by simp
next
  case (Cons y ys)
  show ?case
  proof (cases "P y")
    case True
    with Cons.prems show ?thesis by (intro exI [of _ "[]"] exI [of _ ys]) auto
  next
    case False
    with Cons obtain us zs where "ys = us @ x # zs \<and> P x \<and> (\<forall>u \<in> set us. \<not> P u)" by auto
    with False show ?thesis by (intro exI [of _ "y # us"] exI [of _ zs]) auto
  qed
qed

end
