(* ===== verification/Errors.thy ===== *)
theory Errors
  imports Prelude
begin

text \<open>
  The error values of \<open>src/error.rs\<close>: what a failed send or receive returns, the
  accessors of \<open>TrySendError\<close>, the two conversions from crossbeam's errors, and the texts
  of the \<open>Display\<close> implementations. A Rust \<open>Result<T, E>\<close> is a sum, \<open>Inl\<close> for
  \<open>Err\<close> and \<open>Inr\<close> for \<open>Ok\<close>. \<open>RecvErr_*\<close> are the two values of the standard
  library's \<open>TryRecvError\<close>.
\<close>

datatype send_error = SendError

datatype 'm send_timeout_error = SendTimeout 'm | SendDisconnected 'm

datatype recv_timeout_error = RecvTimeout | RecvDisconnected

datatype try_recv_error = TryRecvEmpty | TryRecvDisconnected

datatype error_kind = Closed | NoCapacity

record 'm try_send_error =
  tse_kind :: error_kind
  tse_value :: 'm

definition into_inner :: "'m try_send_error \<Rightarrow> 'm" where
  "into_inner e = tse_value e"

definition is_closed :: "'m try_send_error \<Rightarrow> bool" where
  "is_closed e = (case tse_kind e of Closed \<Rightarrow> True | NoCapacity \<Rightarrow> False)"

definition is_full :: "'m try_send_error \<Rightarrow> bool" where
  "is_full e = (case tse_kind e of NoCapacity \<Rightarrow> True | Closed \<Rightarrow> False)"

text \<open>
  crossbeam's \<open>TrySendError\<close> and \<open>SendError\<close>, the sources of the two \<open>From\<close>
  implementations, as the shapes the conversions match on.
\<close>

datatype 'm cb_try_send_error = CbFull 'm | CbDisconnected 'm

fun from_try_send :: "'m cb_try_send_error \<Rightarrow> 'm try_send_error" where
  "from_try_send (CbFull i) = \<lparr>tse_kind = NoCapacity, tse_value = i\<rparr>"
| "from_try_send (CbDisconnected i) = \<lparr>tse_kind = Closed, tse_value = i\<rparr>"

text \<open>
  \<open>SE::into_inner\<close> is crossbeam's, so it is an argument.
\<close>

definition from_send :: "('se \<Rightarrow> 'm) \<Rightarrow> 'se \<Rightarrow> 'm try_send_error" where
  "from_send se_into_inner err = \<lparr>tse_kind = Closed, tse_value = se_into_inner err\<rparr>"

fun display_send_timeout :: "'m send_timeout_error \<Rightarrow> string" where
  "display_send_timeout (SendTimeout _) = ''timed out waiting on send operation''"
| "display_send_timeout (SendDisconnected _) = ''sending on a disconnected channel''"

definition description_send_timeout :: "'m send_timeout_error \<Rightarrow> string" where
  "description_send_timeout e = ''sending on an empty and disconnected channel''"

definition display_send_error :: "send_error \<Rightarrow> string" where
  "display_send_error e = ''channel closed''"

definition display_try_send :: "'m try_send_error \<Rightarrow> string" where
  "display_try_send e =
     (case tse_kind e of Closed \<Rightarrow> ''channel closed'' | NoCapacity \<Rightarrow> ''no available capacity'')"

lemma is_full_not_closed: "is_full e \<longleftrightarrow> \<not> is_closed e"
  by (cases "tse_kind e") (simp_all add: is_full_def is_closed_def)

lemma error_kind_simps [simp]:
  "is_closed \<lparr>tse_kind = Closed, tse_value = m\<rparr>"
  "\<not> is_closed \<lparr>tse_kind = NoCapacity, tse_value = m\<rparr>"
  "into_inner \<lparr>tse_kind = k, tse_value = m\<rparr> = m"
  by (simp_all add: is_closed_def into_inner_def)

end
