(* ===== verification/Serial_Waker.thy ===== *)
theory Serial_Waker
  imports Prelude
begin

text \<open>
  \<open>AtomicSerialWaker\<close> of \<open>src/atomic_serial_waker.rs\<close>: a bounded queue of the tasks
  that wait on a channel. Its queue is crossbeam's \<open>ArrayQueue\<close>, code that is not part of
  the repository: the operations the waker uses are the fields of a record that is an
  argument of the definitions, and \<open>aq_laws\<close> states what its documentation promises. The
  calls of \<open>Task::notify\<close> are the effect of the component; the model records them, in
  order, in \<open>w_log\<close>. \<open>current()\<close>, the handle of the running task, is an argument:
  \<open>None\<close> when no task is running, in which case \<open>futures\<close> panics.
\<close>

section \<open>The task queue\<close>

record ('q, 't) aq_ops =
  aq_new :: "nat \<Rightarrow> 'q"
  aq_push :: "'q \<Rightarrow> 't \<Rightarrow> 'q option"
  aq_pop :: "'q \<Rightarrow> ('t \<times> 'q) option"

text \<open>
  \<open>aq_laws Q contents qcap\<close>: the operations \<open>Q\<close> are those of a bounded first-in
  first-out queue, read through \<open>contents\<close> and \<open>qcap\<close>. A push on a full queue is
  refused and gives the task back, a pop on an empty one fails.
\<close>

definition aq_laws ::
    "('q, 't) aq_ops \<Rightarrow> ('q \<Rightarrow> 't list) \<Rightarrow> ('q \<Rightarrow> nat) \<Rightarrow> bool" where
  "aq_laws Q contents qcap \<longleftrightarrow>
     (\<forall>n. contents (aq_new Q n) = [] \<and> qcap (aq_new Q n) = n) \<and>
     (\<forall>q t. if length (contents q) < qcap q
            then \<exists>q'. aq_push Q q t = Some q' \<and> contents q' = contents q @ [t] \<and> qcap q' = qcap q
            else aq_push Q q t = None) \<and>
     (\<forall>q. case contents q of [] \<Rightarrow> aq_pop Q q = None
          | t # ts \<Rightarrow> \<exists>q'. aq_pop Q q = Some (t, q') \<and> contents q' = ts \<and> qcap q' = qcap q)"

lemma aq_new_laws:
  assumes "aq_laws Q contents qcap"
  shows "contents (aq_new Q n) = []" "qcap (aq_new Q n) = n"
  using assms by (simp_all add: aq_laws_def)

lemma aq_push_room:
  assumes "aq_laws Q contents qcap" "length (contents q) < qcap q"
  obtains q' where "aq_push Q q t = Some q'" "contents q' = contents q @ [t]" "qcap q' = qcap q"
  using assms unfolding aq_laws_def by metis

lemma aq_push_full:
  assumes "aq_laws Q contents qcap" "\<not> length (contents q) < qcap q"
  shows "aq_push Q q t = None"
  using assms unfolding aq_laws_def by metis

lemma aq_pop_empty:
  assumes "aq_laws Q contents qcap" "contents q = []"
  shows "aq_pop Q q = None"
proof -
  have "case contents q of [] \<Rightarrow> aq_pop Q q = None
      | t # ts \<Rightarrow> \<exists>q'. aq_pop Q q = Some (t, q') \<and> contents q' = ts \<and> qcap q' = qcap q"
    using assms(1) unfolding aq_laws_def by blast
  with assms(2) show ?thesis by simp
qed

lemma aq_pop_cons:
  assumes "aq_laws Q contents qcap" "contents q = t # ts"
  obtains q' where "aq_pop Q q = Some (t, q')" "contents q' = ts" "qcap q' = qcap q"
proof -
  have "case contents q of [] \<Rightarrow> aq_pop Q q = None
      | t # ts \<Rightarrow> \<exists>q'. aq_pop Q q = Some (t, q') \<and> contents q' = ts \<and> qcap q' = qcap q"
    using assms(1) unfolding aq_laws_def by blast
  with assms(2) that show thesis by auto
qed

lemma aq_push_SomeD:
  assumes laws: "aq_laws Q contents qcap" and push: "aq_push Q q t = Some q'"
  shows "contents q' = contents q @ [t]" "qcap q' = qcap q" "length (contents q) < qcap q"
proof -
  show room: "length (contents q) < qcap q"
    using aq_push_full [OF laws, of q t] push by auto
  obtain q'' where "aq_push Q q t = Some q''" "contents q'' = contents q @ [t]" "qcap q'' = qcap q"
    using aq_push_room [OF laws room] .
  with push show "contents q' = contents q @ [t]" "qcap q' = qcap q" by simp_all
qed

lemma aq_pop_SomeD:
  assumes laws: "aq_laws Q contents qcap" and pop: "aq_pop Q q = Some (t, q')"
  shows "contents q = t # contents q'" "qcap q' = qcap q"
proof -
  obtain u us where q: "contents q = u # us"
    using aq_pop_empty [OF laws, of q] pop by (cases "contents q") auto
  obtain q'' where "aq_pop Q q = Some (u, q'')" "contents q'' = us" "qcap q'' = qcap q"
    using aq_pop_cons [OF laws q] .
  with pop q show "contents q = t # contents q'" "qcap q' = qcap q" by simp_all
qed

text \<open>A queue that satisfies the laws, for the concrete instances of the theorems.\<close>

definition list_aq :: "(nat \<times> 't list, 't) aq_ops" where
  "list_aq = \<lparr>aq_new = (\<lambda>n. (n, [])),
     aq_push = (\<lambda>(n, ts) t. if length ts < n then Some (n, ts @ [t]) else None),
     aq_pop = (\<lambda>(n, ts). case ts of [] \<Rightarrow> None | t # us \<Rightarrow> Some (t, (n, us)))\<rparr>"

lemma list_aq_laws: "aq_laws list_aq snd fst"
  by (auto simp: aq_laws_def list_aq_def split: list.splits)

lemma list_aq_simps [simp]:
  "aq_new list_aq n = (n, [])"
  "aq_push list_aq (n, ts) t = (if length ts < n then Some (n, ts @ [t]) else None)"
  "aq_pop list_aq (n, []) = None"
  "aq_pop list_aq (n, t # ts) = Some (t, (n, ts))"
  by (simp_all add: list_aq_def)

section \<open>The waker\<close>

record ('q, 't) swaker =
  w_queue :: 'q
  w_waiting :: usize
  w_from_me :: usize
  w_log :: "'t list"

definition swaker_new :: "('q, 't) aq_ops \<Rightarrow> ('q, 't) swaker" where
  "swaker_new Q = \<lparr>w_queue = aq_new Q 4, w_waiting = 0, w_from_me = 0, w_log = []\<rparr>"

lemma swaker_new_simps [simp]:
  "w_queue (swaker_new Q) = aq_new Q 4" "w_waiting (swaker_new Q) = 0"
  "w_from_me (swaker_new Q) = 0" "w_log (swaker_new Q) = []"
  by (simp_all add: swaker_new_def)

text \<open>
  \<open>positive_update\<close>: decrement the counter unless it is zero. \<open>prev\<close> is the value
  loaded last, \<open>a\<close> the cell.
\<close>

fun positive_update_loop :: "bool list \<Rightarrow> usize \<Rightarrow> usize \<Rightarrow> (bool \<times> usize) outcome" where
  "positive_update_loop ws prev a =
     (if prev > 0 then
        (case ws of [] \<Rightarrow> Spin
         | w # ws' \<Rightarrow>
             if \<not> w \<and> a = prev then Done (True, prev - 1) else positive_update_loop ws' a a)
      else Done (False, a))"

declare positive_update_loop.simps [simp del]

definition positive_update :: "bool list \<Rightarrow> usize \<Rightarrow> (bool \<times> usize) outcome" where
  "positive_update ws a = positive_update_loop ws a a"

text \<open>\<open>self.from_me.fetch_add(1)\<close> followed by \<open>task.notify()\<close>.\<close>

definition notify :: "'t \<Rightarrow> ('q, 't) swaker \<Rightarrow> ('q, 't) swaker" where
  "notify t w = w\<lparr>w_from_me := w_from_me w + 1, w_log := w_log w @ [t]\<rparr>"

definition wk :: "('q, 't) aq_ops \<Rightarrow> bool list \<Rightarrow> ('q, 't) swaker \<Rightarrow> ('q, 't) swaker outcome" where
  "wk Q ws w =
     (case aq_pop Q (w_queue w) of
        Some (task, q) \<Rightarrow>
          obind (positive_update ws (w_waiting w)) (\<lambda>(hit, waiting).
            if hit then Done (notify task (w\<lparr>w_queue := q, w_waiting := waiting\<rparr>))
            else (case aq_push Q q task of
                    Some q' \<Rightarrow> Done (w\<lparr>w_queue := q'\<rparr>)
                  | None \<Rightarrow> Done (notify task (w\<lparr>w_queue := q\<rparr>))))
      | None \<Rightarrow> Done w)"

definition register ::
    "('q, 't) aq_ops \<Rightarrow> bool list \<Rightarrow> 't option \<Rightarrow> ('q, 't) swaker \<Rightarrow> ('q, 't) swaker outcome" where
  "register Q ws current w =
     (case current of None \<Rightarrow> Panic
      | Some t \<Rightarrow>
          (case aq_push Q (w_queue w) t of
             Some q \<Rightarrow> wk Q ws (w\<lparr>w_queue := q\<rparr>)
           | None \<Rightarrow> Done (notify t w)))"

definition wake :: "('q, 't) aq_ops \<Rightarrow> ('q, 't) swaker \<Rightarrow> ('q, 't) swaker" where
  "wake Q w =
     (case aq_pop Q (w_queue w) of
        Some (task, q) \<Rightarrow> notify task (w\<lparr>w_queue := q\<rparr>)
      | None \<Rightarrow> w\<lparr>w_waiting := w_waiting w + 1\<rparr>)"

fun wake_all_loop :: "('q, 't) aq_ops \<Rightarrow> nat \<Rightarrow> ('q, 't) swaker \<Rightarrow> ('q, 't) swaker outcome" where
  "wake_all_loop Q 0 w = Spin"
| "wake_all_loop Q (Suc fuel) w =
     (case aq_pop Q (w_queue w) of
        Some (task, q) \<Rightarrow> wake_all_loop Q fuel (notify task (w\<lparr>w_queue := q\<rparr>))
      | None \<Rightarrow> Done w)"

text \<open>
  The queue holds four tasks, so the loop of \<open>wake_all\<close> is left at the fifth test.
\<close>

definition wake_all :: "('q, 't) aq_ops \<Rightarrow> ('q, 't) swaker \<Rightarrow> ('q, 't) swaker outcome" where
  "wake_all Q w = wake_all_loop Q 5 w"

section \<open>What the operations do\<close>

text \<open>
  \<open>sw_ok\<close>: the invariant of a waker over a queue that satisfies the laws. The queue has
  room for four tasks and holds no more than that.
\<close>

definition sw_ok :: "('q \<Rightarrow> 't list) \<Rightarrow> ('q \<Rightarrow> nat) \<Rightarrow> ('q, 't) swaker \<Rightarrow> bool" where
  "sw_ok contents qcap w \<longleftrightarrow> qcap (w_queue w) = 4 \<and> length (contents (w_queue w)) \<le> 4"

lemma swaker_new_ok: "aq_laws Q contents qcap \<Longrightarrow> sw_ok contents qcap (swaker_new Q)"
  by (simp add: sw_ok_def swaker_new_def aq_new_laws)

lemma positive_update_loop_fair:
  "False \<in> set ws \<Longrightarrow> positive_update_loop ws a a = Done (a > 0, if a > 0 then a - 1 else a)"
  by (induction ws) (auto simp: positive_update_loop.simps [of _ a a])

lemma positive_update_fair:
  "False \<in> set ws \<Longrightarrow> positive_update ws a = Done (a > 0, if a > 0 then a - 1 else a)"
  by (simp add: positive_update_def positive_update_loop_fair)

lemma positive_update_zero [simp]: "positive_update ws 0 = Done (False, 0)"
  by (simp add: positive_update_def positive_update_loop.simps)

lemma notify_simps [simp]:
  "w_queue (notify t w) = w_queue w" "w_waiting (notify t w) = w_waiting w"
  "w_from_me (notify t w) = w_from_me w + 1" "w_log (notify t w) = w_log w @ [t]"
  by (simp_all add: notify_def)

lemma wake_some:
  assumes "aq_laws Q contents qcap" "contents (w_queue w) = t # ts"
  obtains q where "wake Q w = notify t (w\<lparr>w_queue := q\<rparr>)" "contents q = ts"
    "qcap q = qcap (w_queue w)"
proof -
  obtain q where "aq_pop Q (w_queue w) = Some (t, q)" "contents q = ts" "qcap q = qcap (w_queue w)"
    using aq_pop_cons [OF assms] .
  then show thesis by (intro that [of q]) (simp_all add: wake_def)
qed

lemma wake_none:
  assumes "aq_laws Q contents qcap" "contents (w_queue w) = []"
  shows "wake Q w = w\<lparr>w_waiting := w_waiting w + 1\<rparr>"
  by (simp add: wake_def aq_pop_empty [OF assms])

lemma wk_spec:
  assumes laws: "aq_laws Q contents qcap" and ok: "sw_ok contents qcap w"
    and q: "contents (w_queue w) = t # ts" and ws: "False \<in> set ws"
  obtains w' where "wk Q ws w = Done w'" "sw_ok contents qcap w'"
    "if w_waiting w > 0
     then contents (w_queue w') = ts \<and> w_waiting w' = w_waiting w - 1
        \<and> w_from_me w' = w_from_me w + 1 \<and> w_log w' = w_log w @ [t]
     else contents (w_queue w') = ts @ [t] \<and> w_waiting w' = w_waiting w
        \<and> w_from_me w' = w_from_me w \<and> w_log w' = w_log w"
proof -
  obtain q where pop: "aq_pop Q (w_queue w) = Some (t, q)" "contents q = ts"
    "qcap q = qcap (w_queue w)"
    using aq_pop_cons [OF laws q] .
  with ok \<open>contents (w_queue w) = t # ts\<close> have room: "length (contents q) < qcap q" "qcap q = 4"
    by (auto simp: sw_ok_def)
  obtain q' where push: "aq_push Q q t = Some q'" "contents q' = contents q @ [t]" "qcap q' = qcap q"
    using aq_push_room [OF laws room(1)] .
  show thesis
    by (rule that [of "if w_waiting w > 0
          then notify t (w\<lparr>w_queue := q, w_waiting := w_waiting w - 1\<rparr>) else w\<lparr>w_queue := q'\<rparr>"])
      (use pop push room in \<open>auto simp: wk_def positive_update_fair [OF ws] sw_ok_def\<close>)
qed

text \<open>
  \<open>register\<close> on every branch. With no stored wake-up (\<open>waiting\<close> zero) the new task
  enters at the back and then the \<^emph>\<open>front\<close> task is moved behind it; with a stored one
  the front task is notified at once.
\<close>

lemma register_room:
  assumes laws: "aq_laws Q contents qcap" and ok: "sw_ok contents qcap w"
    and len: "length (contents (w_queue w)) < 4" and ws: "False \<in> set ws"
    and front: "contents (w_queue w) @ [t] = u # us"
  obtains w' where "register Q ws (Some t) w = Done w'" "sw_ok contents qcap w'"
    "if w_waiting w > 0
     then contents (w_queue w') = us \<and> w_waiting w' = w_waiting w - 1
        \<and> w_from_me w' = w_from_me w + 1 \<and> w_log w' = w_log w @ [u]
     else contents (w_queue w') = us @ [u] \<and> w_waiting w' = w_waiting w
        \<and> w_from_me w' = w_from_me w \<and> w_log w' = w_log w"
proof -
  have "length (contents (w_queue w)) < qcap (w_queue w)"
    using ok len by (simp add: sw_ok_def)
  then obtain q where push: "aq_push Q (w_queue w) t = Some q"
    "contents q = contents (w_queue w) @ [t]" "qcap q = qcap (w_queue w)"
    using aq_push_room [OF laws] by blast
  have ok': "sw_ok contents qcap (w\<lparr>w_queue := q\<rparr>)"
    using ok push len by (simp add: sw_ok_def)
  have front': "contents (w_queue (w\<lparr>w_queue := q\<rparr>)) = u # us"
    using push front by simp
  show thesis
    using wk_spec [OF laws ok' front' ws] that
    by (metis (no_types, lifting) push(1) register_def option.case(2) swaker.select_convs(2-4)
        swaker.simps(6) swaker.surjective swaker.update_convs(1))
qed

lemma register_full:
  assumes "aq_laws Q contents qcap" "sw_ok contents qcap w" "length (contents (w_queue w)) = 4"
  shows "register Q ws (Some t) w = Done (notify t w)"
  using assms by (simp add: register_def aq_push_full [OF assms(1)] sw_ok_def)

lemma register_no_task: "register Q ws None w = Panic"
  by (simp add: register_def)

lemma register_total:
  assumes "aq_laws Q contents qcap" "sw_ok contents qcap w" "False \<in> set ws"
  obtains w' where "register Q ws (Some t) w = Done w'" "sw_ok contents qcap w'"
proof (cases "length (contents (w_queue w)) < 4")
  case True
  obtain u us where "contents (w_queue w) @ [t] = u # us" by (cases "contents (w_queue w)") auto
  from register_room [OF assms(1,2) True assms(3) this] that show thesis by blast
next
  case False
  with assms have "register Q ws (Some t) w = Done (notify t w)"
    by (intro register_full) (auto simp: sw_ok_def)
  with assms(2) that show thesis by (auto simp: sw_ok_def)
qed

lemma wake_ok:
  assumes "aq_laws Q contents qcap" "sw_ok contents qcap w"
  shows "sw_ok contents qcap (wake Q w)"
proof (cases "contents (w_queue w)")
  case Nil
  with assms show ?thesis by (simp add: wake_none sw_ok_def)
next
  case (Cons t ts)
  obtain q where "wake Q w = notify t (w\<lparr>w_queue := q\<rparr>)" "contents q = ts"
    "qcap q = qcap (w_queue w)" using wake_some [OF assms(1) Cons] .
  with assms(2) Cons show ?thesis by (auto simp: sw_ok_def)
qed

lemma wake_all_loop_spec:
  assumes "aq_laws Q contents qcap" "length (contents (w_queue w)) < fuel"
  shows "\<exists>w'. wake_all_loop Q fuel w = Done w' \<and> contents (w_queue w') = []
    \<and> qcap (w_queue w') = qcap (w_queue w) \<and> w_waiting w' = w_waiting w
    \<and> w_log w' = w_log w @ contents (w_queue w)
    \<and> w_from_me w' = w_from_me w + of_nat (length (contents (w_queue w)))"
  using assms(2)
proof (induction fuel arbitrary: w)
  case 0
  then show ?case by simp
next
  case (Suc fuel)
  show ?case
  proof (cases "contents (w_queue w)")
    case Nil
    then show ?thesis by (simp add: aq_pop_empty [OF assms(1)])
  next
    case (Cons t ts)
    obtain q where q: "aq_pop Q (w_queue w) = Some (t, q)" "contents q = ts"
      "qcap q = qcap (w_queue w)" using aq_pop_cons [OF assms(1) Cons] .
    let ?w = "notify t (w\<lparr>w_queue := q\<rparr>)"
    have "length (contents (w_queue ?w)) < fuel" using Suc.prems Cons q by simp
    from Suc.IH [OF this] q Cons show ?thesis by (auto simp: algebra_simps)
  qed
qed

lemma wake_all_spec:
  assumes "aq_laws Q contents qcap" "sw_ok contents qcap w"
  obtains w' where "wake_all Q w = Done w'" "sw_ok contents qcap w'" "contents (w_queue w') = []"
    "w_waiting w' = w_waiting w" "w_log w' = w_log w @ contents (w_queue w)"
    "w_from_me w' = w_from_me w + of_nat (length (contents (w_queue w)))"
proof -
  have "length (contents (w_queue w)) < 5" using assms(2) by (simp add: sw_ok_def)
  from wake_all_loop_spec [OF assms(1) this] assms(2) that show thesis
    by (auto simp: wake_all_def sw_ok_def)
qed

end
