(* ===== verification/Interleave.thy ===== *)
theory Interleave
  imports Prelude "HOL-Library.Multiset"
begin

text \<open>
  Threads that interleave on a shared state. A component that several threads use at once
  is given by the atomic steps of one thread: a function of an input (the choices the
  scheduler and the caller make), the thread's number, the shared state and the thread's
  program counter. A step that is not enabled is \<open>Spin\<close>; \<open>Fault\<close> and \<open>Panic\<close> are
  steps that go wrong. A configuration is the shared state and the program counters of a
  fixed number of threads, and each step of the system is one step of one thread, so
  the atomics are sequentially consistent.
\<close>

type_synonym ('i, 's, 'p) thread_step = "'i \<Rightarrow> nat \<Rightarrow> 's \<Rightarrow> 'p \<Rightarrow> ('s \<times> 'p) outcome"

inductive reachable ::
    "('i, 's, 'p) thread_step \<Rightarrow> 's \<times> 'p list \<Rightarrow> 's \<times> 'p list \<Rightarrow> bool" for step c0 where
  reach_start: "reachable step c0 c0"
| reach_step: "reachable step c0 (s, ps) \<Longrightarrow> i < length ps \<Longrightarrow>
     step inp i s (ps ! i) = Done (s', p') \<Longrightarrow> reachable step c0 (s', ps[i := p'])"

text \<open>A schedule says which thread moves and with which input.\<close>

fun run :: "('i, 's, 'p) thread_step \<Rightarrow> (nat \<times> 'i) list \<Rightarrow> 's \<times> 'p list \<Rightarrow> ('s \<times> 'p list) option"
where
  "run step [] c = Some c"
| "run step ((i, inp) # sched) (s, ps) =
     (if i < length ps then
        (case step inp i s (ps ! i) of
           Done (s', p') \<Rightarrow> run step sched (s', ps[i := p'])
         | _ \<Rightarrow> None)
      else None)"

lemma run_reachable_from:
  "run step sched c = Some c' \<Longrightarrow> reachable step c0 c \<Longrightarrow> reachable step c0 c'"
proof (induction step sched c rule: run.induct)
  case (1 step c)
  then show ?case by simp
next
  case (2 step i inp sched s ps)
  then obtain s' p' where i: "i < length ps" and st: "step inp i s (ps ! i) = Done (s', p')"
    and rest: "run step sched (s', ps[i := p']) = Some c'"
    by (auto split: if_splits outcome.splits)
  from reach_step [OF "2.prems"(2) i st] have "reachable step c0 (s', ps[i := p'])" .
  with "2.IH" [OF i st _ rest] show ?case by simp
qed

lemma run_reachable: "run step sched c = Some c' \<Longrightarrow> reachable step c c'"
  by (erule run_reachable_from) (rule reach_start)

section \<open>Invariants and simulations\<close>

text \<open>
  The contract between a component and this theory: the invariant holds in the
  configurations the component starts from, and every step of every thread keeps it.
\<close>

locale interleaving =
  fixes step :: "('i, 's, 'p) thread_step"
    and start :: "'s \<times> 'p list \<Rightarrow> bool"
    and Inv :: "'s \<times> 'p list \<Rightarrow> bool"
  assumes Inv_start: "start c \<Longrightarrow> Inv c"
    and Inv_step: "Inv (s, ps) \<Longrightarrow> i < length ps \<Longrightarrow> step inp i s (ps ! i) = Done (s', p')
      \<Longrightarrow> Inv (s', ps[i := p'])"
begin

lemma reachable_Inv:
  assumes "reachable step c0 c" "start c0"
  shows "Inv c"
  using assms
  by (induction rule: reachable.induct) (auto intro: Inv_start Inv_step)

end

text \<open>A component none of whose steps goes wrong where the invariant holds.\<close>

locale safe_interleaving = interleaving +
  assumes Inv_safe: "Inv (s, ps) \<Longrightarrow> i < length ps
    \<Longrightarrow> step inp i s (ps ! i) \<noteq> Fault \<and> step inp i s (ps ! i) \<noteq> Panic"
begin

lemma reachable_safe:
  assumes "reachable step c0 (s, ps)" "start c0" "i < length ps"
  shows "step inp i s (ps ! i) \<noteq> Fault" "step inp i s (ps ! i) \<noteq> Panic"
  using Inv_safe [OF reachable_Inv [OF assms(1,2)] assms(3)] by auto

end

text \<open>
  A component that implements an abstract one: where the invariant holds, the abstraction
  of a step is a step of the specification or leaves the abstract state as it was.
\<close>

locale simulation = interleaving step start Inv
  for step :: "('i, 's, 'p) thread_step" and start Inv +
  fixes abs :: "'s \<times> 'p list \<Rightarrow> 'a"
    and astep :: "'a \<Rightarrow> 'a \<Rightarrow> bool"
  assumes simulates: "Inv (s, ps) \<Longrightarrow> i < length ps \<Longrightarrow> step inp i s (ps ! i) = Done (s', p')
    \<Longrightarrow> abs (s', ps[i := p']) = abs (s, ps) \<or> astep (abs (s, ps)) (abs (s', ps[i := p']))"
begin

lemma reachable_refines:
  assumes "reachable step c0 c" "start c0"
  shows "astep\<^sup>*\<^sup>* (abs c0) (abs c)"
  using assms
proof (induction rule: reachable.induct)
  case reach_start
  then show ?case by simp
next
  case (reach_step s ps i inp s' p')
  have "Inv (s, ps)" using reachable_Inv reach_step.hyps(1) reach_step.prems .
  from simulates [OF this reach_step.hyps(2,3)] reach_step show ?case
    by (metis rtranclp.rtrancl_into_rtrancl)
qed

end

text \<open>
  Threads whose states are described one at a time. \<open>G\<close> speaks of the shared state and
  \<open>L s i pc\<close> of thread \<open>i\<close> at \<open>pc\<close>. A step has to keep \<open>G\<close> and the assertion of the
  thread that moves, and must not disturb the assertion of any other thread; then the
  assertions hold together in all reachable configurations.
\<close>

definition assertions :: "('s \<Rightarrow> bool) \<Rightarrow> ('s \<Rightarrow> nat \<Rightarrow> 'p \<Rightarrow> bool) \<Rightarrow> 's \<times> 'p list \<Rightarrow> bool" where
  "assertions G L c \<longleftrightarrow> G (fst c) \<and> (\<forall>i < length (snd c). L (fst c) i (snd c ! i))"

locale interference_free =
  fixes step :: "('i, 's, 'p) thread_step"
    and G :: "'s \<Rightarrow> bool"
    and L :: "'s \<Rightarrow> nat \<Rightarrow> 'p \<Rightarrow> bool"
  assumes keeps_own: "G s \<Longrightarrow> L s i pc \<Longrightarrow> step inp i s pc = Done (s', pc') \<Longrightarrow> G s' \<and> L s' i pc'"
    and spares_others: "G s \<Longrightarrow> L s i pc \<Longrightarrow> step inp i s pc = Done (s', pc') \<Longrightarrow> j \<noteq> i
      \<Longrightarrow> L s j q \<Longrightarrow> L s' j q"
begin

lemma assertions_step:
  assumes "assertions G L (s, ps)" "i < length ps" "step inp i s (ps ! i) = Done (s', p')"
  shows "assertions G L (s', ps[i := p'])"
proof -
  have g: "G s" "L s i (ps ! i)" using assms(1,2) by (auto simp: assertions_def)
  have "L s' j (ps[i := p'] ! j)" if "j < length ps" for j
    using keeps_own [OF g assms(3)] spares_others [OF g assms(3), of j "ps ! j"] assms(1) that
    by (cases "j = i") (auto simp: assertions_def)
  with keeps_own [OF g assms(3)] show ?thesis by (simp add: assertions_def)
qed

end

sublocale interference_free \<subseteq> inter: interleaving step "assertions G L" "assertions G L"
  by unfold_locales (auto intro: assertions_step)

section \<open>One thread alone\<close>

text \<open>What thread \<open>i\<close> can do while no other thread moves.\<close>

definition own_step :: "('i, 's, 'p) thread_step \<Rightarrow> nat \<Rightarrow> 's \<times> 'p \<Rightarrow> 's \<times> 'p \<Rightarrow> bool" where
  "own_step step i c c' \<longleftrightarrow> (\<exists>inp. step inp i (fst c) (snd c) = Done c')"

abbreviation alone :: "('i, 's, 'p) thread_step \<Rightarrow> nat \<Rightarrow> 's \<times> 'p \<Rightarrow> 's \<times> 'p \<Rightarrow> bool" where
  "alone step i \<equiv> (own_step step i)\<^sup>*\<^sup>*"

lemma alone_step: "step inp i s pc = Done c \<Longrightarrow> alone step i c c' \<Longrightarrow> alone step i (s, pc) c'"
  by (rule converse_rtranclp_into_rtranclp) (auto simp: own_step_def)

text \<open>
  The thread alone gets to the program counter \<open>pc\<close> with \<open>x\<close> to be seen of the shared state.
\<close>

definition arrives ::
    "('i, 's, 'p) thread_step \<Rightarrow> ('s \<Rightarrow> 'o) \<Rightarrow> nat \<Rightarrow> 's \<times> 'p \<Rightarrow> 'o \<Rightarrow> 'p \<Rightarrow> bool" where
  "arrives step obs i c x pc \<longleftrightarrow> (\<exists>s. alone step i c (s, pc) \<and> obs s = x)"

lemma arrives_refl [simp]: "arrives step obs i (s, pc) (obs s) pc"
  unfolding arrives_def by blast

lemma arrives_step:
  "step inp i s pc = Done c \<Longrightarrow> arrives step obs i c x pc' \<Longrightarrow> arrives step obs i (s, pc) x pc'"
  unfolding arrives_def by (blast intro: alone_step)

lemma arrives_trans:
  assumes "arrives step obs i c x pc" "\<And>s. obs s = x \<Longrightarrow> arrives step obs i (s, pc) y pc'"
  shows "arrives step obs i c y pc'"
  using assms unfolding arrives_def by (metis rtranclp_trans)

section \<open>Runs within a bound\<close>

text \<open>
  A component that keeps its promises only as long as a bound on its state is not
  exceeded: its steps, without those that exceed the bound. When no step leads back below
  the bound, every run that ends below it is a run of these steps.
\<close>

definition within :: "('s \<Rightarrow> bool) \<Rightarrow> ('i, 's, 'p) thread_step \<Rightarrow> ('i, 's, 'p) thread_step" where
  "within P step inp i s pc =
     (case step inp i s pc of Done (s', pc') \<Rightarrow> if P s' then Done (s', pc') else Spin | r \<Rightarrow> r)"

lemma within_eq_Done:
  "within P step inp i s pc = Done (s', pc') \<longleftrightarrow> step inp i s pc = Done (s', pc') \<and> P s'"
  by (auto simp: within_def split: outcome.splits)

lemma reachable_within:
  assumes "reachable step c0 c" "P (fst c)"
    and shrinks: "\<And>inp i s pc s' pc'. step inp i s pc = Done (s', pc') \<Longrightarrow> P s' \<Longrightarrow> P s"
  shows "reachable (within P step) c0 c"
  using assms(1,2)
proof (induction rule: reachable.induct)
  case reach_start
  show ?case by (rule reachable.reach_start)
next
  case (reach_step s ps i inp s' p')
  then have "P s'" by simp
  with shrinks [OF reach_step.hyps(3)] reach_step.IH have "reachable (within P step) c0 (s, ps)" by simp
  then show ?case
    using reach_step.hyps(2)
    by (rule reachable.reach_step [where inp = inp]) (simp add: within_eq_Done reach_step.hyps(3) \<open>P s'\<close>)
qed

section \<open>What the threads hold together\<close>

text \<open>
  Counting over the program counters: a step of one thread exchanges what that thread
  holds.
\<close>

lemma concat_update_mset:
  "i < length ps \<Longrightarrow>
   mset (concat (map f (ps[i := p]))) + mset (f (ps ! i)) = mset (concat (map f ps)) + mset (f p)"
proof (induction ps arbitrary: i)
  case Nil
  then show ?case by simp
next
  case (Cons x ps)
  then show ?case by (cases i) (auto simp: ac_simps)
qed

lemma exchange_mset:
  fixes a :: "'a multiset"
  assumes "a' + h' + l' + r = a + h + l + r'" "c' + h = c + h'" "a + c + l = r"
  shows "a' + c' + l' = r'"
proof (rule multiset_eqI)
  fix x
  from assms have "count (a' + h' + l' + r) x = count (a + h + l + r') x"
    "count (c' + h) x = count (c + h') x" "count (a + c + l) x = count r x" by simp_all
  then show "count (a' + c' + l') x = count r' x" by simp
qed

lemma count_update:
  "i < length ps \<Longrightarrow>
   length (filter P (ps[i := p])) + (if P (ps ! i) then 1 else 0)
     = length (filter P ps) + (if P p then 1 else 0)"
proof (induction ps arbitrary: i)
  case Nil
  then show ?case by simp
next
  case (Cons x ps)
  from Cons.IH show ?case using Cons.prems by (cases i) auto
qed

text \<open>A sum over the threads, for what a thread holds several of.\<close>

definition tally :: "('p \<Rightarrow> nat) \<Rightarrow> 'p list \<Rightarrow> nat" where
  "tally f ps = sum_list (map f ps)"

lemma tally_update: "i < length ps \<Longrightarrow> tally f (ps[i := p]) + f (ps ! i) = tally f ps + f p"
proof (induction ps arbitrary: i)
  case Nil
  then show ?case by simp
next
  case (Cons x ps)
  then show ?case by (cases i) (auto simp: tally_def)
qed

lemma tally_ge: "i < length ps \<Longrightarrow> f (ps ! i) \<le> tally f ps"
  unfolding tally_def by (metis elem_le_sum_list length_map nth_map)

lemma tally_Nil [simp]: "tally f [] = 0" and tally_Cons [simp]: "tally f (x # xs) = f x + tally f xs"
  by (simp_all add: tally_def)

lemma tally_replicate [simp]: "tally f (replicate n x) = n * f x"
  by (induction n) auto

lemma tally_eq_0: "tally f ps = 0 \<longleftrightarrow> (\<forall>p \<in> set ps. f p = 0)"
  by (simp add: tally_def)

lemma count_replicate: "length (filter P (replicate n x)) = (if P x then n else 0)"
  by (induction n) auto

lemma count_pos_iff: "0 < length (filter P ps) \<longleftrightarrow> (\<exists>i < length ps. P (ps ! i))"
  by (simp add: filter_empty_conv) (metis in_set_conv_nth)

lemma count_le_1_unique:
  assumes "length (filter P ps) \<le> 1" "i < length ps" "j < length ps" "P (ps ! i)" "P (ps ! j)"
  shows "i = j"
proof (rule ccontr)
  assume ne: "i \<noteq> j"
  from assms have sub: "{i, j} \<subseteq> {k. k < length ps \<and> P (ps ! k)}" by auto
  have "card {i, j} \<le> card {k. k < length ps \<and> P (ps ! k)}"
    by (rule card_mono [OF _ sub]) simp
  then show False using assms(1) ne by (simp add: length_filter_conv_card)
qed

end
