(* ===== verification/Serial_Waker_Conc.thy ===== *)
theory Serial_Waker_Conc
  imports Serial_Waker Interleave
begin

text \<open>
  \<open>AtomicSerialWaker\<close> under concurrency: \<open>register\<close>, \<open>wk\<close>, \<open>wake\<close> and \<open>wake_all\<close> as
  the atomic steps of a thread, one per access to the task queue or to a counter. What
  the threads do to the queue is \<open>aq_push\<close> and \<open>aq_pop\<close> of the queue the sequential
  theory takes as an argument. \<open>cw_reg\<close> is a history variable: the tasks whose
  registration has begun.
\<close>

section \<open>The steps\<close>

record ('q, 't) cwaker =
  cw :: "('q, 't) swaker"
  cw_reg :: "'t list"

text \<open>What follows a notification: the call returns, or \<open>wake_all\<close> pops again.\<close>

datatype after_notify = Return | PopAgain

text \<open>
  Program counters: \<open>Push\<close> is the push of \<open>register\<close>; \<open>WkPop\<close>, \<open>Load\<close>, \<open>Cas\<close> and
  \<open>PushBack\<close> are \<open>wk\<close> with its \<open>positive_update\<close>; \<open>AddFromMe\<close> and \<open>Notify\<close> are the
  two halves of a notification; \<open>WakePop\<close> and \<open>AddWaiting\<close> are \<open>wake\<close>; \<open>AllPop\<close> is
  the loop of \<open>wake_all\<close>.
\<close>

datatype 't cw_pc =
    Idle
  | Push 't
  | WkPop
  | Load 't
  | Cas 't usize
  | PushBack 't
  | AddFromMe 't after_notify
  | Notify 't after_notify
  | WakePop
  | AddWaiting
  | AllPop

text \<open>\<open>Go b\<close> lets a call go on; \<open>b\<close> says whether a weak exchange fails spuriously.\<close>

datatype 't cw_input = CallRegister 't | CallWake | CallWakeAll | Go bool

abbreviation set_queue :: "'q \<Rightarrow> ('q, 't) cwaker \<Rightarrow> ('q, 't) cwaker" where
  "set_queue q s \<equiv> s\<lparr>cw := (cw s)\<lparr>w_queue := q\<rparr>\<rparr>"

definition after_load :: "'t \<Rightarrow> usize \<Rightarrow> 't cw_pc" where
  "after_load t prev = (if prev > 0 then Cas t prev else PushBack t)"

fun cw_step :: "('q, 't) aq_ops \<Rightarrow> ('t cw_input, ('q, 't) cwaker, 't cw_pc) thread_step" where
  "cw_step Q (CallRegister t) i s Idle = Done (s\<lparr>cw_reg := cw_reg s @ [t]\<rparr>, Push t)"
| "cw_step Q CallWake i s Idle = Done (s, WakePop)"
| "cw_step Q CallWakeAll i s Idle = Done (s, AllPop)"
| "cw_step Q (Go b) i s (Push t) =
     (case aq_push Q (w_queue (cw s)) t of
        Some q \<Rightarrow> Done (set_queue q s, WkPop)
      | None \<Rightarrow> Done (s, AddFromMe t Return))"
| "cw_step Q (Go b) i s WkPop =
     (case aq_pop Q (w_queue (cw s)) of
        Some (t, q) \<Rightarrow> Done (set_queue q s, Load t)
      | None \<Rightarrow> Done (s, Idle))"
| "cw_step Q (Go b) i s (Load t) = Done (s, after_load t (w_waiting (cw s)))"
| "cw_step Q (Go b) i s (Cas t prev) =
     (if \<not> b \<and> w_waiting (cw s) = prev
      then Done (s\<lparr>cw := (cw s)\<lparr>w_waiting := prev - 1\<rparr>\<rparr>, AddFromMe t Return)
      else Done (s, after_load t (w_waiting (cw s))))"
| "cw_step Q (Go b) i s (PushBack t) =
     (case aq_push Q (w_queue (cw s)) t of
        Some q \<Rightarrow> Done (set_queue q s, Idle)
      | None \<Rightarrow> Done (s, AddFromMe t Return))"
| "cw_step Q (Go b) i s (AddFromMe t k) =
     Done (s\<lparr>cw := (cw s)\<lparr>w_from_me := w_from_me (cw s) + 1\<rparr>\<rparr>, Notify t k)"
| "cw_step Q (Go b) i s (Notify t k) =
     Done (s\<lparr>cw := (cw s)\<lparr>w_log := w_log (cw s) @ [t]\<rparr>\<rparr>,
           case k of Return \<Rightarrow> Idle | PopAgain \<Rightarrow> AllPop)"
| "cw_step Q (Go b) i s WakePop =
     (case aq_pop Q (w_queue (cw s)) of
        Some (t, q) \<Rightarrow> Done (set_queue q s, AddFromMe t Return)
      | None \<Rightarrow> Done (s, AddWaiting))"
| "cw_step Q (Go b) i s AddWaiting =
     Done (s\<lparr>cw := (cw s)\<lparr>w_waiting := w_waiting (cw s) + 1\<rparr>\<rparr>, Idle)"
| "cw_step Q (Go b) i s AllPop =
     (case aq_pop Q (w_queue (cw s)) of
        Some (t, q) \<Rightarrow> Done (set_queue q s, AddFromMe t PopAgain)
      | None \<Rightarrow> Done (s, Idle))"
| "cw_step Q _ i s pc = Spin"

section \<open>No task is lost or duplicated\<close>

text \<open>The tasks a thread has taken out of the queue, or not yet put in.\<close>

fun in_hand :: "'t cw_pc \<Rightarrow> 't list" where
  "in_hand (Push t) = [t]"
| "in_hand (Load t) = [t]"
| "in_hand (Cas t _) = [t]"
| "in_hand (PushBack t) = [t]"
| "in_hand (AddFromMe t _) = [t]"
| "in_hand (Notify t _) = [t]"
| "in_hand _ = []"

definition cw_start ::
    "('q, 't) aq_ops \<Rightarrow> ('q, 't) cwaker \<times> 't cw_pc list \<Rightarrow> bool" where
  "cw_start Q c \<longleftrightarrow> fst c = \<lparr>cw = swaker_new Q, cw_reg = []\<rparr> \<and> (\<exists>n. snd c = replicate n Idle)"

definition cw_inv :: "('q, 't) aq_ops \<Rightarrow> ('q \<Rightarrow> 't list) \<Rightarrow> ('q \<Rightarrow> nat)
    \<Rightarrow> ('q, 't) cwaker \<times> 't cw_pc list \<Rightarrow> bool" where
  "cw_inv Q contents qcap c \<longleftrightarrow>
     (aq_laws Q contents qcap \<longrightarrow>
        sw_ok contents qcap (cw (fst c)) \<and>
        mset (contents (w_queue (cw (fst c)))) + mset (concat (map in_hand (snd c)))
          + mset (w_log (cw (fst c))) = mset (cw_reg (fst c)))"

text \<open>One step balances what the queue, the log, the history and the thread's hand hold.\<close>

lemma cw_step_balance:
  assumes "cw_step Q inp i s pc = Done (s', pc')"
    and laws: "aq_laws Q contents qcap" and ok: "sw_ok contents qcap (cw s)"
  shows "sw_ok contents qcap (cw s') \<and>
    mset (contents (w_queue (cw s'))) + mset (in_hand pc') + mset (w_log (cw s')) + mset (cw_reg s)
    = mset (contents (w_queue (cw s))) + mset (in_hand pc) + mset (w_log (cw s)) + mset (cw_reg s')"
proof -
  note queue = aq_push_SomeD(1,2) [OF laws] aq_pop_SomeD [OF laws]
  have room: "length (contents (w_queue (cw s))) \<le> 3"
    if "aq_push Q (w_queue (cw s)) t = Some q" for q t
    using aq_push_SomeD(3) [OF laws that] ok by (simp add: sw_ok_def)
  show ?thesis
    using assms(1) ok
    by (cases "(Q, inp, i, s, pc)" rule: cw_step.cases)
      (auto simp: sw_ok_def after_load_def queue intro: room
        split: option.splits if_splits after_notify.splits)
qed

interpretation cw: interleaving "cw_step Q" "cw_start Q" "cw_inv Q contents qcap"
  for Q :: "('q, 't) aq_ops" and contents qcap
proof unfold_locales
  fix c :: "('q, 't) cwaker \<times> 't cw_pc list"
  assume "cw_start Q c"
  then show "cw_inv Q contents qcap c"
    using swaker_new_ok [of Q contents qcap]
    by (auto simp: cw_start_def cw_inv_def aq_new_laws)
next
  fix s s' :: "('q, 't) cwaker" and ps i inp p'
  assume inv: "cw_inv Q contents qcap (s, ps)" and i: "i < length ps"
    and st: "cw_step Q inp i s (ps ! i) = Done (s', p')"
  show "cw_inv Q contents qcap (s', ps[i := p'])"
  proof (unfold cw_inv_def, intro impI)
    assume laws: "aq_laws Q contents qcap"
    with inv have ok: "sw_ok contents qcap (cw s)" by (simp add: cw_inv_def)
    from cw_step_balance [OF st laws ok]
    have bal: "mset (contents (w_queue (cw s'))) + mset (in_hand p') + mset (w_log (cw s'))
        + mset (cw_reg s) = mset (contents (w_queue (cw s))) + mset (in_hand (ps ! i))
        + mset (w_log (cw s)) + mset (cw_reg s')" and ok': "sw_ok contents qcap (cw s')"
      by simp_all
    have "mset (contents (w_queue (cw s))) + mset (concat (map in_hand ps)) + mset (w_log (cw s))
        = mset (cw_reg s)" using inv laws by (simp add: cw_inv_def)
    from exchange_mset [OF bal concat_update_mset [OF i] this] ok'
    show "sw_ok contents qcap (cw (fst (s', ps[i := p']))) \<and>
      mset (contents (w_queue (cw (fst (s', ps[i := p'])))))
        + mset (concat (map in_hand (snd (s', ps[i := p']))))
        + mset (w_log (cw (fst (s', ps[i := p'])))) = mset (cw_reg (fst (s', ps[i := p'])))"
      by simp
  qed
qed

lemma cw_all_idle_hands: "\<forall>p \<in> set ps. p = Idle \<Longrightarrow> concat (map in_hand ps) = []"
  by (induction ps) auto

text \<open>
  C10. However any number of threads interleave \<open>register\<close>, \<open>wake\<close> and \<open>wake_all\<close>, a
  registered task is never lost and never notified twice for one registration: at every
  moment each registration is exactly one of queued, in the hands of a thread that is
  still inside a call, or notified; and the queue never holds more than its four places.
\<close>

theorem waker_conserves_tasks:
  assumes "aq_laws Q contents qcap"
    and "reachable (cw_step Q) (\<lparr>cw = swaker_new Q, cw_reg = []\<rparr>, replicate n Idle) (s, ps)"
  shows "mset (contents (w_queue (cw s))) + mset (concat (map in_hand ps)) + mset (w_log (cw s))
      = mset (cw_reg s)
    \<and> length (contents (w_queue (cw s))) \<le> 4"
proof -
  have "cw_inv Q contents qcap (s, ps)"
    using assms(2) by (rule cw.reachable_Inv) (auto simp: cw_start_def)
  with assms(1) show ?thesis by (simp add: cw_inv_def sw_ok_def)
qed

section \<open>A lost wake-up\<close>

text \<open>
  Thread 0 registers task \<open>t\<close> and has just popped it again inside \<open>wk\<close>; it sees
  \<open>waiting = 0\<close>. Thread 1 then runs \<open>wake\<close>: the queue is empty at that moment, so the
  wake-up goes into \<open>waiting\<close>. Thread 0 pushes the task back and returns.
\<close>

definition lost_wakeup_schedule :: "'t \<Rightarrow> (nat \<times> 't cw_input) list" where
  "lost_wakeup_schedule t =
     [(0, CallRegister t), (0, Go False), (0, Go False), (0, Go False),
      (1, CallWake), (1, Go False), (1, Go False),
      (0, Go False)]"

lemma lost_wakeup_run:
  "run (cw_step list_aq) (lost_wakeup_schedule t)
     (\<lparr>cw = swaker_new list_aq, cw_reg = []\<rparr>, replicate 2 Idle)
   = Some (\<lparr>cw = \<lparr>w_queue = (4, [t]), w_waiting = 1, w_from_me = 0, w_log = []\<rparr>, cw_reg = [t]\<rparr>,
       [Idle, Idle])"
  by (simp add: lost_wakeup_schedule_def numeral_2_eq_2 after_load_def)

theorem waker_conserves_tasks_witness:
  "aq_laws (list_aq :: (nat \<times> nat list, nat) aq_ops) snd fst
   \<and> mset [7] + mset (concat (map in_hand [Idle, Idle])) + mset [] = mset [7 :: nat]"
  using waker_conserves_tasks [OF list_aq_laws run_reachable [OF lost_wakeup_run [of "7 :: nat"]]]
    list_aq_laws by simp

text \<open>
  C11. A wake-up can be lost: some interleaving of one \<open>register\<close> and one \<open>wake\<close> ends
  with both calls returned, the task still queued, the wake-up stored in \<open>waiting\<close>, and
  no notification sent; the task sleeps until the next call on the waker.
\<close>

theorem waker_lost_wakeup:
  "\<exists>s. reachable (cw_step list_aq) (\<lparr>cw = swaker_new list_aq, cw_reg = []\<rparr>, replicate 2 Idle)
         (s, [Idle, Idle])
     \<and> cw_reg s = [t] \<and> snd (w_queue (cw s)) = [t] \<and> w_waiting (cw s) = 1 \<and> w_log (cw s) = []"
  using run_reachable [OF lost_wakeup_run [of t]] by auto

end
