(* ===== verification/Spinlock.thy ===== *)
theory Spinlock
  imports Interleave
begin

text \<open>
  The spinlock of \<open>src/utils.rs\<close>. A thread that calls \<open>lock\<close> exchanges the flag for
  \<open>true\<close> until it reads \<open>false\<close>; it then owns a guard, through which it reads and
  writes the protected value (\<open>Deref\<close>, \<open>DerefMut\<close>), and dropping the guard stores
  \<open>false\<close>. Each exchange, store and access through the guard is one step.
\<close>

record 'v spinlock =
  sl_flag :: bool
  sl_value :: 'v

definition spinlock_new :: "'v \<Rightarrow> 'v spinlock" where
  "spinlock_new v = \<lparr>sl_flag = False, sl_value = v\<rparr>"

text \<open>\<open>Spinning\<close>: inside \<open>lock\<close>. \<open>Guarded\<close>: the thread holds a \<open>SpinlockGuard\<close>.\<close>

datatype sl_pc = Unlocked | Spinning | Guarded

datatype 'v sl_input = CallLock | SwapFlag | DerefWrite 'v | DropGuard

definition swap_flag :: "'v spinlock \<Rightarrow> bool \<times> 'v spinlock" where
  "swap_flag l = (sl_flag l, l\<lparr>sl_flag := True\<rparr>)"

definition guard_deref :: "'v spinlock \<Rightarrow> 'v" where
  "guard_deref l = sl_value l"

definition guard_deref_mut :: "'v \<Rightarrow> 'v spinlock \<Rightarrow> 'v spinlock" where
  "guard_deref_mut v l = l\<lparr>sl_value := v\<rparr>"

definition guard_drop :: "'v spinlock \<Rightarrow> 'v spinlock" where
  "guard_drop l = l\<lparr>sl_flag := False\<rparr>"

fun sl_step :: "('v sl_input, 'v spinlock, sl_pc) thread_step" where
  "sl_step CallLock i l Unlocked = Done (l, Spinning)"
| "sl_step SwapFlag i l Spinning =
     (let (old, l') = swap_flag l in Done (l', if old then Spinning else Guarded))"
| "sl_step (DerefWrite v) i l Guarded = Done (guard_deref_mut v l, Guarded)"
| "sl_step DropGuard i l Guarded = Done (guard_drop l, Unlocked)"
| "sl_step _ i l pc = Spin"

lemmas sl_op_defs = swap_flag_def guard_deref_def guard_deref_mut_def guard_drop_def

fun_cases sl_stepE: "sl_step inp i l pc = Done r"

definition sl_start :: "'v spinlock \<times> sl_pc list \<Rightarrow> bool" where
  "sl_start c \<longleftrightarrow> \<not> sl_flag (fst c) \<and> (\<exists>n. snd c = replicate n Unlocked)"

text \<open>The flag counts the guards: it is set exactly when there is one, and there is at most one.\<close>

definition sl_inv :: "'v spinlock \<times> sl_pc list \<Rightarrow> bool" where
  "sl_inv c \<longleftrightarrow>
     length (filter (\<lambda>p. p = Guarded) (snd c)) = (if sl_flag (fst c) then 1 else 0)"

interpretation sl: safe_interleaving sl_step sl_start sl_inv
proof unfold_locales
  fix c :: "'v spinlock \<times> sl_pc list"
  show "sl_start c \<Longrightarrow> sl_inv c"
    by (auto simp: sl_start_def sl_inv_def)
next
  fix s s' :: "'v spinlock" and ps i inp p'
  assume inv: "sl_inv (s, ps)" and i: "i < length ps" and "sl_step inp i s (ps ! i) = Done (s', p')"
  then show "sl_inv (s', ps[i := p'])"
    using count_update [OF i, of "\<lambda>p. p = Guarded" p']
    by (auto simp: sl_inv_def sl_op_defs Let_def elim!: sl_stepE split: if_splits)
next
  fix s :: "'v spinlock" and ps i inp
  show "sl_step inp i s (ps ! i) \<noteq> Fault \<and> sl_step inp i s (ps ! i) \<noteq> Panic"
    by (cases "(inp, i, s, ps ! i)" rule: sl_step.cases) (auto simp: Let_def swap_flag_def)
qed

text \<open>
  C39. Mutual exclusion: in every configuration that any number of threads can reach by
  interleaving their steps, at most one thread holds a guard, and then the flag is set.
\<close>

theorem spinlock_mutual_exclusion:
  assumes "reachable sl_step (spinlock_new v, replicate n Unlocked) (l, ps)"
    and "i < length ps" and "ps ! i = Guarded"
    and "j < length ps" and "ps ! j = Guarded"
  shows "i = j \<and> sl_flag l"
proof -
  have "sl_inv (l, ps)"
    using assms(1) by (rule sl.reachable_Inv) (auto simp: sl_start_def spinlock_new_def)
  moreover have "0 < length (filter (\<lambda>p. p = Guarded) ps)"
    unfolding count_pos_iff using assms(2,3) by blast
  ultimately have "length (filter (\<lambda>p. p = Guarded) ps) = 1" "sl_flag l"
    by (auto simp: sl_inv_def split: if_splits)
  with assms count_le_1_unique [of "\<lambda>p. p = Guarded" ps i j] show ?thesis by simp
qed

lemma spinlock_run_example:
  "run sl_step [(0, CallLock), (1, CallLock), (1, SwapFlag), (0, SwapFlag)]
     (spinlock_new (7::nat), replicate 2 Unlocked)
   = Some (\<lparr>sl_flag = True, sl_value = 7\<rparr>, [Spinning, Guarded])"
  by (simp add: spinlock_new_def swap_flag_def numeral_2_eq_2)

theorem spinlock_mutual_exclusion_witness:
  "reachable sl_step (spinlock_new (7::nat), replicate 2 Unlocked)
     (\<lparr>sl_flag = True, sl_value = 7\<rparr>, [Spinning, Guarded])
   \<and> (1::nat) = 1 \<and> sl_flag \<lparr>sl_flag = True, sl_value = 7 :: nat\<rparr>"
proof -
  note r = run_reachable [OF spinlock_run_example]
  show ?thesis
    using r spinlock_mutual_exclusion [OF r, of 1 1] by simp
qed

end
