(* ===== verification/Select_Ops.thy ===== *)
theory Select_Ops
  imports Prelude
begin

text \<open>
  \<open>src/select.rs\<close>: the state of a blocked operation as an enum, and its representation in
  one atomic word. The first three numbers stand for the states without an operation, and
  any other word is the address that \<open>Operation::hook\<close> made an identifier of.
\<close>

datatype operation = Operation_Id usize

datatype selected = Waiting | Aborted | Disconnected | Operation operation

definition hook :: "usize \<Rightarrow> operation outcome" where
  "hook val = (if val > 2 then Done (Operation_Id val) else Panic)"

definition selected_from :: "usize \<Rightarrow> selected" where
  "selected_from val =
     (if val = 0 then Waiting else if val = 1 then Aborted else if val = 2 then Disconnected
      else Operation (Operation_Id val))"

fun selected_into :: "selected \<Rightarrow> usize" where
  "selected_into Waiting = 0"
| "selected_into Aborted = 1"
| "selected_into Disconnected = 2"
| "selected_into (Operation (Operation_Id val)) = val"

text \<open>The states that survive the representation: operations that \<open>hook\<close> can have made.\<close>

fun sel_ok :: "selected \<Rightarrow> bool" where
  "sel_ok (Operation (Operation_Id val)) = (val > 2)"
| "sel_ok _ = True"

lemma word_gt_2_iff: "(2 :: usize) < v \<longleftrightarrow> v \<noteq> 0 \<and> v \<noteq> 1 \<and> v \<noteq> 2"
proof -
  have "unat v \<noteq> 0 \<and> unat v \<noteq> 1 \<and> unat v \<noteq> 2 \<longleftrightarrow> 2 < unat v" by linarith
  then show ?thesis by (simp add: word_less_nat_alt word_unat_eq_iff)
qed

lemma selected_into_from [simp]: "selected_into (selected_from v) = v"
  by (simp add: selected_from_def)

lemma selected_from_into: "selected_from (selected_into s) = s \<longleftrightarrow> sel_ok s"
  by (cases s rule: sel_ok.cases) (auto simp: selected_from_def word_gt_2_iff)

lemma selected_into_eq_0 [simp]: "sel_ok s \<Longrightarrow> selected_into s = 0 \<longleftrightarrow> s = Waiting"
  by (cases s rule: sel_ok.cases) (auto simp: word_gt_2_iff)

lemma selected_from_0 [simp]: "selected_from 0 = Waiting" "selected_from v = Waiting \<longleftrightarrow> v = 0"
  by (simp_all add: selected_from_def)

lemma selected_from_ok [simp]: "sel_ok (selected_from v)"
  by (simp add: selected_from_def word_gt_2_iff)

lemma hook_Done: "hook v = Done op \<longleftrightarrow> op = Operation_Id v \<and> 2 < v"
  by (auto simp: hook_def)

text \<open>
  C40. The word representation of \<open>Selected\<close> is faithful for the operations the code makes:
  every word is the representation of the state read from it, an identifier that
  \<open>hook\<close> accepts is read back as itself, and the addresses that would be mistaken for
  \<open>Waiting\<close>, \<open>Aborted\<close> or \<open>Disconnected\<close> are exactly those on which \<open>hook\<close> panics.
\<close>

theorem selected_roundtrip:
  "selected_into (selected_from v) = v
   \<and> (hook v = Panic \<longleftrightarrow> selected_from (selected_into (Operation (Operation_Id v))) \<noteq> Operation (Operation_Id v))
   \<and> selected_from (selected_into (Operation (Operation_Id v)))
       = (case hook v of Done op \<Rightarrow> Operation op
          | _ \<Rightarrow> [Waiting, Aborted, Disconnected] ! unat v)"
proof (cases "v > 2")
  case True
  then show ?thesis
    using selected_from_into [of "Operation (Operation_Id v)"] by (simp add: hook_def)
next
  case False
  then have "v = 0 \<or> v = 1 \<or> v = 2" by (simp add: word_gt_2_iff)
  then show ?thesis by (auto simp: hook_def selected_from_def)
qed

end
