(* ===== verification/Thread_Context.thy ===== *)
theory Thread_Context
  imports Select_Ops
begin

text \<open>
  \<open>Context\<close> of \<open>src/context.rs\<close>: the cell through which a thread that blocks on a channel
  is told what it was woken for. A context is shared (an \<open>Arc\<close>); what other threads may
  do to it while its owner waits is \<open>try_select\<close> and \<open>store_packet\<close>, and the loops of the
  owner take, for each turn, the list of these actions that happen before the turn's load.
\<close>

record inner =
  in_select :: usize
  in_packet :: usize
  in_thread :: nat

definition context_new :: "nat \<Rightarrow> inner" where
  "context_new t = \<lparr>in_select = selected_into Waiting, in_packet = 0, in_thread = t\<rparr>"

definition ctx_reset :: "inner \<Rightarrow> inner" where
  "ctx_reset cx = cx\<lparr>in_select := selected_into Waiting, in_packet := 0\<rparr>"

definition ctx_try_select :: "selected \<Rightarrow> inner \<Rightarrow> (selected + unit) \<times> inner" where
  "ctx_try_select sel cx =
     (if in_select cx = selected_into Waiting then (Inr (), cx\<lparr>in_select := selected_into sel\<rparr>)
      else (Inl (selected_from (in_select cx)), cx))"

definition ctx_selected :: "inner \<Rightarrow> selected" where
  "ctx_selected cx = selected_from (in_select cx)"

definition ctx_store_packet :: "usize \<Rightarrow> inner \<Rightarrow> inner" where
  "ctx_store_packet packet cx = (if packet \<noteq> 0 then cx\<lparr>in_packet := packet\<rparr> else cx)"

section \<open>Waiting\<close>

datatype cx_action = TrySelect selected | StorePacket usize

fun cx_act :: "cx_action \<Rightarrow> inner \<Rightarrow> inner" where
  "cx_act (TrySelect s) cx = snd (ctx_try_select s cx)"
| "cx_act (StorePacket p) cx = ctx_store_packet p cx"

definition cx_acts :: "cx_action list \<Rightarrow> inner \<Rightarrow> inner" where
  "cx_acts as cx = fold cx_act as cx"

primrec ctx_wait_packet :: "cx_action list list \<Rightarrow> inner \<Rightarrow> (usize \<times> inner) outcome" where
  "ctx_wait_packet [] cx = Spin"
| "ctx_wait_packet (as # rest) cx =
     (let cx1 = cx_acts as cx; packet = in_packet cx1 in
      if packet \<noteq> 0 then Done (packet, cx1) else ctx_wait_packet rest cx1)"

primrec ctx_wait :: "cx_action list list \<Rightarrow> inner \<Rightarrow> (selected \<times> inner) outcome" where
  "ctx_wait [] cx = Spin"
| "ctx_wait (as # rest) cx =
     (let cx1 = cx_acts as cx; sel = ctx_selected cx1 in
      if sel \<noteq> Waiting then Done (sel, cx1) else ctx_wait rest cx1)"

text \<open>
  A turn of \<open>wait_until\<close>: the actions before its load, the time \<open>Instant::now()\<close> reads,
  and the actions between the load and the \<open>try_select\<close> of a turn that gives up. A
  \<open>park\<close> ends when the thread is unparked, at its timeout, or for no reason, so it is a
  step to the next turn.
\<close>

record turn =
  tn_before :: "cx_action list"
  tn_now :: nat
  tn_late :: "cx_action list"

primrec wait_until_loop ::
    "turn list \<Rightarrow> nat \<Rightarrow> nat option \<Rightarrow> inner \<Rightarrow> (selected \<times> inner) outcome" where
  "wait_until_loop [] counter deadline cx = Spin"
| "wait_until_loop (t # ts) counter deadline cx =
     (let cx1 = cx_acts (tn_before t) cx; sel = ctx_selected cx1 in
      if sel \<noteq> Waiting then Done (sel, cx1)
      else if counter < 10 then wait_until_loop ts (counter + 1) deadline cx1
      else (case deadline of
          Some end_time \<Rightarrow>
            if tn_now t < end_time then wait_until_loop ts counter deadline cx1
            else (let (r, cx2) = ctx_try_select Aborted (cx_acts (tn_late t) cx1) in
                  Done (case r of Inr _ \<Rightarrow> Aborted | Inl s \<Rightarrow> s, cx2))
        | None \<Rightarrow> wait_until_loop ts counter deadline cx1))"

definition ctx_wait_until :: "turn list \<Rightarrow> nat option \<Rightarrow> inner \<Rightarrow> (selected \<times> inner) outcome" where
  "ctx_wait_until ts deadline cx = wait_until_loop ts 0 deadline cx"

section \<open>The first selection wins\<close>

lemma context_new_simps [simp]:
  "in_select (context_new t) = 0" "in_packet (context_new t) = 0" "in_thread (context_new t) = t"
  by (simp_all add: context_new_def)

lemma ctx_reset_new: "ctx_reset cx = context_new (in_thread cx)"
  by (simp add: ctx_reset_def context_new_def)

lemma ctx_selected_Waiting [simp]: "ctx_selected cx = Waiting \<longleftrightarrow> in_select cx = 0"
  by (simp add: ctx_selected_def)

lemma ctx_store_packet_simps [simp]:
  "in_select (ctx_store_packet p cx) = in_select cx" "in_thread (ctx_store_packet p cx) = in_thread cx"
  "in_packet (ctx_store_packet p cx) = (if p = 0 then in_packet cx else p)"
  by (simp_all add: ctx_store_packet_def)

lemma ctx_try_select_open:
  "in_select cx = 0 \<Longrightarrow> ctx_try_select s cx = (Inr (), cx\<lparr>in_select := selected_into s\<rparr>)"
  by (simp add: ctx_try_select_def)

lemma ctx_try_select_taken:
  "in_select cx \<noteq> 0 \<Longrightarrow> ctx_try_select s cx = (Inl (ctx_selected cx), cx)"
  by (simp add: ctx_try_select_def ctx_selected_def)

lemma ctx_try_select_thread [simp]:
  "in_thread (snd (ctx_try_select s cx)) = in_thread cx"
  "in_packet (snd (ctx_try_select s cx)) = in_packet cx"
  by (simp_all add: ctx_try_select_def)

text \<open>What a context is selected for after a list of actions: the first \<open>try_select\<close>.\<close>

primrec first_select :: "cx_action list \<Rightarrow> selected" where
  "first_select [] = Waiting"
| "first_select (a # as) =
     (case a of TrySelect s \<Rightarrow> (if s = Waiting then first_select as else s)
      | StorePacket p \<Rightarrow> first_select as)"

lemma first_select_append:
  "first_select (as @ bs) = (if first_select as = Waiting then first_select bs else first_select as)"
  by (induction as) (auto split: cx_action.splits)

text \<open>Actions whose operations were made by \<open>hook\<close>.\<close>

fun act_ok :: "cx_action \<Rightarrow> bool" where
  "act_ok (TrySelect s) = sel_ok s"
| "act_ok (StorePacket p) = True"

lemma cx_acts_taken: "in_select cx \<noteq> 0 \<Longrightarrow> in_select (cx_acts as cx) = in_select cx"
proof (induction as arbitrary: cx)
  case Nil
  then show ?case by (simp add: cx_acts_def)
next
  case (Cons a as)
  have "in_select (cx_act a cx) = in_select cx"
    using Cons.prems by (cases a) (simp_all add: ctx_try_select_taken)
  with Cons show ?case by (simp add: cx_acts_def)
qed

lemma cx_acts_select:
  assumes "list_all act_ok as"
  shows "ctx_selected (cx_acts as cx)
    = (if in_select cx = 0 then first_select as else ctx_selected cx)"
  using assms
proof (induction as arbitrary: cx)
  case Nil
  then show ?case by (simp add: cx_acts_def)
next
  case (Cons a as)
  show ?case
  proof (cases "in_select cx = 0")
    case False
    then have "in_select (cx_acts (a # as) cx) = in_select cx" by (rule cx_acts_taken)
    with False show ?thesis by (simp add: ctx_selected_def)
  next
    case True
    have "cx_acts (a # as) cx = cx_acts as (cx_act a cx)" by (simp add: cx_acts_def)
    with Cons True show ?thesis
      by (cases a) (auto simp: ctx_try_select_open ctx_selected_def selected_from_into)
  qed
qed

lemma cx_acts_waiting:
  "list_all act_ok as \<Longrightarrow> in_select cx = 0 \<Longrightarrow> in_select (cx_acts as cx) = 0 \<longleftrightarrow> first_select as = Waiting"
  using cx_acts_select [of as cx] by (metis ctx_selected_Waiting)

section \<open>wait_until\<close>

text \<open>
  Turn \<open>i\<close> of \<open>wait_until\<close> is the last one when an operation has been selected by then, or
  when ten turns have passed and the clock has reached the deadline. What is returned is
  the first selection, or \<open>Aborted\<close> when even the actions before the last exchange select
  nothing.
\<close>

definition seen :: "turn list \<Rightarrow> nat \<Rightarrow> selected" where
  "seen ts i = first_select (concat (map tn_before (take (Suc i) ts)))"

definition past_deadline :: "nat option \<Rightarrow> turn \<Rightarrow> bool" where
  "past_deadline deadline t = (case deadline of None \<Rightarrow> False | Some e \<Rightarrow> e \<le> tn_now t)"

definition gives_up :: "turn list \<Rightarrow> nat \<Rightarrow> nat option \<Rightarrow> nat \<Rightarrow> bool" where
  "gives_up ts counter deadline i \<longleftrightarrow> 10 \<le> counter + i \<and> past_deadline deadline (ts ! i)"

definition wait_result :: "turn list \<Rightarrow> nat \<Rightarrow> selected" where
  "wait_result ts i =
     (if seen ts i \<noteq> Waiting then seen ts i
      else if first_select (tn_late (ts ! i)) \<noteq> Waiting then first_select (tn_late (ts ! i))
      else Aborted)"

definition turns_ok :: "turn list \<Rightarrow> bool" where
  "turns_ok ts \<longleftrightarrow> (\<forall>t \<in> set ts. list_all act_ok (tn_before t @ tn_late t))"

lemma seen_simps:
  "seen (t # ts) 0 = first_select (tn_before t)"
  "first_select (tn_before t) = Waiting \<Longrightarrow> seen (t # ts) (Suc i) = seen ts i"
  by (simp_all add: seen_def first_select_append)

lemma wait_result_Suc:
  "first_select (tn_before t) = Waiting \<Longrightarrow> wait_result (t # ts) (Suc i) = wait_result ts i"
  by (simp add: wait_result_def seen_simps)

lemma ctx_try_select_aborts:
  assumes "list_all act_ok late" "in_select cx = 0" "ctx_try_select Aborted (cx_acts late cx) = (r, cx2)"
  shows "(case r of Inr _ \<Rightarrow> Aborted | Inl s \<Rightarrow> s)
      = (if first_select late \<noteq> Waiting then first_select late else Aborted)
    \<and> ctx_selected cx2 = (case r of Inr _ \<Rightarrow> Aborted | Inl s \<Rightarrow> s)"
proof (cases "first_select late = Waiting")
  case True
  with assms have "in_select (cx_acts late cx) = 0" by (simp add: cx_acts_waiting)
  with assms(3) True show ?thesis
    by (auto simp: ctx_try_select_open ctx_selected_def selected_from_def)
next
  case False
  with assms have "in_select (cx_acts late cx) \<noteq> 0" by (simp add: cx_acts_waiting)
  with assms(3) False cx_acts_select [OF assms(1), of cx] assms(2) show ?thesis
    by (auto simp: ctx_try_select_taken)
qed

lemma wait_until_loop_step:
  assumes "list_all act_ok (tn_before t)" "in_select cx = 0" "first_select (tn_before t) = Waiting"
    "\<not> gives_up (t # ts) counter deadline 0"
  shows "wait_until_loop (t # ts) counter deadline cx
    = wait_until_loop ts (if counter < 10 then counter + 1 else counter) deadline
        (cx_acts (tn_before t) cx)"
  using assms cx_acts_waiting [OF assms(1,2)]
  by (auto simp: gives_up_def past_deadline_def split: option.splits)

lemma gives_up_Suc:
  "gives_up (t # ts) counter deadline (Suc i)
     = gives_up ts (if counter < 10 then counter + 1 else counter) deadline i"
  by (auto simp: gives_up_def)

lemma wait_until_loop_last:
  assumes "list_all act_ok (tn_before t)" "list_all act_ok (tn_late t)" "in_select cx = 0"
    "first_select (tn_before t) \<noteq> Waiting \<or> gives_up (t # ts) counter deadline 0"
  shows "\<exists>cx'. wait_until_loop (t # ts) counter deadline cx = Done (wait_result (t # ts) 0, cx')
    \<and> ctx_selected cx' = wait_result (t # ts) 0"
proof (cases "first_select (tn_before t) = Waiting")
  case False
  with cx_acts_waiting [OF assms(1,3)] have "in_select (cx_acts (tn_before t) cx) \<noteq> 0" by simp
  with False cx_acts_select [OF assms(1), of cx] assms(3) show ?thesis
    by (simp add: wait_result_def seen_simps)
next
  case True
  let ?cx1 = "cx_acts (tn_before t) cx"
  have open1: "in_select ?cx1 = 0" using True assms(1,3) by (simp add: cx_acts_waiting)
  obtain r cx2 where r: "ctx_try_select Aborted (cx_acts (tn_late t) ?cx1) = (r, cx2)" by fastforce
  from True assms(4) obtain e where "deadline = Some e" "e \<le> tn_now t" "10 \<le> counter"
    by (auto simp: gives_up_def past_deadline_def split: option.splits)
  with r open1 True ctx_try_select_aborts [OF assms(2) open1 r] show ?thesis
    by (simp add: wait_result_def seen_simps)
qed

lemma wait_until_loop_correct:
  assumes "turns_ok ts" "in_select cx = 0"
  shows "(\<forall>i < length ts. (seen ts i \<noteq> Waiting \<or> gives_up ts counter deadline i)
        \<and> (\<forall>j < i. seen ts j = Waiting \<and> \<not> gives_up ts counter deadline j)
      \<longrightarrow> (\<exists>cx'. wait_until_loop ts counter deadline cx = Done (wait_result ts i, cx')
             \<and> ctx_selected cx' = wait_result ts i))
    \<and> ((\<forall>i < length ts. seen ts i = Waiting \<and> \<not> gives_up ts counter deadline i)
      \<longrightarrow> wait_until_loop ts counter deadline cx = Spin)"
  using assms
proof (induction ts arbitrary: counter cx)
  case Nil
  then show ?case by simp
next
  case (Cons t ts)
  from Cons.prems have ok: "list_all act_ok (tn_before t)" "list_all act_ok (tn_late t)" "turns_ok ts"
    by (auto simp: turns_ok_def)
  show ?case
  proof (cases "first_select (tn_before t) \<noteq> Waiting \<or> gives_up (t # ts) counter deadline 0")
    case True
    from wait_until_loop_last [OF ok(1,2) Cons.prems(2) True]
    show ?thesis
      using True by (auto simp del: wait_until_loop.simps simp: seen_simps All_less_Suc2)
  next
    case False
    then have w: "first_select (tn_before t) = Waiting" "\<not> gives_up (t # ts) counter deadline 0" by simp_all
    from ok(1) Cons.prems(2) w(1) have "in_select (cx_acts (tn_before t) cx) = 0"
      by (simp add: cx_acts_waiting)
    from Cons.IH [OF ok(3) this, of "if counter < 10 then counter + 1 else counter"]
      wait_until_loop_step [OF ok(1) Cons.prems(2) w]
    show ?thesis
      using w by (auto simp del: wait_until_loop.simps
          simp: All_less_Suc2 seen_simps gives_up_Suc wait_result_Suc)
  qed
qed

text \<open>
  C20. \<open>wait_until\<close> returns in the first turn in which an operation is selected, or, after
  ten turns of spinning, in the first one whose clock has reached the deadline; before
  that it goes on for ever. It returns the selection that came first, also one that slips
  in between the last load and the attempt to abort, and \<open>Aborted\<close> only when there was
  none; and the context is left selected for exactly what was returned.
\<close>

theorem wait_until_first_selection:
  assumes "turns_ok ts" and "in_select cx = selected_into Waiting"
  shows "(\<forall>i < length ts. (seen ts i \<noteq> Waiting \<or> gives_up ts 0 deadline i)
        \<and> (\<forall>j < i. seen ts j = Waiting \<and> \<not> gives_up ts 0 deadline j)
      \<longrightarrow> (\<exists>cx'. ctx_wait_until ts deadline cx = Done (wait_result ts i, cx')
             \<and> ctx_selected cx' = wait_result ts i))
    \<and> ((\<forall>i < length ts. seen ts i = Waiting \<and> \<not> gives_up ts 0 deadline i)
      \<longrightarrow> ctx_wait_until ts deadline cx = Spin)"
  using wait_until_loop_correct [OF assms(1), of cx 0 deadline] assms(2)
  by (simp add: ctx_wait_until_def)

definition late_turns :: "turn list" where
  "late_turns = replicate 10 \<lparr>tn_before = [], tn_now = 9, tn_late = []\<rparr>
     @ [\<lparr>tn_before = [StorePacket 8], tn_now = 9, tn_late = [TrySelect (Operation (Operation_Id 64))]\<rparr>]"

lemma first_select_none: "\<forall>a \<in> set as. \<exists>p. a = StorePacket p \<Longrightarrow> first_select as = Waiting"
  by (induction as) auto

lemma late_turns_facts:
  "turns_ok late_turns" "length late_turns = 11" "seen late_turns i = Waiting"
  "gives_up late_turns 0 (Some 9) 10" "j < 10 \<Longrightarrow> \<not> gives_up late_turns 0 (Some 9) j"
  "wait_result late_turns 10 = Operation (Operation_Id 64)"
proof -
  show "turns_ok late_turns" by (simp add: turns_ok_def late_turns_def)
  show "length late_turns = 11" by (simp add: late_turns_def)
  have late: "\<forall>t \<in> set late_turns. set (tn_before t) \<subseteq> {StorePacket 8}"
    by (simp add: late_turns_def)
  have "first_select (concat (map tn_before (take n late_turns))) = Waiting" for n
  proof (rule first_select_none)
    have "set (take n late_turns) \<subseteq> set late_turns" by (rule set_take_subset)
    then show "\<forall>a \<in> set (concat (map tn_before (take n late_turns))). \<exists>p. a = StorePacket p"
      using late by fastforce
  qed
  then show seen: "seen late_turns i = Waiting" for i by (simp add: seen_def)
  show "gives_up late_turns 0 (Some 9) 10"
    by (simp add: gives_up_def past_deadline_def late_turns_def nth_append)
  show "j < 10 \<Longrightarrow> \<not> gives_up late_turns 0 (Some 9) j" by (simp add: gives_up_def)
  show "wait_result late_turns 10 = Operation (Operation_Id 64)"
    by (simp add: wait_result_def seen) (simp add: late_turns_def nth_append)
qed

theorem wait_until_first_selection_witness:
  "\<exists>cx'. ctx_wait_until late_turns (Some 9) (context_new 3) = Done (Operation (Operation_Id 64), cx')
     \<and> ctx_selected cx' = Operation (Operation_Id 64)"
proof -
  have "in_select (context_new 3) = selected_into Waiting" by simp
  from conjunct1 [OF wait_until_first_selection [OF late_turns_facts(1) this, of "Some 9"],
      THEN spec, of 10] show ?thesis
    using late_turns_facts(5) by (simp add: late_turns_facts(2-4,6))
qed

section \<open>The context of a thread\<close>

text \<open>
  \<open>Context::with\<close> gives a closure the running thread's cached context, reset, or a new one
  when the cached one is in use (a nested call) or the thread is ending. Contexts are
  shared, so they live in a store; \<open>cs_cell t\<close> is the thread-local \<open>CONTEXT\<close> of thread
  \<open>t\<close>, whose initial value is computed at its first access, and \<open>cs_unparked\<close> records
  the threads that were unparked, in order. A closure is a function on
  the store; when it panics the store is gone with the \<open>outcome\<close>.
\<close>

datatype tls = TlsUninit | TlsLive "nat option" | TlsDestroyed

record ctx_store =
  cs_mem :: "nat \<Rightarrow> inner option"
  cs_next :: nat
  cs_cell :: "nat \<Rightarrow> tls"
  cs_unparked :: "nat list"

definition cs_alloc :: "nat \<Rightarrow> ctx_store \<Rightarrow> nat \<times> ctx_store" where
  "cs_alloc t st =
     (cs_next st, st\<lparr>cs_mem := (cs_mem st)(cs_next st := Some (context_new t)), cs_next := Suc (cs_next st)\<rparr>)"

definition ctx_unpark :: "inner \<Rightarrow> ctx_store \<Rightarrow> ctx_store" where
  "ctx_unpark cx st = st\<lparr>cs_unparked := cs_unparked st @ [in_thread cx]\<rparr>"

definition cs_set_cell :: "nat \<Rightarrow> tls \<Rightarrow> ctx_store \<Rightarrow> ctx_store" where
  "cs_set_cell t v st = st\<lparr>cs_cell := (cs_cell st)(t := v)\<rparr>"

definition with_cached ::
    "nat \<Rightarrow> nat \<Rightarrow> (nat \<Rightarrow> ctx_store \<Rightarrow> ('r \<times> ctx_store) outcome) \<Rightarrow> ctx_store
     \<Rightarrow> ('r \<times> ctx_store) outcome" where
  "with_cached t c f st =
     (let st1 = cs_set_cell t (TlsLive None) st;
          st2 = st1\<lparr>cs_mem := (cs_mem st1)(c := map_option ctx_reset (cs_mem st1 c))\<rparr> in
      obind (f c st2) (\<lambda>(res, st3). Done (res, cs_set_cell t (TlsLive (Some c)) st3)))"

definition context_with ::
    "nat \<Rightarrow> (nat \<Rightarrow> ctx_store \<Rightarrow> ('r \<times> ctx_store) outcome) \<Rightarrow> ctx_store
     \<Rightarrow> ('r \<times> ctx_store) outcome" where
  "context_with t f st =
     (case cs_cell st t of
        TlsUninit \<Rightarrow> (let (c, st1) = cs_alloc t st in with_cached t c f st1)
      | TlsLive None \<Rightarrow> (let (c, st1) = cs_alloc t st in f c st1)
      | TlsLive (Some c) \<Rightarrow> with_cached t c f st
      | TlsDestroyed \<Rightarrow> (let (c, st1) = cs_alloc t st in f c st1))"

text \<open>The cached contexts exist and belong to their threads.\<close>

definition store_ok :: "ctx_store \<Rightarrow> bool" where
  "store_ok st \<longleftrightarrow>
     (\<forall>c. c \<ge> cs_next st \<longrightarrow> cs_mem st c = None) \<and>
     (\<forall>t c. cs_cell st t = TlsLive (Some c) \<longrightarrow> (\<exists>cx. cs_mem st c = Some cx \<and> in_thread cx = t))"

lemma store_ok_less: "store_ok st \<Longrightarrow> cs_mem st c = Some cx \<Longrightarrow> c < cs_next st"
  unfolding store_ok_def by (metis not_le option.distinct(1))

lemma store_okD:
  "store_ok st \<Longrightarrow> cs_cell st t = TlsLive (Some c) \<Longrightarrow> \<exists>cx. cs_mem st c = Some cx \<and> in_thread cx = t"
  by (simp add: store_ok_def)

lemma cs_alloc_ok: "store_ok st \<Longrightarrow> cs_alloc t st = (c, st1) \<Longrightarrow>
    store_ok st1 \<and> cs_mem st1 c = Some (context_new t) \<and> cs_mem st c = None
    \<and> (\<forall>u. cs_cell st1 u \<noteq> TlsLive (Some c)) \<and> cs_cell st1 = cs_cell st"
  by (fastforce simp: cs_alloc_def store_ok_def)

lemma with_cached_ok:
  assumes "store_ok st" "cs_mem st c = Some cx" "in_thread cx = t"
  obtains st2 where "with_cached t c f st
      = obind (f c st2) (\<lambda>(res, st3). Done (res, cs_set_cell t (TlsLive (Some c)) st3))"
    "store_ok st2" "cs_mem st2 c = Some (context_new t)" "\<forall>u. cs_cell st2 u \<noteq> TlsLive (Some c)"
    "cs_cell st2 t = TlsLive None"
proof -
  let ?st2 = "(cs_set_cell t (TlsLive None) st)
    \<lparr>cs_mem := (cs_mem st)(c := Some (context_new t))\<rparr>"
  have "\<forall>d. d \<ge> cs_next st \<longrightarrow> cs_mem st d = None" using assms(1) by (simp add: store_ok_def)
  moreover have "c < cs_next st" using assms store_ok_less by blast
  moreover have "\<exists>cx. (if d = c then Some (context_new t) else cs_mem st d) = Some cx \<and> in_thread cx = u"
    if "u \<noteq> t" "cs_cell st u = TlsLive (Some d)" for u d
    using store_okD [OF assms(1) that(2)] assms(2,3) that(1) by auto
  ultimately have "store_ok ?st2" by (simp add: store_ok_def cs_set_cell_def)
  moreover have "\<forall>u. cs_cell ?st2 u \<noteq> TlsLive (Some c)"
    using assms(2,3) by (auto simp: cs_set_cell_def dest!: store_okD [OF assms(1)])
  ultimately show thesis
    using assms by (intro that [of ?st2]) (simp_all add: with_cached_def cs_set_cell_def ctx_reset_new)
qed

text \<open>
  The parts of \<open>with\<close> before and after the call of the closure, for a closure during
  which other threads run.
\<close>

definition ctx_enter :: "nat \<Rightarrow> ctx_store \<Rightarrow> nat \<times> bool \<times> ctx_store" where
  "ctx_enter t st =
     (let cached = (\<lambda>(c, st1).
            (let st2 = cs_set_cell t (TlsLive None) st1 in
             (c, True, st2\<lparr>cs_mem := (cs_mem st2)(c := map_option ctx_reset (cs_mem st2 c))\<rparr>)));
          fresh = (\<lambda>(c, st1). (c, False, st1)) in
      case cs_cell st t of
        TlsUninit \<Rightarrow> cached (cs_alloc t st)
      | TlsLive None \<Rightarrow> fresh (cs_alloc t st)
      | TlsLive (Some c) \<Rightarrow> cached (c, st)
      | TlsDestroyed \<Rightarrow> fresh (cs_alloc t st))"

definition ctx_leave :: "nat \<Rightarrow> nat \<Rightarrow> bool \<Rightarrow> ctx_store \<Rightarrow> ctx_store" where
  "ctx_leave t c cached st = (if cached then cs_set_cell t (TlsLive (Some c)) st else st)"

lemma context_with_split:
  "context_with t f st =
     (let (c, cached, st1) = ctx_enter t st in
      obind (f c st1) (\<lambda>(res, st2). Done (res, ctx_leave t c cached st2)))"
proof -
  have id: "obind x Done = x" for x :: "'b outcome"
    by (cases x) auto
  show ?thesis
    by (auto simp: context_with_def ctx_enter_def ctx_leave_def with_cached_def Let_def id
        split: tls.splits option.splits prod.splits)
qed

lemma ctx_enter_ok:
  assumes "store_ok st" "ctx_enter t st = (c, cached, st1)"
  shows "store_ok st1 \<and> cs_mem st1 = (cs_mem st)(c := Some (context_new t))
    \<and> (\<forall>cx. cs_mem st c = Some cx \<longrightarrow> in_thread cx = t)"
proof -
  have fresh: "cs_mem st (cs_next st) = None" using assms(1) by (simp add: store_ok_def)
  have cells: "\<forall>u. cs_cell st u \<noteq> TlsLive (Some (cs_next st))"
    using store_okD [OF assms(1)] fresh by fastforce
  show ?thesis
  proof (cases "\<exists>d. cs_cell st t = TlsLive (Some d)")
    case True
    then obtain d cx where d: "cs_cell st t = TlsLive (Some d)" "cs_mem st d = Some cx" "in_thread cx = t"
      using store_okD [OF assms(1)] by blast
    with assms(2) have eq: "c = d"
      "st1 = (cs_set_cell t (TlsLive None) st)\<lparr>cs_mem := (cs_mem st)(d := Some (context_new t))\<rparr>"
      by (auto simp: ctx_enter_def Let_def cs_set_cell_def ctx_reset_new)
    have "u = t" if "cs_cell st u = TlsLive (Some d)" for u
      using store_okD [OF assms(1) that] d by auto
    then have "\<exists>cx. cs_mem st1 e = Some cx \<and> in_thread cx = u" if "cs_cell st1 u = TlsLive (Some e)" for u e
      using that store_okD [OF assms(1), of u e] by (auto simp: eq cs_set_cell_def split: if_splits)
    moreover have "\<forall>e \<ge> cs_next st1. cs_mem st1 e = None"
      using assms(1) store_ok_less [OF assms(1) d(2)] by (auto simp: eq cs_set_cell_def store_ok_def)
    ultimately have "store_ok st1" by (simp add: store_ok_def)
    with d eq show ?thesis by (simp add: cs_set_cell_def)
  next
    case False
    then have new: "c = cs_next st" "cs_mem st1 = (cs_mem st)(c := Some (context_new t))"
      "cs_next st1 = Suc (cs_next st)"
      "cs_cell st1 = cs_cell st \<or> cs_cell st1 = (cs_cell st)(t := TlsLive None)"
      using assms(2)
      by (auto simp: ctx_enter_def Let_def cs_set_cell_def cs_alloc_def ctx_reset_new split: tls.splits option.splits)
    then have "store_ok st1"
      using assms(1) cells by (auto simp: store_ok_def split: if_splits)
    with new fresh show ?thesis by simp
  qed
qed

lemma ctx_leave_ok:
  assumes "store_ok st" "cs_mem st c = Some cx" "in_thread cx = t"
  shows "store_ok (ctx_leave t c cached st)" "cs_mem (ctx_leave t c cached st) = cs_mem st"
  using assms by (auto simp: ctx_leave_def cs_set_cell_def store_ok_def)

text \<open>
  C21. \<open>Context::with\<close> never shares a context: the closure gets a context in the state of a
  new one (waiting, no packet), of the running thread, that no thread has cached, and
  that is either a new one or the one this thread had cached; so nested calls get
  different contexts. Afterwards the cached context is back in its cell.
\<close>

theorem context_with_exclusive:
  assumes "store_ok st"
  shows "\<exists>c st1. store_ok st1 \<and> cs_mem st1 c = Some (context_new t)
    \<and> (\<forall>u. cs_cell st1 u \<noteq> TlsLive (Some c))
    \<and> (cs_mem st c = None \<or> cs_cell st t = TlsLive (Some c))
    \<and> context_with t f st =
        (if cs_cell st t = TlsLive None \<or> cs_cell st t = TlsDestroyed then f c st1
         else obind (f c st1) (\<lambda>(res, st2). Done (res, cs_set_cell t (TlsLive (Some c)) st2)))"
proof (cases "cs_cell st t")
  case TlsUninit
  obtain c st0 where a: "cs_alloc t st = (c, st0)" by fastforce
  note ok = cs_alloc_ok [OF assms a]
  have "in_thread (context_new t) = t" by simp
  from with_cached_ok [OF conjunct1 [OF ok] conjunct1 [OF conjunct2 [OF ok]] this, of f]
  obtain st1 where "with_cached t c f st0
      = obind (f c st1) (\<lambda>(res, st3). Done (res, cs_set_cell t (TlsLive (Some c)) st3))"
    "store_ok st1" "cs_mem st1 c = Some (context_new t)" "\<forall>u. cs_cell st1 u \<noteq> TlsLive (Some c)"
    by metis
  with TlsUninit a ok show ?thesis
    by (intro exI [of _ c] exI [of _ st1]) (simp add: context_with_def)
next
  case (TlsLive v)
  show ?thesis
  proof (cases v)
    case None
    obtain c st0 where a: "cs_alloc t st = (c, st0)" by fastforce
    from cs_alloc_ok [OF assms a] have "store_ok st0" "cs_mem st0 c = Some (context_new t)"
      "cs_mem st c = None" "\<forall>u. cs_cell st0 u \<noteq> TlsLive (Some c)" by blast+
    with TlsLive None a show ?thesis
      by (intro exI [of _ c] exI [of _ st0]) (simp add: context_with_def)
  next
    case (Some c)
    with assms TlsLive obtain cx where "cs_mem st c = Some cx" "in_thread cx = t"
      using store_okD by blast
    from with_cached_ok [OF assms this, of f] obtain st1 where "with_cached t c f st
        = obind (f c st1) (\<lambda>(res, st3). Done (res, cs_set_cell t (TlsLive (Some c)) st3))"
      "store_ok st1" "cs_mem st1 c = Some (context_new t)" "\<forall>u. cs_cell st1 u \<noteq> TlsLive (Some c)"
      by metis
    with TlsLive Some show ?thesis
      by (intro exI [of _ c] exI [of _ st1]) (simp add: context_with_def)
  qed
next
  case TlsDestroyed
  obtain c st0 where a: "cs_alloc t st = (c, st0)" by fastforce
  from cs_alloc_ok [OF assms a] have "store_ok st0" "cs_mem st0 c = Some (context_new t)"
    "cs_mem st c = None" "\<forall>u. cs_cell st0 u \<noteq> TlsLive (Some c)" by blast+
  with TlsDestroyed a show ?thesis
    by (intro exI [of _ c] exI [of _ st0]) (simp add: context_with_def)
qed

theorem context_with_exclusive_witness:
  "\<exists>c st1. store_ok st1 \<and> cs_mem st1 c = Some (context_new 7)
    \<and> (\<forall>u. cs_cell st1 u \<noteq> TlsLive (Some c))
    \<and> context_with 7 (\<lambda>c st. Done (c, st)) \<lparr>cs_mem = \<lambda>_. None, cs_next = 0, cs_cell = \<lambda>_. TlsLive None, cs_unparked = []\<rparr>
        = Done (c, st1)"
proof -
  have "store_ok \<lparr>cs_mem = \<lambda>_. None, cs_next = 0, cs_cell = \<lambda>_. TlsLive None, cs_unparked = []\<rparr>"
    by (simp add: store_ok_def)
  from context_with_exclusive [OF this, of 7 "\<lambda>c st. Done (c, st)"] show ?thesis by auto
qed

end
