(* ===== verification/Thread_Waker.thy ===== *)
theory Thread_Waker
  imports Thread_Context
begin

text \<open>
  \<open>Waker\<close> of \<open>src/waker.rs\<close>: the queue of the threads that are blocked on one side of a
  zero-capacity channel. An entry's context is shared with the thread that waits, so it
  is a reference into the store of contexts; \<open>me\<close> is the thread that makes the call.
\<close>

record entry =
  e_oper :: operation
  e_packet :: usize
  e_cx :: nat

type_synonym waker = "entry list"

definition waker_new :: waker where
  "waker_new = []"

definition register_with_packet :: "operation \<Rightarrow> usize \<Rightarrow> nat \<Rightarrow> waker \<Rightarrow> waker" where
  "register_with_packet oper packet c w = w @ [\<lparr>e_oper = oper, e_packet = packet, e_cx = c\<rparr>]"

definition waker_register :: "operation \<Rightarrow> nat \<Rightarrow> waker \<Rightarrow> waker" where
  "waker_register oper c w = register_with_packet oper 0 c w"

text \<open>\<open>Vec::remove\<close>.\<close>

definition remove_at :: "nat \<Rightarrow> 'a list \<Rightarrow> 'a list" where
  "remove_at i xs = take i xs @ drop (Suc i) xs"

primrec unregister_loop :: "operation \<Rightarrow> nat list \<Rightarrow> waker \<Rightarrow> entry option \<times> waker" where
  "unregister_loop oper [] w = (None, w)"
| "unregister_loop oper (i # is) w =
     (if e_oper (w ! i) = oper then (Some (w ! i), remove_at i w) else unregister_loop oper is w)"

definition unregister :: "operation \<Rightarrow> waker \<Rightarrow> entry option \<times> waker" where
  "unregister oper w = unregister_loop oper [0..<length w] w"

primrec waker_try_select_loop ::
    "nat \<Rightarrow> nat list \<Rightarrow> waker \<Rightarrow> ctx_store \<Rightarrow> (entry option \<times> waker \<times> ctx_store) outcome" where
  "waker_try_select_loop me [] w st = Done (None, w, st)"
| "waker_try_select_loop me (i # is) w st =
     (let e = w ! i in
      case cs_mem st (e_cx e) of
        None \<Rightarrow> Fault
      | Some cx \<Rightarrow>
          if in_thread cx \<noteq> me then
            (case ctx_try_select (Operation (e_oper e)) cx of
               (Inr _, cx1) \<Rightarrow>
                 let cx2 = ctx_store_packet (e_packet e) cx1;
                     st1 = ctx_unpark cx2 (st\<lparr>cs_mem := (cs_mem st)(e_cx e := Some cx2)\<rparr>) in
                 Done (Some e, remove_at i w, st1)
             | (Inl _, cx1) \<Rightarrow> waker_try_select_loop me is w st)
          else waker_try_select_loop me is w st)"

definition waker_try_select ::
    "nat \<Rightarrow> waker \<Rightarrow> ctx_store \<Rightarrow> (entry option \<times> waker \<times> ctx_store) outcome" where
  "waker_try_select me w st =
     (if w \<noteq> [] then waker_try_select_loop me [0..<length w] w st else Done (None, w, st))"

primrec can_select_loop :: "nat \<Rightarrow> waker \<Rightarrow> ctx_store \<Rightarrow> bool outcome" where
  "can_select_loop me [] st = Done False"
| "can_select_loop me (e # es) st =
     (case cs_mem st (e_cx e) of
        None \<Rightarrow> Fault
      | Some cx \<Rightarrow>
          if in_thread cx \<noteq> me \<and> ctx_selected cx = Waiting then Done True
          else can_select_loop me es st)"

definition waker_can_select :: "nat \<Rightarrow> waker \<Rightarrow> ctx_store \<Rightarrow> bool outcome" where
  "waker_can_select me w st = (if w = [] then Done False else can_select_loop me w st)"

primrec waker_disconnect :: "waker \<Rightarrow> ctx_store \<Rightarrow> ctx_store outcome" where
  "waker_disconnect [] st = Done st"
| "waker_disconnect (e # es) st =
     (case cs_mem st (e_cx e) of
        None \<Rightarrow> Fault
      | Some cx \<Rightarrow>
          (case ctx_try_select Disconnected cx of
             (Inr _, cx1) \<Rightarrow>
               waker_disconnect es (ctx_unpark cx1 (st\<lparr>cs_mem := (cs_mem st)(e_cx e := Some cx1)\<rparr>))
           | (Inl _, cx1) \<Rightarrow> waker_disconnect es st))"

text \<open>\<open>debug_assert_eq!\<close> when a waker is dropped; \<open>dbg\<close> says whether the build checks it.\<close>

definition waker_drop :: "bool \<Rightarrow> waker \<Rightarrow> unit outcome" where
  "waker_drop dbg w = (if dbg \<and> length w \<noteq> 0 then Panic else Done ())"

section \<open>Selecting\<close>

definition entries_ok :: "waker \<Rightarrow> ctx_store \<Rightarrow> bool" where
  "entries_ok w st \<longleftrightarrow> (\<forall>e \<in> set w. cs_mem st (e_cx e) \<noteq> None)"

text \<open>An entry whose thread still waits, and is not \<open>me\<close>.\<close>

definition selectable :: "nat \<Rightarrow> ctx_store \<Rightarrow> entry \<Rightarrow> bool" where
  "selectable me st e \<longleftrightarrow> (case cs_mem st (e_cx e) of None \<Rightarrow> False
     | Some cx \<Rightarrow> in_thread cx \<noteq> me \<and> in_select cx = 0)"

text \<open>What selecting an entry does to the store.\<close>

definition select_entry :: "entry \<Rightarrow> ctx_store \<Rightarrow> ctx_store" where
  "select_entry e st =
     (case cs_mem st (e_cx e) of None \<Rightarrow> st
      | Some cx \<Rightarrow> st\<lparr>cs_mem := (cs_mem st)(e_cx e :=
            Some (ctx_store_packet (e_packet e) (cx\<lparr>in_select := selected_into (Operation (e_oper e))\<rparr>))),
          cs_unparked := cs_unparked st @ [in_thread cx]\<rparr>)"

lemma waker_try_select_loop_skip:
  assumes "entries_ok w st" "\<forall>i \<in> set is. i < length w \<and> \<not> selectable me st (w ! i)"
  shows "waker_try_select_loop me (is @ js) w st = waker_try_select_loop me js w st"
  using assms(2)
proof (induction "is")
  case Nil
  then show ?case by simp
next
  case (Cons i "is")
  then have "w ! i \<in> set w" by simp
  with assms(1) obtain cx where "cs_mem st (e_cx (w ! i)) = Some cx"
    unfolding entries_ok_def by blast
  with Cons show ?case
    by (auto simp: Let_def selectable_def ctx_try_select_taken)
qed

lemma waker_try_select_none:
  assumes "entries_ok w st" "\<forall>e \<in> set w. \<not> selectable me st e"
  shows "waker_try_select me w st = Done (None, w, st)"
  using waker_try_select_loop_skip [OF assms(1), of "[0..<length w]" me "[]"] assms(2)
  by (simp add: waker_try_select_def)

lemma waker_try_select_some:
  assumes "entries_ok (pre @ e # post) st" "selectable me st e" "\<forall>e' \<in> set pre. \<not> selectable me st e'"
  shows "waker_try_select me (pre @ e # post) st = Done (Some e, pre @ post, select_entry e st)"
proof -
  let ?w = "pre @ e # post" and ?n = "length pre"
  have "?n < length ?w" by simp
  then have idx: "[0..<length ?w] = [0..<?n] @ ?n # [Suc ?n..<length ?w]"
    by (rule upt_split)
  have "\<forall>i \<in> set [0..<?n]. i < length ?w \<and> \<not> selectable me st (?w ! i)"
    using assms(3) by (simp add: nth_append)
  from waker_try_select_loop_skip [OF assms(1) this, of "?n # [Suc ?n..<length ?w]"]
  have "waker_try_select me ?w st = waker_try_select_loop me (?n # [Suc ?n..<length ?w]) ?w st"
    unfolding waker_try_select_def idx by simp
  also have "\<dots> = Done (Some e, pre @ post, select_entry e st)"
    using assms(2)
    by (auto simp: selectable_def select_entry_def Let_def ctx_try_select_open ctx_unpark_def
        remove_at_def split: option.splits)
  finally show ?thesis .
qed

lemma waker_can_select_iff:
  "entries_ok w st \<Longrightarrow> waker_can_select me w st = Done (\<exists>e \<in> set w. selectable me st e)"
proof (induction w)
  case Nil
  then show ?case by (simp add: waker_can_select_def)
next
  case (Cons e es)
  from Cons.prems have "entries_ok es st" by (simp add: entries_ok_def)
  with Cons.IH have "can_select_loop me es st = Done (\<exists>e \<in> set es. selectable me st e)"
    by (cases es) (simp_all add: waker_can_select_def)
  with Cons.prems show ?case
    by (auto simp: waker_can_select_def entries_ok_def selectable_def)
qed

text \<open>
  C18. \<open>try_select\<close> takes the longest-waiting entry of another thread whose operation is
  still undecided, removes it and no other, selects its operation, hands over its packet
  and unparks its thread; when there is no such entry nothing changes. And \<open>can_select\<close>
  says beforehand which of the two happens.
\<close>

theorem waker_selects_oldest:
  assumes "entries_ok w st"
  shows "case find (selectable me st) w of
      None \<Rightarrow> waker_try_select me w st = Done (None, w, st) \<and> waker_can_select me w st = Done False
    | Some e \<Rightarrow> \<exists>pre post. w = pre @ e # post \<and> (\<forall>e' \<in> set pre. \<not> selectable me st e')
        \<and> waker_try_select me w st = Done (Some e, pre @ post, select_entry e st)
        \<and> waker_can_select me w st = Done True"
proof (cases "find (selectable me st) w")
  case None
  then have "\<forall>e \<in> set w. \<not> selectable me st e" by (simp add: find_None_iff)
  with None waker_try_select_none [OF assms this] waker_can_select_iff [OF assms, of me]
  show ?thesis by simp
next
  case (Some e)
  obtain pre post where w: "w = pre @ e # post" "\<forall>e' \<in> set pre. \<not> selectable me st e'"
    and e: "selectable me st e"
    using find_split [OF Some] by blast
  have "waker_can_select me w st = Done True"
    using waker_can_select_iff [OF assms, of me] w e by auto
  with Some w waker_try_select_some [OF assms [unfolded w(1)] e w(2)] show ?thesis by auto
qed

definition ex_store :: ctx_store where
  "ex_store = \<lparr>cs_mem = [0 \<mapsto> context_new 0, 1 \<mapsto> context_new 1, 2 \<mapsto> context_new 2],
     cs_next = 3, cs_cell = \<lambda>_. TlsLive None, cs_unparked = []\<rparr>"

definition ex_waker :: waker where
  "ex_waker = fold (\<lambda>i. register_with_packet (Operation_Id (64 + of_nat i)) (128 + of_nat i) i) [0, 1, 2] waker_new"

theorem waker_selects_oldest_witness:
  "\<exists>st. waker_try_select 0 ex_waker ex_store
      = Done (Some \<lparr>e_oper = Operation_Id 65, e_packet = 129, e_cx = 1\<rparr>, remove_at 1 ex_waker, st)
    \<and> cs_unparked st = [1]"
proof -
  have w: "ex_waker = [\<lparr>e_oper = Operation_Id 64, e_packet = 128, e_cx = 0\<rparr>,
      \<lparr>e_oper = Operation_Id 65, e_packet = 129, e_cx = 1\<rparr>, \<lparr>e_oper = Operation_Id 66, e_packet = 130, e_cx = 2\<rparr>]"
    by (simp add: ex_waker_def register_with_packet_def waker_new_def)
  have ok: "entries_ok ex_waker ex_store" by (simp add: entries_ok_def w ex_store_def)
  have "find (selectable 0 ex_store) ex_waker = Some \<lparr>e_oper = Operation_Id 65, e_packet = 129, e_cx = 1\<rparr>"
    by (simp add: w selectable_def ex_store_def)
  with waker_selects_oldest [OF ok, of 0] obtain pre post where
    "ex_waker = pre @ \<lparr>e_oper = Operation_Id 65, e_packet = 129, e_cx = 1\<rparr> # post"
    "\<forall>e' \<in> set pre. \<not> selectable 0 ex_store e'"
    "waker_try_select 0 ex_waker ex_store = Done (Some \<lparr>e_oper = Operation_Id 65, e_packet = 129, e_cx = 1\<rparr>,
       pre @ post, select_entry \<lparr>e_oper = Operation_Id 65, e_packet = 129, e_cx = 1\<rparr> ex_store)" by auto
  moreover from this(1) have "pre @ post = remove_at 1 ex_waker"
    by (auto simp: w remove_at_def Cons_eq_append_conv)
  moreover have "cs_unparked (select_entry \<lparr>e_oper = Operation_Id 65, e_packet = 129, e_cx = 1\<rparr> ex_store) = [1]"
    by (simp add: select_entry_def ex_store_def)
  ultimately show ?thesis by auto
qed

section \<open>Registering and unregistering\<close>

lemma unregister_loop_skip:
  "\<forall>i \<in> set is. e_oper (w ! i) \<noteq> oper \<Longrightarrow> unregister_loop oper (is @ js) w = unregister_loop oper js w"
  by (induction "is") auto

lemma unregister_some:
  assumes "e_oper e = oper" "\<forall>e' \<in> set pre. e_oper e' \<noteq> oper"
  shows "unregister oper (pre @ e # post) = (Some e, pre @ post)"
proof -
  let ?w = "pre @ e # post" and ?n = "length pre"
  have "?n < length ?w" by simp
  then have idx: "[0..<length ?w] = [0..<?n] @ ?n # [Suc ?n..<length ?w]" by (rule upt_split)
  have "\<forall>i \<in> set [0..<?n]. e_oper (?w ! i) \<noteq> oper" using assms(2) by (simp add: nth_append)
  from unregister_loop_skip [OF this, of "?n # [Suc ?n..<length ?w]"] assms(1) show ?thesis
    unfolding unregister_def idx by (simp add: remove_at_def)
qed

lemma unregister_none:
  "\<forall>e \<in> set w. e_oper e \<noteq> oper \<Longrightarrow> unregister oper w = (None, w)"
  using unregister_loop_skip [of "[0..<length w]" w oper "[]"] by (simp add: unregister_def)

section \<open>Disconnecting\<close>

definition disconnect_ctx :: "inner \<Rightarrow> inner" where
  "disconnect_ctx cx = (if in_select cx = 0 then cx\<lparr>in_select := selected_into Disconnected\<rparr> else cx)"

text \<open>The threads that are told, in the order of their entries.\<close>

primrec told :: "waker \<Rightarrow> ctx_store \<Rightarrow> nat list" where
  "told [] st = []"
| "told (e # es) st =
     (case cs_mem st (e_cx e) of None \<Rightarrow> []
      | Some cx \<Rightarrow>
          if in_select cx = 0
          then in_thread cx # told es (st\<lparr>cs_mem := (cs_mem st)(e_cx e := Some (disconnect_ctx cx))\<rparr>)
          else told es st)"

lemma told_mem: "cs_mem st = cs_mem st' \<Longrightarrow> told w st = told w st'"
proof (induction w arbitrary: st st')
  case Nil
  then show ?case by simp
next
  case (Cons e es)
  have "told es (st\<lparr>cs_mem := m\<rparr>) = told es (st'\<lparr>cs_mem := m\<rparr>)" for m
    by (rule Cons.IH) simp
  with Cons.prems Cons.IH [OF Cons.prems] show ?case by (simp split: option.splits)
qed

lemma disconnect_ctx_simps [simp]:
  "disconnect_ctx (disconnect_ctx cx) = disconnect_ctx cx" "in_thread (disconnect_ctx cx) = in_thread cx"
  "in_select (disconnect_ctx cx) \<noteq> 0"
  by (auto simp: disconnect_ctx_def)

lemma waker_disconnect_spec:
  assumes "entries_ok w st"
  shows "\<exists>st'. waker_disconnect w st = Done st' \<and> cs_next st' = cs_next st \<and> cs_cell st' = cs_cell st
    \<and> cs_unparked st' = cs_unparked st @ told w st
    \<and> (\<forall>c. cs_mem st' c = (if c \<in> e_cx ` set w then map_option disconnect_ctx (cs_mem st c) else cs_mem st c))"
  using assms
proof (induction w arbitrary: st)
  case Nil
  then show ?case by simp
next
  case (Cons e es)
  then obtain cx where cx: "cs_mem st (e_cx e) = Some cx" by (auto simp: entries_ok_def)
  show ?case
  proof (cases "in_select cx = 0")
    case True
    let ?st1 = "ctx_unpark (disconnect_ctx cx) (st\<lparr>cs_mem := (cs_mem st)(e_cx e := Some (disconnect_ctx cx))\<rparr>)"
    have "entries_ok es ?st1" using Cons.prems by (simp add: entries_ok_def ctx_unpark_def)
    from Cons.IH [OF this] obtain st' where st': "waker_disconnect es ?st1 = Done st'"
      "cs_next st' = cs_next ?st1" "cs_cell st' = cs_cell ?st1" "cs_unparked st' = cs_unparked ?st1 @ told es ?st1"
      "\<forall>c. cs_mem st' c = (if c \<in> e_cx ` set es then map_option disconnect_ctx (cs_mem ?st1 c) else cs_mem ?st1 c)"
      by blast
    have "waker_disconnect (e # es) st = Done st'"
      using cx True st'(1) by (simp add: ctx_try_select_open disconnect_ctx_def)
    moreover have "told es ?st1 = told es (st\<lparr>cs_mem := (cs_mem st)(e_cx e := Some (disconnect_ctx cx))\<rparr>)"
      by (rule told_mem) (simp add: ctx_unpark_def)
    ultimately show ?thesis using st' cx True by (auto simp: ctx_unpark_def)
  next
    case False
    have "entries_ok es st" using Cons.prems by (simp add: entries_ok_def)
    moreover have "disconnect_ctx cx = cx" using False by (simp add: disconnect_ctx_def)
    ultimately show ?thesis using Cons.IH [of st] cx False
      by (auto simp: ctx_try_select_taken)
  qed
qed

text \<open>
  C19. \<open>disconnect\<close> decides every undecided operation of the queue for \<open>Disconnected\<close> and
  leaves every decided one as it was, wherever it is queued; it changes no context outside
  the queue; it unparks the thread of an undecided context exactly once, even when the
  context is queued twice. After it no entry can be selected any more, by any thread.
\<close>

theorem waker_disconnect_all:
  assumes "entries_ok w st"
  shows "\<exists>st'. waker_disconnect w st = Done st'
    \<and> (\<forall>c. cs_mem st' c = (if c \<in> e_cx ` set w then map_option disconnect_ctx (cs_mem st c) else cs_mem st c))
    \<and> cs_unparked st' = cs_unparked st @ told w st
    \<and> (\<forall>me. waker_try_select me w st' = Done (None, w, st'))"
proof -
  obtain st' where st': "waker_disconnect w st = Done st'" "cs_unparked st' = cs_unparked st @ told w st"
    "\<forall>c. cs_mem st' c = (if c \<in> e_cx ` set w then map_option disconnect_ctx (cs_mem st c) else cs_mem st c)"
    using waker_disconnect_spec [OF assms] by blast
  have "entries_ok w st'" using assms st'(3) by (auto simp: entries_ok_def)
  moreover have "\<forall>e \<in> set w. \<not> selectable me st' e" for me
    using st'(3) by (auto simp: selectable_def split: option.splits)
  ultimately show ?thesis using st' waker_try_select_none by blast
qed

theorem waker_disconnect_all_witness:
  "\<exists>st'. waker_disconnect ex_waker ex_store = Done st' \<and> cs_unparked st' = [0, 1, 2]"
proof -
  have "entries_ok ex_waker ex_store"
    by (simp add: entries_ok_def ex_waker_def register_with_packet_def waker_new_def ex_store_def)
  from waker_disconnect_all [OF this] show ?thesis
    by (auto simp: ex_waker_def register_with_packet_def waker_new_def ex_store_def)
qed

end
