(* ===== verification/Array_Pos.thy ===== *)
theory Array_Pos
  imports Prelude
begin

text \<open>
  The stamps of the bounded channel. A position in the channel is a natural number \<open>k\<close>:
  the \<open>k\<close>-th message ever sent. The code stores it as one word made of the index
  \<open>k mod cap\<close> in the low \<open>p\<close> bits, a mark bit (bit \<open>p\<close>) and the lap \<open>k div cap\<close> above
  it, and the lap wraps around with the word. \<open>enc\<close> is that word with the mark bit clear;
  the lemmas say what the masks of \<open>src/array.rs\<close> compute on it.
\<close>

unbundle bit_operations_syntax

definition pos :: "nat \<Rightarrow> nat \<Rightarrow> nat \<Rightarrow> nat" where
  "pos p cap k = (k div cap) * 2 ^ Suc p + k mod cap"

definition enc :: "nat \<Rightarrow> nat \<Rightarrow> nat \<Rightarrow> usize" where
  "enc p cap k = of_nat (pos p cap k)"

text \<open>\<open>geom p cap\<close>: the shape of a channel's constants, \<open>mark_bit = 2 ^ p\<close>.\<close>

definition geom :: "nat \<Rightarrow> nat \<Rightarrow> bool" where
  "geom p cap \<longleftrightarrow> 0 < cap \<and> cap < 2 ^ p \<and> p \<le> 62"

lemma geomD: "geom p cap \<Longrightarrow> 0 < cap" "geom p cap \<Longrightarrow> cap < 2 ^ p" "geom p cap \<Longrightarrow> p \<le> 62"
  by (simp_all add: geom_def)

lemma mod_pow_64:
  assumes "n \<le> 64"
  shows "(m mod 2 ^ 64) mod 2 ^ n = m mod (2 ^ n :: nat)"
  using assms by (intro mod_mod_cancel le_imp_power_dvd)

lemma unat_of_nat_mod: "n \<le> 64 \<Longrightarrow> unat (of_nat m :: usize) mod 2 ^ n = m mod 2 ^ n"
  by (simp only: unat_of_nat_64 mod_pow_64)

lemma mod_lt_exp: "geom p cap \<Longrightarrow> k mod cap < 2 ^ p"
  using geomD mod_less_divisor [of cap k] less_trans by blast

lemma unat_of_nat_index:
  assumes "geom p cap"
  shows "unat (of_nat (k mod cap) :: usize) = k mod cap"
proof -
  have "k mod cap < 2 ^ p" by (rule mod_lt_exp [OF assms])
  also have "(2 :: nat) ^ p \<le> 2 ^ 64" using geomD(3) [OF assms] by (intro power_increasing) simp_all
  finally show ?thesis by (simp only: unat_of_nat_64 mod_less)
qed

lemma mod_lt_exp_Suc: "geom p cap \<Longrightarrow> k mod cap + 1 < 2 ^ Suc p"
  using mod_lt_exp [of p cap k] by simp

lemma pos_div: "geom p cap \<Longrightarrow> pos p cap k div 2 ^ Suc p = k div cap"
  using mod_lt_exp_Suc [of p cap k] by (simp add: pos_def del: power_Suc)

lemma pos_mod: "geom p cap \<Longrightarrow> pos p cap k mod 2 ^ Suc p = k mod cap"
  using mod_lt_exp_Suc [of p cap k] by (simp add: pos_def del: power_Suc)

lemma pos_mod_small:
  assumes "geom p cap"
  shows "pos p cap k mod 2 ^ p = k mod cap"
proof -
  have "(2 :: nat) ^ p dvd 2 ^ Suc p" by (intro le_imp_power_dvd) simp
  then have "pos p cap k mod 2 ^ p = (pos p cap k mod 2 ^ Suc p) mod 2 ^ p"
    by (simp only: mod_mod_cancel)
  with mod_lt_exp [OF assms, of k] show ?thesis by (simp only: pos_mod [OF assms] mod_less)
qed

lemma unat_enc_mod:
  assumes "geom p cap"
  shows "unat (enc p cap k) mod 2 ^ Suc p = k mod cap" "unat (enc p cap k) mod 2 ^ p = k mod cap"
proof -
  have "p + 1 \<le> 64" "p \<le> 64" using geomD(3) [OF assms] by simp_all
  then show "unat (enc p cap k) mod 2 ^ Suc p = k mod cap"
    "unat (enc p cap k) mod 2 ^ p = k mod cap"
    by (simp_all only: enc_def unat_of_nat_mod pos_mod [OF assms] pos_mod_small [OF assms])
qed

lemma enc_index:
  "geom p cap \<Longrightarrow> enc p cap k AND (2 ^ p - 1) = of_nat (k mod cap)"
  by (simp only: and_mask_mod unat_enc_mod)

lemma enc_lap:
  "geom p cap \<Longrightarrow> enc p cap k AND NOT (2 ^ Suc p - 1) = of_nat ((k div cap) * 2 ^ Suc p)"
  by (simp only: and_not_mask_mod unat_enc_mod) (simp only: enc_def pos_def of_nat_add add_diff_cancel_right')

lemma enc_no_mark:
  assumes "geom p cap"
  shows "\<not> bit (enc p cap k) p"
proof -
  have "pos p cap k mod (2 ^ p * 2) = 2 ^ p * (pos p cap k div 2 ^ p mod 2) + pos p cap k mod 2 ^ p"
    by (rule mod_mult2_eq)
  moreover have "pos p cap k mod (2 ^ p * 2) = pos p cap k mod 2 ^ p"
    using pos_mod [OF assms, of k] pos_mod_small [OF assms, of k] by (simp add: mult.commute)
  ultimately have "even (pos p cap k div 2 ^ p)" by (simp add: even_iff_mod_2_eq_zero)
  then have "\<not> bit (pos p cap k) p" by (simp add: bit_iff_odd)
  then show ?thesis by (simp add: enc_def bit_of_nat_iff_bit bit_simps)
qed

lemma enc_and_mark: "geom p cap \<Longrightarrow> enc p cap k AND 2 ^ p = 0"
  by (simp add: and_exp_eq_0_iff_not_bit enc_no_mark)

lemma enc_0 [simp]: "enc p cap 0 = 0"
  by (simp add: enc_def pos_def)

lemma div_mod_Suc:
  "0 < cap \<Longrightarrow> Suc (k mod cap) < cap \<Longrightarrow> Suc k div cap = k div cap \<and> Suc k mod cap = Suc (k mod cap)"
  by (simp add: div_Suc mod_Suc)

lemma enc_Suc_same_lap:
  assumes "geom p cap" "k mod cap + 1 < cap"
  shows "enc p cap (Suc k) = enc p cap k + 1"
  using assms div_mod_Suc [of cap k] by (simp add: enc_def pos_def geom_def)

lemma enc_Suc_next_lap:
  assumes "geom p cap" "\<not> k mod cap + 1 < cap"
  shows "enc p cap (Suc k) = of_nat ((k div cap) * 2 ^ Suc p) + 2 ^ Suc p"
proof -
  have "k mod cap < cap" using assms(1) by (simp add: geom_def)
  with assms(2) have "Suc (k mod cap) = cap" by simp
  then have "Suc k div cap = Suc (k div cap)" "Suc k mod cap = 0"
    by (simp_all add: div_Suc mod_Suc)
  then show ?thesis by (simp add: enc_def pos_def algebra_simps)
qed

lemma enc_add_cap:
  assumes "geom p cap"
  shows "enc p cap (k + cap) = enc p cap k + 2 ^ Suc p"
proof -
  have "(k + cap) div cap = Suc (k div cap)" "(k + cap) mod cap = k mod cap"
    using geomD(1) [OF assms] by (simp_all add: div_add_self2)
  then show ?thesis by (simp add: enc_def pos_def algebra_simps)
qed

text \<open>
  Two positions less than a full word of laps apart have different stamps, and the stamp of
  a full slot (one more than that of its position) is never that of a position of the
  same slot.
\<close>

lemma enc_eq_iff:
  assumes "geom p cap" "j div cap < 2 ^ (63 - p)" "k div cap < 2 ^ (63 - p)"
  shows "enc p cap j = enc p cap k \<longleftrightarrow> j = k"
proof
  have bound: "pos p cap m < 2 ^ 64" if "m div cap < 2 ^ (63 - p)" for m
  proof -
    have "pos p cap m < Suc (m div cap) * 2 ^ Suc p"
      using mod_lt_exp_Suc [OF assms(1), of m] by (simp add: pos_def del: power_Suc)
    also have "\<dots> \<le> 2 ^ (63 - p) * 2 ^ Suc p"
      using that by (intro mult_right_mono) simp_all
    also have "\<dots> = 2 ^ 64"
      using geomD(3) [OF assms(1)] by (simp flip: power_add)
    finally show ?thesis .
  qed
  assume "enc p cap j = enc p cap k"
  then have "unat (enc p cap j) = unat (enc p cap k)" by simp
  then have eq: "pos p cap j = pos p cap k"
    by (simp only: enc_def unat_of_nat_64 mod_less bound assms(2,3))
  have "j mod cap = k mod cap" using pos_mod [OF assms(1)] eq by metis
  moreover have "j div cap = k div cap" using pos_div [OF assms(1)] eq by metis
  ultimately show "j = k" by (metis div_mult_mod_eq)
qed simp

lemma enc_Suc_neq:
  assumes "geom p cap" "j mod cap = k mod cap"
  shows "enc p cap j + 1 \<noteq> enc p cap k"
proof
  assume "enc p cap j + 1 = enc p cap k"
  then have "of_nat (Suc (pos p cap j)) = enc p cap k" by (simp add: enc_def add.commute)
  then have "unat (of_nat (Suc (pos p cap j)) :: usize) mod 2 ^ Suc p = k mod cap"
    by (simp only: unat_enc_mod [OF assms(1)])
  moreover have "p + 1 \<le> 64" using geomD(3) [OF assms(1)] by simp
  ultimately have "Suc (pos p cap j) mod 2 ^ Suc p = k mod cap"
    by (simp only: unat_of_nat_mod)
  then have "Suc (j mod cap) mod 2 ^ Suc p = k mod cap"
    using pos_mod [OF assms(1), of j] by (metis mod_Suc_eq)
  then show False using mod_lt_exp_Suc [OF assms(1), of k] assms(2) by simp
qed

lemma enc_not_max: "geom p cap \<Longrightarrow> enc p cap k \<noteq> - 1"
  using enc_no_mark [of p cap k] geomD(3) [of p cap] by auto

lemma add_chk_enc: "geom p cap \<Longrightarrow> add_chk (enc p cap k) 1 = Done (enc p cap k + 1)"
  by (simp add: add_chk_1 enc_not_max)

lemma unat_exp_64: "p < 64 \<Longrightarrow> unat (2 ^ p :: usize) = 2 ^ p"
proof -
  assume "p < 64"
  then have "(2 :: nat) ^ p < 2 ^ 64" by (intro power_strict_increasing) simp_all
  then have "unat (of_nat (2 ^ p) :: usize) = 2 ^ p" by (simp only: unat_of_nat_64 mod_less)
  then show ?thesis by simp
qed

lemma enc_add_cap_neq: "geom p cap \<Longrightarrow> enc p cap (k + cap) \<noteq> enc p cap k"
proof -
  assume g: "geom p cap"
  then have "Suc p < 64" using geomD(3) by fastforce
  then have "unat (2 ^ Suc p :: usize) = 2 ^ Suc p" by (rule unat_exp_64)
  then have "(2 ^ Suc p :: usize) \<noteq> 0" by (metis power_not_zero unat_0 zero_neq_numeral)
  then show ?thesis by (simp add: enc_add_cap [OF g] del: power_Suc)
qed

lemma mod_add_le:
  assumes "0 < cap" "l \<le> cap"
  shows "(h + l) mod (cap :: nat) =
    (if h mod cap + l < cap then h mod cap + l else h mod cap + l - cap)"
proof -
  have lt: "h mod cap + l < cap + cap" using assms mod_less_divisor [of cap h] by linarith
  have "(h + l) mod cap = (h mod cap + l) mod cap" by (simp add: mod_add_left_eq)
  also have "\<dots> = (if h mod cap + l < cap then h mod cap + l else h mod cap + l - cap)"
    using lt by (simp add: le_mod_geq)
  finally show ?thesis .
qed

lemma mod_window_add:
  assumes "i < cap" "j < cap"
  shows "(h + i) mod cap = (h + j) mod (cap :: nat) \<longleftrightarrow> i = j"
proof
  assume eq: "(h + i) mod cap = (h + j) mod cap"
  show "i = j"
    using mod_window [of "h + i" cap "h + j"] mod_window [of "h + j" cap "h + i"] eq assms
    by (cases "i \<le> j") auto
qed simp

text \<open>The tail of a channel at position \<open>k\<close>, marked when the channel is shut down.\<close>

definition tail_word :: "nat \<Rightarrow> nat \<Rightarrow> nat \<Rightarrow> bool \<Rightarrow> usize" where
  "tail_word p cap k d = (if d then enc p cap k OR 2 ^ p else enc p cap k)"

lemma tail_word_masks:
  assumes "geom p cap"
  shows "tail_word p cap k d AND 2 ^ p \<noteq> 0 \<longleftrightarrow> d"
    "tail_word p cap k d AND NOT (2 ^ p) = enc p cap k"
    "tail_word p cap k d AND (2 ^ p - 1) = of_nat (k mod cap)"
    "tail_word p cap k d OR 2 ^ p = tail_word p cap k True"
proof -
  have p: "p < 64" using geomD(3) [OF assms] by simp
  show "tail_word p cap k d AND 2 ^ p \<noteq> 0 \<longleftrightarrow> d"
    using or_exp_and_exp [OF p, of "enc p cap k"] by (simp add: tail_word_def enc_and_mark [OF assms])
  show "tail_word p cap k d AND NOT (2 ^ p) = enc p cap k"
    by (simp add: tail_word_def or_exp_and_not_exp and_not_exp_id enc_no_mark [OF assms])
  show "tail_word p cap k d AND (2 ^ p - 1) = of_nat (k mod cap)"
    by (simp add: tail_word_def or_exp_and_mask enc_index [OF assms])
  show "tail_word p cap k d OR 2 ^ p = tail_word p cap k True"
    by (simp add: tail_word_def or_exp_twice)
qed

end
