(* ===== verification/Array_Chan.thy ===== *)
theory Array_Chan
  imports Array_Pos Errors Serial_Waker
begin

text \<open>
  The bounded channel of \<open>src/array.rs\<close>, as one thread runs it: a ring of stamped slots,
  with a head and a tail that are stamps too. Each function of the source is a function
  on the state. The words are the source's; a raw pointer into the buffer is the index of
  its slot, and using an index outside the buffer is a \<open>Fault\<close>. The oracle \<open>sp\<close> gives
  each loop of a call its spurious failures: loop \<open>i\<close> of the call uses \<open>sp i\<close>.
\<close>

unbundle bit_operations_syntax

section \<open>State\<close>

text \<open>A slot; \<open>s_msg = None\<close> is uninitialised memory. Reading copies the message out and
  leaves the bytes where they are, as \<open>ptr::read\<close> does.\<close>

record 'm slot =
  s_stamp :: usize
  s_msg :: "'m option"

text \<open>The token \<open>Array\<close>: a null slot pointer is \<open>None\<close>.\<close>

record array_token =
  tk_slot :: "nat option"
  tk_stamp :: usize

definition array_default :: array_token where
  "array_default = \<lparr>tk_slot = None, tk_stamp = 0\<rparr>"

text \<open>
  The channel. \<open>from_me\<close> of the source is the counter \<open>w_from_me\<close> of \<open>ac_receivers\<close>,
  which the two share through an \<open>Arc\<close>; \<open>to_me\<close>, never read, is that of \<open>ac_senders\<close>.
\<close>

record ('q, 't, 'm) achan =
  ac_head :: usize
  ac_tail :: usize
  ac_buffer :: "'m slot list"
  ac_cap :: usize
  ac_one_lap :: usize
  ac_mark_bit :: usize
  ac_senders :: "('q, 't) swaker"
  ac_receivers :: "('q, 't) swaker"
  ac_first :: bool

section \<open>Construction\<close>

fun bit_len :: "nat \<Rightarrow> nat" where
  "bit_len n = (if n = 0 then 0 else Suc (bit_len (n div 2)))"

declare bit_len.simps [simp del]

text \<open>\<open>usize::next_power_of_two\<close>; it panics when the result does not fit.\<close>

definition next_power_of_two :: "usize \<Rightarrow> usize outcome" where
  "next_power_of_two n =
     (let e = (if unat n \<le> 1 then 0 else bit_len (unat n - 1))
      in if e < 64 then Done (2 ^ e) else Panic)"

text \<open>
  \<open>with_capacity\<close>. \<open>slot_size\<close> is the size of a slot in bytes: \<open>Vec::with_capacity\<close>
  panics when the buffer would be larger than \<open>isize::MAX\<close>.
\<close>

definition with_capacity ::
    "('q, 't) aq_ops \<Rightarrow> nat \<Rightarrow> usize \<Rightarrow> ('q, 't, 'm) achan outcome" where
  "with_capacity Q slot_size cap =
     (if cap = 0 then Panic else
      obind (add_chk cap 1) (\<lambda>cap1.
      obind (next_power_of_two cap1) (\<lambda>mark_bit.
      obind (mul_chk mark_bit 2) (\<lambda>one_lap.
      if unat cap * slot_size > 2 ^ 63 - 1 then Panic else
      Done \<lparr>ac_head = 0, ac_tail = 0,
            ac_buffer = map (\<lambda>i. \<lparr>s_stamp = of_nat i, s_msg = None\<rparr>) [0..<unat cap],
            ac_cap = cap, ac_one_lap = one_lap, ac_mark_bit = mark_bit,
            ac_senders = swaker_new Q, ac_receivers = swaker_new Q, ac_first = True\<rparr>))))"

section \<open>Sending\<close>

text \<open>The deconstruction of a stamp into its index and its lap.\<close>

definition stamp_index :: "('q, 't, 'm) achan \<Rightarrow> usize \<Rightarrow> nat" where
  "stamp_index ch w = unat (w AND (ac_mark_bit ch - 1))"

definition stamp_lap :: "('q, 't, 'm) achan \<Rightarrow> usize \<Rightarrow> usize" where
  "stamp_lap ch w = w AND NOT (ac_one_lap ch - 1)"

text \<open>The stamp after \<open>w\<close>: the next index of the same lap, or index zero of the next lap.\<close>

definition next_stamp :: "('q, 't, 'm) achan \<Rightarrow> usize \<Rightarrow> usize outcome" where
  "next_stamp ch w =
     (if stamp_index ch w + 1 < unat (ac_cap ch) then add_chk w 1
      else Done (stamp_lap ch w + ac_one_lap ch))"

primrec array_start_send_loop ::
    "bool list \<Rightarrow> usize \<Rightarrow> array_token \<Rightarrow> ('q, 't, 'm) achan
     \<Rightarrow> (bool \<times> array_token \<times> ('q, 't, 'm) achan) outcome" where
  "array_start_send_loop [] tail tok ch = Spin"
| "array_start_send_loop (w # ws) tail tok ch =
     (if tail AND ac_mark_bit ch \<noteq> 0
      then Done (True, \<lparr>tk_slot = None, tk_stamp = 0\<rparr>, ch)
      else let index = stamp_index ch tail in
      if \<not> index < length (ac_buffer ch) then Fault else
      let stamp = s_stamp (ac_buffer ch ! index) in
      if tail = stamp then
        obind (next_stamp ch tail) (\<lambda>new_tail.
        if \<not> w \<and> ac_tail ch = tail
        then obind (add_chk tail 1) (\<lambda>st.
               Done (True, \<lparr>tk_slot = Some index, tk_stamp = st\<rparr>, ch\<lparr>ac_tail := new_tail\<rparr>))
        else array_start_send_loop ws (ac_tail ch) tok ch)
      else
        obind (add_chk tail 1) (\<lambda>tail1.
        if stamp + ac_one_lap ch = tail1 then
          (if ac_head ch + ac_one_lap ch = tail then Done (False, tok, ch)
           else array_start_send_loop ws (ac_tail ch) tok ch)
        else array_start_send_loop ws (ac_tail ch) tok ch))"

definition array_start_send ::
    "bool list \<Rightarrow> array_token \<Rightarrow> ('q, 't, 'm) achan
     \<Rightarrow> (bool \<times> array_token \<times> ('q, 't, 'm) achan) outcome" where
  "array_start_send ws tok ch = array_start_send_loop ws (ac_tail ch) tok ch"

definition array_write ::
    "('q, 't) aq_ops \<Rightarrow> array_token \<Rightarrow> 'm \<Rightarrow> ('q, 't, 'm) achan
     \<Rightarrow> (('m + unit) \<times> ('q, 't, 'm) achan) outcome" where
  "array_write Q tok msg ch =
     (case tk_slot tok of
        None \<Rightarrow> Done (Inl msg, ch)
      | Some i \<Rightarrow>
          if i < length (ac_buffer ch)
          then Done (Inr (), ch\<lparr>ac_buffer := (ac_buffer ch)[i := \<lparr>s_stamp = tk_stamp tok, s_msg = Some msg\<rparr>],
                               ac_receivers := wake Q (ac_receivers ch)\<rparr>)
          else Fault)"

section \<open>Receiving\<close>

primrec array_start_recv_loop ::
    "bool list \<Rightarrow> usize \<Rightarrow> array_token \<Rightarrow> ('q, 't, 'm) achan
     \<Rightarrow> (bool \<times> array_token \<times> ('q, 't, 'm) achan) outcome" where
  "array_start_recv_loop [] head tok ch = Spin"
| "array_start_recv_loop (w # ws) head tok ch =
     (let index = stamp_index ch head in
      if \<not> index < length (ac_buffer ch) then Fault else
      let stamp = s_stamp (ac_buffer ch ! index) in
      obind (add_chk head 1) (\<lambda>head1.
      if head1 = stamp then
        obind (next_stamp ch head) (\<lambda>new.
        if \<not> w \<and> ac_head ch = head
        then Done (True, \<lparr>tk_slot = Some index, tk_stamp = head + ac_one_lap ch\<rparr>, ch\<lparr>ac_head := new\<rparr>)
        else array_start_recv_loop ws (ac_head ch) tok ch)
      else if stamp = head then
        (let tail = ac_tail ch in
         if tail AND NOT (ac_mark_bit ch) = head then
           (if tail AND ac_mark_bit ch \<noteq> 0
            then Done (True, \<lparr>tk_slot = None, tk_stamp = 0\<rparr>, ch)
            else Done (False, tok, ch))
         else array_start_recv_loop ws (ac_head ch) tok ch)
      else array_start_recv_loop ws (ac_head ch) tok ch))"

definition array_start_recv ::
    "bool list \<Rightarrow> array_token \<Rightarrow> ('q, 't, 'm) achan
     \<Rightarrow> (bool \<times> array_token \<times> ('q, 't, 'm) achan) outcome" where
  "array_start_recv ws tok ch = array_start_recv_loop ws (ac_head ch) tok ch"

definition array_read ::
    "('q, 't) aq_ops \<Rightarrow> array_token \<Rightarrow> ('q, 't, 'm) achan
     \<Rightarrow> ((unit + 'm) \<times> ('q, 't, 'm) achan) outcome" where
  "array_read Q tok ch =
     (case tk_slot tok of
        None \<Rightarrow> Done (Inl (), ch)
      | Some i \<Rightarrow>
          if i < length (ac_buffer ch) then
            (case s_msg (ac_buffer ch ! i) of
               None \<Rightarrow> Fault
             | Some msg \<Rightarrow>
                 Done (Inr msg,
                   ch\<lparr>ac_buffer := (ac_buffer ch)[i := (ac_buffer ch ! i)\<lparr>s_stamp := tk_stamp tok\<rparr>],
                      ac_senders := wake Q (ac_senders ch)\<rparr>))
          else Fault)"

text \<open>\<open>poll_read\<close> is \<open>read\<close> with the results of a \<open>Stream\<close>.\<close>

definition array_poll_read ::
    "('q, 't) aq_ops \<Rightarrow> array_token \<Rightarrow> ('q, 't, 'm) achan
     \<Rightarrow> ((unit + 'm option async) \<times> ('q, 't, 'm) achan) outcome" where
  "array_poll_read Q tok ch =
     (case tk_slot tok of
        None \<Rightarrow> Done (Inr (Ready None), ch)
      | Some i \<Rightarrow>
          if i < length (ac_buffer ch) then
            (case s_msg (ac_buffer ch ! i) of
               None \<Rightarrow> Fault
             | Some msg \<Rightarrow>
                 Done (Inr (Ready (Some msg)),
                   ch\<lparr>ac_buffer := (ac_buffer ch)[i := (ac_buffer ch ! i)\<lparr>s_stamp := tk_stamp tok\<rparr>],
                      ac_senders := wake Q (ac_senders ch)\<rparr>))
          else Fault)"

section \<open>The calls of a user\<close>

text \<open>\<open>try_send\<close>: a refused sender registers its task before it is told \<open>NoCapacity\<close>.\<close>

definition array_try_send ::
    "('q, 't) aq_ops \<Rightarrow> weak \<Rightarrow> 't option \<Rightarrow> 'm \<Rightarrow> ('q, 't, 'm) achan
     \<Rightarrow> (('m try_send_error + unit) \<times> ('q, 't, 'm) achan) outcome" where
  "array_try_send Q sp current msg ch =
     obind (array_start_send (sp 0) array_default ch) (\<lambda>(ok, tok, ch1).
     if ok then
       obind (array_write Q tok msg ch1) (\<lambda>(r, ch2).
       Done (case r of Inl m \<Rightarrow> Inl \<lparr>tse_kind = Closed, tse_value = m\<rparr> | Inr u \<Rightarrow> Inr u, ch2))
     else
       obind (register Q (sp 1) current (ac_senders ch1)) (\<lambda>w.
       Done (Inl \<lparr>tse_kind = NoCapacity, tse_value = msg\<rparr>, ch1\<lparr>ac_senders := w\<rparr>)))"

text \<open>
  \<open>send\<close> spins until there is room or the deadline has passed. The list gives, for each
  turn of its loop, the spurious failures of that turn's \<open>start_send\<close> and the time
  \<open>Instant::now()\<close> reads.
\<close>

primrec array_send ::
    "('q, 't) aq_ops \<Rightarrow> (bool list \<times> nat) list \<Rightarrow> nat option \<Rightarrow> array_token \<Rightarrow> 'm \<Rightarrow> ('q, 't, 'm) achan
     \<Rightarrow> (('m send_timeout_error + unit) \<times> ('q, 't, 'm) achan) outcome" where
  "array_send Q [] deadline tok msg ch = Spin"
| "array_send Q (turn # turns) deadline tok msg ch =
     obind (array_start_send (fst turn) tok ch) (\<lambda>(ok, tok1, ch1).
     if ok then
       obind (array_write Q tok1 msg ch1) (\<lambda>(r, ch2).
       Done (case r of Inl m \<Rightarrow> Inl (SendDisconnected m) | Inr u \<Rightarrow> Inr u, ch2))
     else
       (case deadline of
          Some d \<Rightarrow> if snd turn \<ge> d then Done (Inl (SendTimeout msg), ch1)
                    else array_send Q turns deadline tok1 msg ch1
        | None \<Rightarrow> array_send Q turns deadline tok1 msg ch1))"

definition array_try_recv ::
    "('q, 't) aq_ops \<Rightarrow> weak \<Rightarrow> ('q, 't, 'm) achan
     \<Rightarrow> ((try_recv_error + 'm) \<times> ('q, 't, 'm) achan) outcome" where
  "array_try_recv Q sp ch =
     obind (array_start_recv (sp 0) array_default ch) (\<lambda>(ok, tok, ch1).
     if ok then
       obind (array_read Q tok ch1) (\<lambda>(r, ch2).
       Done (case r of Inl _ \<Rightarrow> Inl TryRecvDisconnected | Inr m \<Rightarrow> Inr m, ch2))
     else Done (Inl TryRecvEmpty, ch1))"

text \<open>
  \<open>len\<close> loads the tail, the head and the tail again, and starts over when another thread
  has moved the tail in between; what it computes from the pair is \<open>array_len_of\<close>.
\<close>

definition array_len_of :: "('q, 't, 'm) achan \<Rightarrow> usize \<Rightarrow> usize \<Rightarrow> usize outcome" where
  "array_len_of ch tail head =
     (let hix = head AND (ac_mark_bit ch - 1); tix = tail AND (ac_mark_bit ch - 1) in
      if hix < tix then sub_chk tix hix
      else if hix > tix then obind (sub_chk (ac_cap ch) hix) (\<lambda>d. add_chk d tix)
      else if tail AND NOT (ac_mark_bit ch) = head then Done 0
      else Done (ac_cap ch))"

definition array_len :: "('q, 't, 'm) achan \<Rightarrow> usize outcome" where
  "array_len ch = array_len_of ch (ac_tail ch) (ac_head ch)"

definition array_capacity :: "('q, 't, 'm) achan \<Rightarrow> usize option" where
  "array_capacity ch = Some (ac_cap ch)"

definition array_is_empty :: "('q, 't, 'm) achan \<Rightarrow> bool" where
  "array_is_empty ch \<longleftrightarrow> ac_tail ch AND ac_mark_bit ch = ac_head ch"

definition array_is_full :: "('q, 't, 'm) achan \<Rightarrow> bool" where
  "array_is_full ch \<longleftrightarrow> ac_head ch + ac_one_lap ch = ac_tail ch AND NOT (ac_mark_bit ch)"

definition array_shutdown ::
    "('q, 't) aq_ops \<Rightarrow> ('q, 't, 'm) achan \<Rightarrow> (bool \<times> ('q, 't, 'm) achan) outcome" where
  "array_shutdown Q ch =
     (let tail = ac_tail ch; ch1 = ch\<lparr>ac_tail := tail OR ac_mark_bit ch\<rparr> in
      if tail AND ac_mark_bit ch = 0 then
        obind (wake_all Q (ac_senders ch1)) (\<lambda>s.
        obind (wake_all Q (ac_receivers ch1)) (\<lambda>r.
        Done (True, ch1\<lparr>ac_senders := s, ac_receivers := r\<rparr>)))
      else Done (False, ch1))"

definition array_is_shutdown :: "('q, 't, 'm) achan \<Rightarrow> bool" where
  "array_is_shutdown ch \<longleftrightarrow> ac_tail ch AND ac_mark_bit ch \<noteq> 0"

text \<open>
  Dropping the channel drops the messages still in the buffer; the result is the list of
  them, in the order they are dropped.
\<close>

primrec array_drop_loop ::
    "('q, 't, 'm) achan \<Rightarrow> nat \<Rightarrow> nat list \<Rightarrow> 'm list outcome" where
  "array_drop_loop ch hix [] = Done []"
| "array_drop_loop ch hix (i # is) =
     (let index = (if hix + i < unat (ac_cap ch) then hix + i else hix + i - unat (ac_cap ch)) in
      if index < length (ac_buffer ch) then
        (case s_msg (ac_buffer ch ! index) of
           None \<Rightarrow> Fault
         | Some m \<Rightarrow> omap (\<lambda>ms. m # ms) (array_drop_loop ch hix is))
      else Fault)"

definition array_drop :: "('q, 't, 'm) achan \<Rightarrow> 'm list outcome" where
  "array_drop ch =
     (let hix = stamp_index ch (ac_head ch) in
      obind (array_len ch) (\<lambda>n. array_drop_loop ch hix [0..<unat n]))"

section \<open>The stream and the sink\<close>

text \<open>
  \<open>poll\<close>: loop 0 is the first \<open>start_recv\<close>, 1 the \<open>positive_update\<close> of \<open>register\<close>, 2 the
  second \<open>start_recv\<close>, 3 the \<open>positive_update\<close> of \<open>from_me\<close>.
\<close>

definition array_poll_again ::
    "('q, 't) aq_ops \<Rightarrow> weak \<Rightarrow> 't option \<Rightarrow> array_token \<Rightarrow> ('q, 't, 'm) achan
     \<Rightarrow> ((unit + 'm option async) \<times> ('q, 't, 'm) achan) outcome" where
  "array_poll_again Q sp current tok ch =
     obind (register Q (sp 1) current (ac_receivers ch)) (\<lambda>w.
     obind (array_start_recv (sp 2) tok (ch\<lparr>ac_receivers := w\<rparr>)) (\<lambda>(ok, tok2, ch2).
     if ok then array_poll_read Q tok2 ch2 else Done (Inr NotReady, ch2)))"

definition array_poll ::
    "('q, 't) aq_ops \<Rightarrow> weak \<Rightarrow> 't option \<Rightarrow> ('q, 't, 'm) achan
     \<Rightarrow> ((unit + 'm option async) \<times> ('q, 't, 'm) achan) outcome" where
  "array_poll Q sp current ch =
     obind (array_start_recv (sp 0) array_default ch) (\<lambda>(ok, tok, ch1).
     if ok then array_poll_read Q tok ch1
     else if ac_first ch1 then array_poll_again Q sp current tok (ch1\<lparr>ac_first := False\<rparr>)
     else
       obind (positive_update (sp 3) (w_from_me (ac_receivers ch1))) (\<lambda>(hit, n).
       if hit
       then array_poll_again Q sp current tok
              (ch1\<lparr>ac_receivers := (ac_receivers ch1)\<lparr>w_from_me := n\<rparr>\<rparr>)
       else Done (Inr NotReady, ch1)))"

definition array_sink_start_send ::
    "('q, 't) aq_ops \<Rightarrow> weak \<Rightarrow> 't option \<Rightarrow> 'm \<Rightarrow> ('q, 't, 'm) achan
     \<Rightarrow> ((send_error + 'm async_sink) \<times> ('q, 't, 'm) achan) outcome" where
  "array_sink_start_send Q sp current item ch =
     obind (array_try_send Q sp current item ch) (\<lambda>(r, ch1).
     case r of
       Inr _ \<Rightarrow> Done (Inr SinkReady, ch1)
     | Inl e \<Rightarrow>
         if is_closed e then Done (Inl SendError, ch1)
         else if is_full e then Done (Inr (SinkNotReady (into_inner e)), ch1)
         else Panic)"

definition array_poll_complete :: "('q, 't, 'm) achan \<Rightarrow> (send_error + unit async)" where
  "array_poll_complete ch = Inr (Ready ())"

end
