(* ===== verification/Channel_Contract.thy ===== *)
theory Channel_Contract
  imports Errors
begin

text \<open>
  What a channel promises, independently of how it is built. The abstract channel is the
  list of its messages, oldest first, and a flag that says whether it is shut down. The
  specification of the calls is executable; the locales are the interfaces: \<open>shutdownable\<close>
  is the trait \<open>Shutdown\<close> of \<open>src/lib.rs\<close>, which the reference counter requires of a
  channel, and \<open>fifo_channel\<close> adds \<open>try_send\<close> and \<open>try_recv\<close>. \<open>'e\<close> is the environment of
  a call (its spurious failures, its task), \<open>good\<close> what is assumed of it.
\<close>

section \<open>The specification\<close>

text \<open>\<open>bound = Some n\<close>: at most \<open>n\<close> messages; \<open>None\<close>: unbounded.\<close>

definition has_room :: "nat option \<Rightarrow> 'm list \<Rightarrow> bool" where
  "has_room bound ms = (case bound of None \<Rightarrow> True | Some n \<Rightarrow> length ms < n)"

lemma has_room_simps [simp]:
  "has_room None ms" "has_room (Some n) ms \<longleftrightarrow> length ms < n"
  by (simp_all add: has_room_def)

definition spec_try_send ::
    "nat option \<Rightarrow> 'm \<Rightarrow> 'm list \<Rightarrow> bool \<Rightarrow> ('m try_send_error + unit) \<times> 'm list" where
  "spec_try_send bound m ms d =
     (if d then (Inl \<lparr>tse_kind = Closed, tse_value = m\<rparr>, ms)
      else if has_room bound ms then (Inr (), ms @ [m])
      else (Inl \<lparr>tse_kind = NoCapacity, tse_value = m\<rparr>, ms))"

definition spec_try_recv :: "'m list \<Rightarrow> bool \<Rightarrow> (try_recv_error + 'm) \<times> 'm list" where
  "spec_try_recv ms d =
     (case ms of m # ms' \<Rightarrow> (Inr m, ms')
      | [] \<Rightarrow> (Inl (if d then TryRecvDisconnected else TryRecvEmpty), []))"

datatype 'm call = SendCall 'm | RecvCall | ShutdownCall

datatype 'm answer =
    SendAnswer "'m try_send_error + unit"
  | RecvAnswer "try_recv_error + 'm"
  | ShutdownAnswer bool

fun spec_call :: "nat option \<Rightarrow> 'm call \<Rightarrow> 'm list \<times> bool \<Rightarrow> 'm answer \<times> 'm list \<times> bool" where
  "spec_call bound (SendCall m) (ms, d) =
     (let (r, ms') = spec_try_send bound m ms d in (SendAnswer r, ms', d))"
| "spec_call bound RecvCall (ms, d) = (let (r, ms') = spec_try_recv ms d in (RecvAnswer r, ms', d))"
| "spec_call bound ShutdownCall (ms, d) = (ShutdownAnswer (\<not> d), ms, True)"

fun spec_run ::
    "nat option \<Rightarrow> 'm call list \<Rightarrow> 'm list \<times> bool \<Rightarrow> 'm answer list \<times> 'm list \<times> bool" where
  "spec_run bound [] st = ([], st)"
| "spec_run bound (c # cs) st =
     (let (a, st') = spec_call bound c st; (as, st'') = spec_run bound cs st' in (a # as, st''))"

text \<open>The same sequence of calls on an implementation.\<close>

fun impl_call ::
    "('e \<Rightarrow> 'm \<Rightarrow> 'c \<Rightarrow> (('m try_send_error + unit) \<times> 'c) outcome)
     \<Rightarrow> ('e \<Rightarrow> 'c \<Rightarrow> ((try_recv_error + 'm) \<times> 'c) outcome)
     \<Rightarrow> ('c \<Rightarrow> (bool \<times> 'c) outcome)
     \<Rightarrow> 'e \<Rightarrow> 'm call \<Rightarrow> 'c \<Rightarrow> ('m answer \<times> 'c) outcome" where
  "impl_call snd_op rcv_op shut_op e (SendCall m) c = omap (\<lambda>(r, c'). (SendAnswer r, c')) (snd_op e m c)"
| "impl_call snd_op rcv_op shut_op e RecvCall c = omap (\<lambda>(r, c'). (RecvAnswer r, c')) (rcv_op e c)"
| "impl_call snd_op rcv_op shut_op e ShutdownCall c =
     omap (\<lambda>(b, c'). (ShutdownAnswer b, c')) (shut_op c)"

fun impl_run ::
    "('e \<Rightarrow> 'm \<Rightarrow> 'c \<Rightarrow> (('m try_send_error + unit) \<times> 'c) outcome)
     \<Rightarrow> ('e \<Rightarrow> 'c \<Rightarrow> ((try_recv_error + 'm) \<times> 'c) outcome)
     \<Rightarrow> ('c \<Rightarrow> (bool \<times> 'c) outcome)
     \<Rightarrow> ('e \<times> 'm call) list \<Rightarrow> 'c \<Rightarrow> ('m answer list \<times> 'c) outcome" where
  "impl_run snd_op rcv_op shut_op [] c = Done ([], c)"
| "impl_run snd_op rcv_op shut_op ((e, x) # cs) c =
     obind (impl_call snd_op rcv_op shut_op e x c) (\<lambda>(a, c').
     omap (\<lambda>(as, c''). (a # as, c'')) (impl_run snd_op rcv_op shut_op cs c'))"

lemma spec_run_append:
  "spec_run bound (xs @ ys) st =
     (let (as, st') = spec_run bound xs st; (bs, st'') = spec_run bound ys st' in (as @ bs, st''))"
  by (induction xs arbitrary: st) (auto simp: Let_def split: prod.splits)

lemma spec_run_sends:
  "(case bound of None \<Rightarrow> True | Some n \<Rightarrow> length ms + length xs \<le> n) \<Longrightarrow>
   spec_run bound (map SendCall xs) (ms, False)
     = (map (\<lambda>_. SendAnswer (Inr ())) xs, ms @ xs, False)"
  by (induction xs arbitrary: ms) (auto simp: spec_try_send_def has_room_def split: option.splits)

lemma spec_run_recvs:
  "spec_run bound (replicate (length xs) RecvCall) (xs @ ms, d)
     = (map (\<lambda>x. RecvAnswer (Inr x)) xs, ms, d)"
  by (induction xs) (auto simp: spec_try_recv_def)

section \<open>The interfaces\<close>

text \<open>
  \<open>limit\<close> bounds what an implementation can hold when the memory of the machine does: it
  promises to follow the specification as long as a send finds fewer than \<open>limit\<close>
  messages, which \<open>fits\<close> reads off its state.
\<close>

definition is_send :: "'m call \<Rightarrow> bool" where
  "is_send x = (case x of SendCall _ \<Rightarrow> True | _ \<Rightarrow> False)"

lemma is_send_simps [simp]: "is_send (SendCall m)" "\<not> is_send RecvCall" "\<not> is_send ShutdownCall"
  by (simp_all add: is_send_def)

definition room_for :: "nat option \<Rightarrow> 'm list \<Rightarrow> nat \<Rightarrow> bool" where
  "room_for limit ms k = (case limit of None \<Rightarrow> True | Some n \<Rightarrow> length ms + k \<le> n)"

lemma room_for_None [simp]: "room_for None ms k"
  by (simp add: room_for_def)

lemma spec_call_length: "spec_call bound x (ms, d) = (a, ms', d') \<Longrightarrow> length ms' \<le> Suc (length ms)"
  by (cases x)
    (auto simp: Let_def spec_try_send_def spec_try_recv_def split: prod.splits if_splits list.splits)

lemma room_for_step:
  assumes "spec_call bound x (ms, d) = (a, ms', d')" "room_for limit ms (Suc k)"
  shows "has_room limit ms" "room_for limit ms' k"
  using assms(2) spec_call_length [OF assms(1)]
  by (auto simp: room_for_def has_room_def split: option.splits)

locale shutdownable =
  fixes rep :: "'m list \<Rightarrow> bool \<Rightarrow> 'c \<Rightarrow> bool"
    and shut :: "'c \<Rightarrow> (bool \<times> 'c) outcome"
    and is_shut :: "'c \<Rightarrow> bool"
  assumes is_shut_rep: "rep ms d c \<Longrightarrow> is_shut c = d"
    and shut_rep: "rep ms d c \<Longrightarrow> \<exists>c'. shut c = Done (\<not> d, c') \<and> rep ms True c'"
begin

lemma shut_keeps_messages:
  assumes "rep ms d c"
  obtains c' where "shut c = Done (\<not> d, c')" "rep ms True c'" "is_shut c'"
  using shut_rep [OF assms] is_shut_rep by blast

lemma shut_twice:
  assumes "rep ms d c" "shut c = Done (b, c1)"
  shows "\<exists>c2. shut c1 = Done (False, c2) \<and> rep ms True c2"
  using shut_rep [OF assms(1)] shut_rep assms(2) by fastforce

end

locale fifo_channel = shutdownable rep shut is_shut
  for rep :: "'m list \<Rightarrow> bool \<Rightarrow> 'c \<Rightarrow> bool" and shut is_shut +
  fixes bound :: "nat option"
    and limit :: "nat option"
    and fits :: "'c \<Rightarrow> bool"
    and good :: "'e \<Rightarrow> bool"
    and snd_op :: "'e \<Rightarrow> 'm \<Rightarrow> 'c \<Rightarrow> (('m try_send_error + unit) \<times> 'c) outcome"
    and rcv_op :: "'e \<Rightarrow> 'c \<Rightarrow> ((try_recv_error + 'm) \<times> 'c) outcome"
  assumes fits_rep: "rep ms d c \<Longrightarrow> fits c = has_room limit ms"
    and snd_rep: "rep ms d c \<Longrightarrow> good e \<Longrightarrow> has_room limit ms \<Longrightarrow> spec_try_send bound m ms d = (r, ms')
      \<Longrightarrow> \<exists>c'. snd_op e m c = Done (r, c') \<and> rep ms' d c'"
    and rcv_rep: "rep ms d c \<Longrightarrow> good e \<Longrightarrow> spec_try_recv ms d = (r', ms')
      \<Longrightarrow> \<exists>c'. rcv_op e c = Done (r', c') \<and> rep ms' d c'"
begin

lemma call_refines:
  assumes "rep ms d c" "good e" "is_send x \<Longrightarrow> has_room limit ms"
    "spec_call bound x (ms, d) = (a, ms', d')"
  shows "\<exists>c'. impl_call snd_op rcv_op shut e x c = Done (a, c') \<and> rep ms' d' c'"
proof (cases x)
  case (SendCall m)
  obtain r us where spec: "spec_try_send bound m ms d = (r, us)" by fastforce
  with snd_rep [OF assms(1,2) _ spec] assms(3,4) SendCall show ?thesis by auto
next
  case RecvCall
  obtain r us where spec: "spec_try_recv ms d = (r, us)" by fastforce
  with rcv_rep [OF assms(1,2) spec] assms(4) RecvCall show ?thesis by auto
next
  case ShutdownCall
  with shut_rep [OF assms(1)] assms(4) show ?thesis by auto
qed

lemma run_refines:
  assumes "rep ms d c" "\<forall>(e, x) \<in> set calls. good e" "room_for limit ms (length calls)"
    "spec_run bound (map snd calls) (ms, d) = (answers, ms', d')"
  shows "\<exists>c'. impl_run snd_op rcv_op shut calls c = Done (answers, c') \<and> rep ms' d' c'"
  using assms
proof (induction calls arbitrary: ms d c answers)
  case Nil
  then show ?case by simp
next
  case (Cons ex calls)
  obtain e x where ex: "ex = (e, x)" by (cases ex)
  obtain a ms1 d1 where one: "spec_call bound x (ms, d) = (a, ms1, d1)" by (metis prod_cases3)
  obtain as where rest: "spec_run bound (map snd calls) (ms1, d1) = (as, ms', d')" "answers = a # as"
    using Cons.prems(4) one ex by (auto simp: Let_def split: prod.splits)
  have "good e" using Cons.prems(2) ex by simp
  have room: "has_room limit ms" "room_for limit ms1 (length calls)"
    using room_for_step [OF one, of limit "length calls"] Cons.prems(3) by simp_all
  from call_refines [OF Cons.prems(1) \<open>good e\<close> room(1) one] obtain c1
    where "impl_call snd_op rcv_op shut e x c = Done (a, c1)" "rep ms1 d1 c1" by blast
  with Cons.IH [OF _ _ room(2) rest(1)] Cons.prems(2) rest(2) ex show ?case by fastforce
qed

text \<open>First in, first out: what is sent while there is room is received in that order.\<close>

lemma fifo:
  assumes "rep [] False c" "\<forall>e \<in> set (es @ fs). good e" "length es = length xs" "length fs = length xs"
    "case bound of None \<Rightarrow> True | Some n \<Rightarrow> length xs \<le> n" "room_for limit ([] :: 'm list) (2 * length xs)"
  shows "\<exists>c'. impl_run snd_op rcv_op shut
      (zip es (map SendCall xs) @ zip fs (replicate (length xs) RecvCall)) c
      = Done (map (\<lambda>_. SendAnswer (Inr ())) xs @ map (\<lambda>x. RecvAnswer (Inr x)) xs, c')
    \<and> rep [] False c'"
proof (rule run_refines [OF assms(1)])
  show "\<forall>(e, x) \<in> set (zip es (map SendCall xs) @ zip fs (replicate (length xs) RecvCall)). good e"
    using assms(2) by (auto dest: set_zip_leftD)
  show "room_for limit ([] :: 'm list) (length (zip es (map SendCall xs) @ zip fs (replicate (length xs) RecvCall)))"
    using assms(3,4,6) by (simp add: mult_2)
  show "spec_run bound (map snd (zip es (map SendCall xs) @ zip fs (replicate (length xs) RecvCall))) ([], False)
      = (map (\<lambda>_. SendAnswer (Inr ())) xs @ map (\<lambda>x. RecvAnswer (Inr x)) xs, [], False)"
  proof -
    have "case bound of None \<Rightarrow> True | Some n \<Rightarrow> length ([] :: 'm list) + length xs \<le> n"
      using assms(5) by (simp split: option.splits)
    from spec_run_sends [OF this] have "spec_run bound (map SendCall xs) ([], False)
        = (map (\<lambda>_. SendAnswer (Inr ())) xs, xs, False)" by simp
    then show ?thesis
      using assms(3,4) spec_run_recvs [where bound = bound and xs = xs and ms = "[]" and d = False]
      by (simp add: spec_run_append)
  qed
qed

end

end
