(* ===== verification/Array_Spec.thy ===== *)
theory Array_Spec
  imports Array_Chan Channel_Contract
begin

text \<open>
  The contract of the bounded channel and the proof that \<open>Array_Chan\<close> keeps it. The
  abstract channel is the list of its messages, oldest first, and whether it is shut
  down; \<open>array_at p h ms d ch\<close> says that the state \<open>ch\<close> holds the messages \<open>ms\<close> at the
  positions \<open>h, h + 1, ...\<close>, and \<open>array_rep\<close> hides the positions. The laps may have
  wrapped around any number of times.
\<close>

unbundle bit_operations_syntax

section \<open>The representation\<close>

definition array_slot_ok :: "nat \<Rightarrow> nat \<Rightarrow> nat \<Rightarrow> 'm list \<Rightarrow> nat \<Rightarrow> 'm slot \<Rightarrow> bool" where
  "array_slot_ok p cap h ms i sl \<longleftrightarrow>
     (if i < length ms then s_stamp sl = enc p cap (h + i) + 1 \<and> s_msg sl = Some (ms ! i)
      else s_stamp sl = enc p cap (h + i))"

definition array_at :: "nat \<Rightarrow> nat \<Rightarrow> 'm list \<Rightarrow> bool \<Rightarrow> ('q, 't, 'm) achan \<Rightarrow> bool" where
  "array_at p h ms d ch \<longleftrightarrow>
     (let cap = length (ac_buffer ch) in
      geom p cap \<and> unat (ac_cap ch) = cap \<and> ac_mark_bit ch = 2 ^ p \<and> ac_one_lap ch = 2 ^ Suc p
      \<and> length ms \<le> cap \<and> ac_head ch = enc p cap h
      \<and> ac_tail ch = (if d then enc p cap (h + length ms) OR 2 ^ p else enc p cap (h + length ms))
      \<and> (\<forall>i < cap. array_slot_ok p cap h ms i (ac_buffer ch ! ((h + i) mod cap))))"

definition array_rep :: "'m list \<Rightarrow> bool \<Rightarrow> ('q, 't, 'm) achan \<Rightarrow> bool" where
  "array_rep ms d ch \<longleftrightarrow> (\<exists>p h. array_at p h ms d ch)"

definition array_size :: "('q, 't, 'm) achan \<Rightarrow> nat" where
  "array_size ch = length (ac_buffer ch)"

lemma array_atD:
  assumes "array_at p h ms d ch" "cap = length (ac_buffer ch)"
  shows "geom p cap" "unat (ac_cap ch) = cap" "ac_mark_bit ch = 2 ^ p" "ac_one_lap ch = 2 ^ Suc p"
    "length ms \<le> cap" "ac_head ch = enc p cap h"
    "ac_tail ch = (if d then enc p cap (h + length ms) OR 2 ^ p else enc p cap (h + length ms))"
    "i < cap \<Longrightarrow> array_slot_ok p cap h ms i (ac_buffer ch ! ((h + i) mod cap))"
  using assms by (auto simp: array_at_def Let_def)

lemma array_at_slot_bound:
  "array_at p h ms d ch \<Longrightarrow> cap = length (ac_buffer ch) \<Longrightarrow> (h + i) mod cap < cap"
  using array_atD(1) [of p h ms d ch cap] geomD(1) by (auto intro: mod_less_divisor)

text \<open>What the masks compute on the stamps of a channel.\<close>

lemma array_at_index:
  assumes "array_at p h ms d ch" "cap = length (ac_buffer ch)"
  shows "stamp_index ch (enc p cap k) = k mod cap"
  by (simp only: stamp_index_def array_atD(3) [OF assms] enc_index [OF array_atD(1) [OF assms]]
      unat_of_nat_index [OF array_atD(1) [OF assms]])

lemma array_at_next_stamp:
  assumes "array_at p h ms d ch" "cap = length (ac_buffer ch)"
  shows "next_stamp ch (enc p cap k) = Done (enc p cap (Suc k))"
proof (cases "k mod cap + 1 < cap")
  case True
  then show ?thesis
    by (simp add: next_stamp_def array_at_index [OF assms] array_atD(2) [OF assms]
        add_chk_enc [OF array_atD(1) [OF assms]] enc_Suc_same_lap [OF array_atD(1) [OF assms]])
next
  case False
  then show ?thesis
    by (simp add: next_stamp_def array_at_index [OF assms] array_atD(2,4) [OF assms] stamp_lap_def
        enc_lap [OF array_atD(1) [OF assms]] enc_Suc_next_lap [OF array_atD(1) [OF assms]]
        del: power_Suc of_nat_add of_nat_mult)
qed

lemma array_at_tail_mark:
  assumes "array_at p h ms d ch"
  shows "ac_tail ch AND ac_mark_bit ch \<noteq> 0 \<longleftrightarrow> d"
    "ac_tail ch AND NOT (ac_mark_bit ch) = enc p (length (ac_buffer ch)) (h + length ms)"
    "ac_tail ch AND (ac_mark_bit ch - 1) = of_nat ((h + length ms) mod length (ac_buffer ch))"
proof -
  note D = array_atD [OF assms refl]
  have w: "ac_tail ch = tail_word p (length (ac_buffer ch)) (h + length ms) d"
    by (simp only: tail_word_def D(7))
  show "ac_tail ch AND ac_mark_bit ch \<noteq> 0 \<longleftrightarrow> d"
    "ac_tail ch AND NOT (ac_mark_bit ch) = enc p (length (ac_buffer ch)) (h + length ms)"
    "ac_tail ch AND (ac_mark_bit ch - 1) = of_nat ((h + length ms) mod length (ac_buffer ch))"
    by (simp_all only: w D(3) tail_word_masks [OF D(1)])
qed

section \<open>Reserving a slot\<close>

lemma start_send_shut:
  assumes "array_at p h ms True ch" "ws \<noteq> []"
  shows "array_start_send ws tok ch = Done (True, \<lparr>tk_slot = None, tk_stamp = 0\<rparr>, ch)"
  using assms(2) array_at_tail_mark(1) [OF assms(1)]
  by (cases ws) (simp_all add: array_start_send_def)

lemma start_send_room:
  assumes at: "array_at p h ms False ch" and cap: "cap = length (ac_buffer ch)"
    and room: "length ms < cap" and ws: "False \<in> set ws"
  shows "array_start_send ws tok ch =
    Done (True, \<lparr>tk_slot = Some ((h + length ms) mod cap), tk_stamp = enc p cap (h + length ms) + 1\<rparr>,
      ch\<lparr>ac_tail := enc p cap (Suc (h + length ms))\<rparr>)"
proof -
  note D = array_atD [OF at cap]
  let ?k = "h + length ms"
  have tail: "ac_tail ch = enc p cap ?k" using D(7) by simp
  have stamp: "s_stamp (ac_buffer ch ! (?k mod cap)) = enc p cap ?k"
    using D(8) [OF room] by (simp add: array_slot_ok_def)
  have idx: "?k mod cap < length (ac_buffer ch)"
    using array_at_slot_bound [OF at cap] cap by simp
  show ?thesis
    unfolding array_start_send_def tail
    using ws
    by (induction ws)
      (auto simp: D(3) enc_and_mark [OF D(1)] array_at_index [OF at cap] idx stamp Let_def
        array_at_next_stamp [OF at cap] add_chk_enc [OF D(1)] tail)
qed

lemma start_send_full:
  assumes at: "array_at p h ms False ch" and cap: "cap = length (ac_buffer ch)"
    and full: "length ms = cap" and ws: "ws \<noteq> []"
  shows "array_start_send ws tok ch = Done (False, tok, ch)"
proof -
  note D = array_atD [OF at cap]
  have c: "0 < cap" using geomD(1) [OF D(1)] .
  have tail: "ac_tail ch = enc p cap (h + cap)" using D(7) full by simp
  have stamp: "s_stamp (ac_buffer ch ! (h mod cap)) = enc p cap h + 1"
    using D(8) [OF c] full c by (simp add: array_slot_ok_def)
  have idx: "h mod cap < length (ac_buffer ch)" using c cap by simp
  have ne: "enc p cap (h + cap) \<noteq> enc p cap h + 1"
    using enc_Suc_neq [OF D(1), of h "h + cap"] by auto
  have lap: "enc p cap h + 2 ^ Suc p = enc p cap (h + cap)"
    "enc p cap h + 1 + 2 ^ Suc p = enc p cap (h + cap) + 1"
    using enc_add_cap [OF D(1), of h] by simp_all
  show ?thesis
    using ws ne
    by (cases ws)
      (auto simp: array_start_send_def tail D(3,4,6) enc_and_mark [OF D(1)] array_at_index [OF at cap]
        idx stamp Let_def add_chk_enc [OF D(1)] lap simp del: power_Suc)
qed

lemma start_recv_some:
  assumes at: "array_at p h ms d ch" and cap: "cap = length (ac_buffer ch)"
    and ne: "ms \<noteq> []" and ws: "False \<in> set ws"
  shows "array_start_recv ws tok ch =
    Done (True, \<lparr>tk_slot = Some (h mod cap), tk_stamp = enc p cap (h + cap)\<rparr>,
      ch\<lparr>ac_head := enc p cap (Suc h)\<rparr>)"
proof -
  note D = array_atD [OF at cap]
  have c: "0 < cap" using geomD(1) [OF D(1)] .
  have stamp: "s_stamp (ac_buffer ch ! (h mod cap)) = enc p cap h + 1"
    using D(8) [OF c] ne by (simp add: array_slot_ok_def)
  have idx: "h mod cap < length (ac_buffer ch)" using c cap by simp
  show ?thesis
    unfolding array_start_recv_def D(6)
    using ws
    by (induction ws)
      (auto simp: array_at_index [OF at cap] idx stamp Let_def D(4,6) array_at_next_stamp [OF at cap]
        add_chk_enc [OF D(1)] enc_add_cap [OF D(1)] simp del: power_Suc)
qed

lemma start_recv_none:
  assumes at: "array_at p h [] d ch" and ws: "ws \<noteq> []"
  shows "array_start_recv ws tok ch =
    Done (if d then (True, \<lparr>tk_slot = None, tk_stamp = 0\<rparr>, ch) else (False, tok, ch))"
proof -
  define cap where "cap = length (ac_buffer ch)"
  note D = array_atD [OF at cap_def]
  have c: "0 < cap" using geomD(1) [OF D(1)] .
  have stamp: "s_stamp (ac_buffer ch ! (h mod cap)) = enc p cap h"
    using D(8) [OF c] by (simp add: array_slot_ok_def)
  have idx: "h mod cap < length (ac_buffer ch)" using c cap_def by simp
  note T = array_at_tail_mark [OF at, folded cap_def]
  show ?thesis
    using ws
    by (cases ws)
      (auto simp: array_start_recv_def array_at_index [OF at cap_def] idx stamp Let_def D(6) T
        add_chk_enc [OF D(1)])
qed

section \<open>Writing and reading keep the representation\<close>

lemma array_at_frame [simp]:
  "array_at p h ms d (ch\<lparr>ac_senders := w\<rparr>) = array_at p h ms d ch"
  "array_at p h ms d (ch\<lparr>ac_receivers := w\<rparr>) = array_at p h ms d ch"
  "array_at p h ms d (ch\<lparr>ac_first := b\<rparr>) = array_at p h ms d ch"
  by (simp_all add: array_at_def)

lemma array_at_send:
  assumes at: "array_at p h ms False ch" and cap: "cap = length (ac_buffer ch)"
    and room: "length ms < cap"
  shows "array_at p h (ms @ [m]) False
    (ch\<lparr>ac_tail := enc p cap (Suc (h + length ms)),
        ac_buffer := (ac_buffer ch)[(h + length ms) mod cap :=
          \<lparr>s_stamp = enc p cap (h + length ms) + 1, s_msg = Some m\<rparr>],
        ac_receivers := w\<rparr>)"
proof -
  note D = array_atD [OF at cap]
  have idx: "(h + length ms) mod cap < length (ac_buffer ch)"
    using array_at_slot_bound [OF at cap] cap by simp
  have "array_slot_ok p cap h (ms @ [m]) i
      ((ac_buffer ch)[(h + length ms) mod cap :=
        \<lparr>s_stamp = enc p cap (h + length ms) + 1, s_msg = Some m\<rparr>] ! ((h + i) mod cap))"
    if "i < cap" for i
    using D(8) [OF that] idx mod_window_add [OF room that, of h]
    by (auto simp: array_slot_ok_def nth_list_update nth_append)
  with D room cap show ?thesis by (simp add: array_at_def Let_def del: power_Suc)
qed

lemma array_at_recv:
  assumes at: "array_at p h (m # ms) d ch" and cap: "cap = length (ac_buffer ch)"
  shows "array_at p (Suc h) ms d
    (ch\<lparr>ac_head := enc p cap (Suc h),
        ac_buffer := (ac_buffer ch)[h mod cap :=
          (ac_buffer ch ! (h mod cap))\<lparr>s_stamp := enc p cap (h + cap)\<rparr>],
        ac_senders := w\<rparr>)"
    and "s_msg (ac_buffer ch ! (h mod cap)) = Some m"
proof -
  note D = array_atD [OF at cap]
  have c: "0 < cap" using geomD(1) [OF D(1)] .
  have idx: "h mod cap < length (ac_buffer ch)" using c cap by simp
  show "s_msg (ac_buffer ch ! (h mod cap)) = Some m"
    using D(8) [OF c] by (simp add: array_slot_ok_def)
  have "array_slot_ok p cap (Suc h) ms i
      ((ac_buffer ch)[h mod cap := (ac_buffer ch ! (h mod cap))\<lparr>s_stamp := enc p cap (h + cap)\<rparr>]
        ! ((Suc h + i) mod cap))" if i: "i < cap" for i
  proof (cases "Suc i < cap")
    case True
    have "(h + Suc i) mod cap \<noteq> h mod cap"
      using mod_window_add [OF True c, of h] by simp
    then have "(ac_buffer ch)[h mod cap := (ac_buffer ch ! (h mod cap))\<lparr>s_stamp := enc p cap (h + cap)\<rparr>]
        ! ((Suc h + i) mod cap) = ac_buffer ch ! ((h + Suc i) mod cap)"
      by (metis add_Suc_right add_Suc_shift nth_list_update_neq)
    with D(8) [OF True] show ?thesis by (simp add: array_slot_ok_def)
  next
    case False
    with i have "Suc i = cap" by simp
    then have eq: "Suc h + i = h + cap" and "\<not> i < length ms" using D(5) by simp_all
    moreover have "(h + cap) mod cap = h mod cap" by simp
    ultimately show ?thesis using idx by (simp only: array_slot_ok_def eq if_False) simp
  qed
  with D cap show "array_at p (Suc h) ms d
    (ch\<lparr>ac_head := enc p cap (Suc h),
        ac_buffer := (ac_buffer ch)[h mod cap :=
          (ac_buffer ch ! (h mod cap))\<lparr>s_stamp := enc p cap (h + cap)\<rparr>],
        ac_senders := w\<rparr>)"
    by (simp add: array_at_def Let_def del: power_Suc)
qed

section \<open>The calls refine the abstract queue\<close>

text \<open>
  \<open>array_wakers_ok\<close>: both task queues satisfy their invariant, which the calls that
  register a task or wake all tasks need.
\<close>

definition array_wakers_ok ::
    "('q \<Rightarrow> 't list) \<Rightarrow> ('q \<Rightarrow> nat) \<Rightarrow> ('q, 't, 'm) achan \<Rightarrow> bool" where
  "array_wakers_ok contents qcap ch \<longleftrightarrow>
     sw_ok contents qcap (ac_senders ch) \<and> sw_ok contents qcap (ac_receivers ch)"

lemma array_write_reserved:
  assumes "i < length (ac_buffer ch)"
  shows "array_write Q \<lparr>tk_slot = Some i, tk_stamp = st\<rparr> m ch =
    Done (Inr (), ch\<lparr>ac_buffer := (ac_buffer ch)[i := \<lparr>s_stamp = st, s_msg = Some m\<rparr>],
      ac_receivers := wake Q (ac_receivers ch)\<rparr>)"
  using assms by (simp add: array_write_def)

lemma try_send_open_room:
  assumes at: "array_at p h ms False ch" and room: "length ms < array_size ch" and fair: "fair sp"
  obtains ch' where "array_try_send Q sp cur m ch = Done (Inr (), ch')"
    "array_at p h (ms @ [m]) False ch'" "array_size ch' = array_size ch"
    "ac_senders ch' = ac_senders ch" "ac_receivers ch' = wake Q (ac_receivers ch)"
proof -
  define cap where "cap = length (ac_buffer ch)"
  have room': "length ms < cap" using room by (simp add: array_size_def cap_def)
  note S = start_send_room [OF at cap_def room' fairD [OF fair], of 0 array_default]
  have idx: "(h + length ms) mod cap < length (ac_buffer ch)"
    using array_at_slot_bound [OF at cap_def] cap_def by simp
  show thesis
    by (rule that [OF _ array_at_send [OF at cap_def room']])
      (use S idx in \<open>simp_all add: array_try_send_def array_write_reserved array_size_def\<close>)
qed

lemma try_send_closed:
  assumes "array_at p h ms True ch" "fair sp"
  shows "array_try_send Q sp cur m ch = Done (Inl \<lparr>tse_kind = Closed, tse_value = m\<rparr>, ch)"
proof -
  have "sp 0 \<noteq> []" using fairD [OF assms(2), of 0] by auto
  from start_send_shut [OF assms(1) this] show ?thesis
    by (simp add: array_try_send_def array_write_def)
qed

lemma try_send_full:
  assumes at: "array_at p h ms False ch" and full: "length ms = array_size ch" and fair: "fair sp"
  shows "array_try_send Q sp cur m ch =
    omap (\<lambda>w. (Inl \<lparr>tse_kind = NoCapacity, tse_value = m\<rparr>, ch\<lparr>ac_senders := w\<rparr>))
      (register Q (sp 1) cur (ac_senders ch))"
proof -
  have "sp 0 \<noteq> []" using fairD [OF fair, of 0] by auto
  from start_send_full [OF at refl _ this] full show ?thesis
    by (simp add: array_try_send_def omap_def array_size_def)
qed

lemma array_size_le: "array_at p h ms d ch \<Longrightarrow> length ms \<le> array_size ch"
  by (simp add: array_at_def Let_def array_size_def)

lemma try_send_refines:
  assumes rep: "array_rep ms d ch" and laws: "aq_laws Q contents qcap"
    and wok: "array_wakers_ok contents qcap ch" and fair: "fair sp"
  shows "\<exists>r ms' ch'. spec_try_send (Some (array_size ch)) m ms d = (r, ms')
    \<and> array_try_send Q sp (Some t) m ch = Done (r, ch')
    \<and> array_rep ms' d ch' \<and> array_size ch' = array_size ch \<and> array_wakers_ok contents qcap ch'"
proof -
  obtain p h where at: "array_at p h ms d ch" using rep by (auto simp: array_rep_def)
  show ?thesis
  proof (cases d)
    case True
    then show ?thesis
      using try_send_closed [of p h ms ch sp Q "Some t" m] at fair rep wok
      by (auto simp: spec_try_send_def)
  next
    case False
    with at have at': "array_at p h ms False ch" by simp
    show ?thesis
    proof (cases "length ms < array_size ch")
      case True
      then obtain ch' where "array_try_send Q sp (Some t) m ch = Done (Inr (), ch')"
        "array_at p h (ms @ [m]) False ch'" "array_size ch' = array_size ch"
        "ac_senders ch' = ac_senders ch" "ac_receivers ch' = wake Q (ac_receivers ch)"
        using try_send_open_room [OF at' _ fair] by metis
      then show ?thesis
        using \<open>\<not> d\<close> True wok wake_ok [OF laws]
        by (auto simp: spec_try_send_def array_rep_def array_wakers_ok_def)
    next
      case full: False
      then have len: "length ms = array_size ch" using array_size_le [OF at] by simp
      have "sw_ok contents qcap (ac_senders ch)" using wok by (simp add: array_wakers_ok_def)
      then obtain w where "register Q (sp 1) (Some t) (ac_senders ch) = Done w"
        "sw_ok contents qcap w"
        using register_total [OF laws _ fairD [OF fair]] by metis
      then show ?thesis
        using try_send_full [OF at' len fair, of Q "Some t" m] \<open>\<not> d\<close> full wok at'
        by (auto simp: spec_try_send_def array_rep_def array_wakers_ok_def array_size_def)
    qed
  qed
qed

lemma read_reserved:
  fixes Q :: "('q, 't) aq_ops" and ch :: "('q, 't, 'm) achan"
  assumes at: "array_at p h (m # ms) d ch" and cap: "cap = length (ac_buffer ch)"
  defines "ch1 \<equiv> ch\<lparr>ac_head := enc p cap (Suc h)\<rparr>"
  defines "ch2 \<equiv> ch\<lparr>ac_head := enc p cap (Suc h),
        ac_buffer := (ac_buffer ch)[h mod cap :=
          (ac_buffer ch ! (h mod cap))\<lparr>s_stamp := enc p cap (h + cap)\<rparr>],
        ac_senders := wake Q (ac_senders ch)\<rparr>"
  shows "array_read Q \<lparr>tk_slot = Some (h mod cap), tk_stamp = enc p cap (h + cap)\<rparr> ch1
      = Done (Inr m, ch2)"
    and "array_poll_read Q \<lparr>tk_slot = Some (h mod cap), tk_stamp = enc p cap (h + cap)\<rparr> ch1
      = Done (Inr (Ready (Some m)), ch2)"
proof -
  have "0 < cap" using geomD(1) array_atD(1) [OF at cap] .
  then have idx: "h mod cap < length (ac_buffer ch)" using cap by simp
  note msg = array_at_recv(2) [OF at cap]
  show "array_read Q \<lparr>tk_slot = Some (h mod cap), tk_stamp = enc p cap (h + cap)\<rparr> ch1 = Done (Inr m, ch2)"
    "array_poll_read Q \<lparr>tk_slot = Some (h mod cap), tk_stamp = enc p cap (h + cap)\<rparr> ch1
      = Done (Inr (Ready (Some m)), ch2)"
    using idx msg by (simp_all add: array_read_def array_poll_read_def ch1_def ch2_def)
qed

lemma try_recv_refines:
  assumes rep: "array_rep ms d ch" and fair: "fair sp"
  shows "\<exists>r ms' ch'. spec_try_recv ms d = (r, ms')
    \<and> array_try_recv Q sp ch = Done (r, ch')
    \<and> array_rep ms' d ch' \<and> array_size ch' = array_size ch
    \<and> ac_receivers ch' = ac_receivers ch
    \<and> ac_senders ch' = (if ms = [] then ac_senders ch else wake Q (ac_senders ch))"
proof -
  obtain p h where at: "array_at p h ms d ch" using rep by (auto simp: array_rep_def)
  have ne: "sp 0 \<noteq> []" using fairD [OF fair, of 0] by auto
  show ?thesis
  proof (cases ms)
    case Nil
    with start_recv_none [of p h d ch, OF _ ne, of array_default] at rep show ?thesis
      by (auto simp: spec_try_recv_def array_try_recv_def array_read_def split: if_splits)
  next
    case (Cons m ms')
    note at' = at [unfolded Cons]
    note S = start_recv_some [OF at' refl _ fairD [OF fair], of 0 array_default]
    show ?thesis
      using S read_reserved(1) [OF at' refl, of Q] array_at_recv(1) [OF at' refl, of "wake Q (ac_senders ch)"]
      by (auto simp: Cons spec_try_recv_def array_try_recv_def array_rep_def array_size_def)
  qed
qed

section \<open>Construction\<close>

lemma bit_len_bounds:
  "n < 2 ^ bit_len n" "0 < n \<Longrightarrow> 2 ^ (bit_len n - 1) \<le> n"
proof (induction n rule: bit_len.induct)
  case (1 n)
  {
    case 1
    show ?case
    proof (cases "n = 0")
      case False
      then have "n div 2 < 2 ^ bit_len (n div 2)" using "1.IH"(1) by simp
      then have "n < 2 * 2 ^ bit_len (n div 2)" by linarith
      with False show ?thesis by (simp add: bit_len.simps [of n])
    qed (simp add: bit_len.simps)
  next
    case 2
    then show ?case
    proof (cases "n = 1")
      case True
      then show ?thesis by (simp add: bit_len.simps)
    next
      case False
      with 2 have pos: "0 < n div 2" "n \<noteq> 0" by simp_all
      then have "2 ^ (bit_len (n div 2) - 1) \<le> n div 2" using "1.IH"(2) by simp
      then have "2 * 2 ^ (bit_len (n div 2) - 1) \<le> n" by linarith
      moreover have "bit_len (n div 2) \<noteq> 0" using pos(1) by (simp add: bit_len.simps [of "n div 2"])
      ultimately show ?thesis
        using pos(2) by (cases "bit_len (n div 2)") (simp_all add: bit_len.simps [of n])
    qed
  }
qed

text \<open>
  The constants of a channel whose buffer can be allocated: the mark bit is a power of two
  above the capacity, and there is room above it for the laps.
\<close>

lemma with_capacity_done:
  assumes "0 < cap" "8 \<le> slot_size" "unat cap * slot_size \<le> 2 ^ 63 - 1"
  obtains p where "geom p (unat cap)"
    "with_capacity Q slot_size cap = Done \<lparr>ac_head = 0, ac_tail = 0,
            ac_buffer = map (\<lambda>i. \<lparr>s_stamp = of_nat i, s_msg = None\<rparr>) [0..<unat cap],
            ac_cap = cap, ac_one_lap = 2 ^ Suc p, ac_mark_bit = 2 ^ p,
            ac_senders = swaker_new Q, ac_receivers = swaker_new Q, ac_first = True\<rparr>"
proof -
  have pos: "0 < unat cap" using assms(1) by (simp add: word_less_nat_alt)
  have "unat cap * 8 \<le> 2 ^ 63 - 1"
    using assms(2,3) mult_le_mono2 [of 8 slot_size "unat cap"] by linarith
  then have small: "unat cap < 2 ^ 60" by simp
  let ?p = "bit_len (unat cap)"
  have up: "unat cap < 2 ^ ?p" and low: "2 ^ (?p - 1) \<le> unat cap"
    using bit_len_bounds [of "unat cap"] pos by simp_all
  from low small have "(2 :: nat) ^ (?p - 1) < 2 ^ 60" by linarith
  then have p: "?p \<le> 60" using power_less_imp_less_exp [of "2 :: nat" "?p - 1" 60] by linarith
  have c1: "add_chk cap 1 = Done (cap + 1)" "unat (cap + 1) = unat cap + 1"
    using small by (auto simp: add_chk_def unat_word_ariths)
  have np: "next_power_of_two (cap + 1) = Done (2 ^ ?p)"
    using pos p by (simp add: next_power_of_two_def c1(2))
  have "unat (2 ^ ?p :: usize) = 2 ^ ?p" using p by (intro unat_exp_64) simp
  moreover have "(2 :: nat) ^ ?p * 2 \<le> 2 ^ 61"
    using power_increasing [of "Suc ?p" 61 "2 :: nat"] p by simp
  ultimately have ol: "mul_chk (2 ^ ?p) 2 = Done (2 ^ Suc ?p)"
    by (simp add: mul_chk_def mult.commute)
  show thesis
  proof (rule that [of ?p])
    show "geom ?p (unat cap)" using pos up p by (simp add: geom_def)
    show "with_capacity Q slot_size cap = Done \<lparr>ac_head = 0, ac_tail = 0,
            ac_buffer = map (\<lambda>i. \<lparr>s_stamp = of_nat i, s_msg = None\<rparr>) [0..<unat cap],
            ac_cap = cap, ac_one_lap = 2 ^ Suc ?p, ac_mark_bit = 2 ^ ?p,
            ac_senders = swaker_new Q, ac_receivers = swaker_new Q, ac_first = True\<rparr>"
      using assms(1,3) pos by (auto simp: with_capacity_def c1(1) np ol simp del: power_Suc)
  qed
qed

lemma with_capacity_rep:
  fixes Q :: "('q, 't) aq_ops"
  assumes "0 < cap" "8 \<le> slot_size" "unat cap * slot_size \<le> 2 ^ 63 - 1"
    and laws: "aq_laws Q contents qcap"
  obtains ch :: "('q, 't, 'm) achan" where "with_capacity Q slot_size cap = Done ch" "array_rep [] False ch"
    "array_size ch = unat cap" "array_wakers_ok contents qcap ch" "ac_first ch"
proof -
  obtain p where g: "geom p (unat cap)" and new: "with_capacity Q slot_size cap
      = (Done :: ('q, 't, 'm) achan \<Rightarrow> _) \<lparr>ac_head = 0, ac_tail = 0,
            ac_buffer = map (\<lambda>i. \<lparr>s_stamp = of_nat i, s_msg = None\<rparr>) [0..<unat cap],
            ac_cap = cap, ac_one_lap = 2 ^ Suc p, ac_mark_bit = 2 ^ p,
            ac_senders = swaker_new Q, ac_receivers = swaker_new Q, ac_first = True\<rparr>"
    using with_capacity_done [OF assms(1-3)] by metis
  have stamp: "enc p (unat cap) i = of_nat i" if "i < unat cap" for i
    using that by (simp add: enc_def pos_def)
  show thesis
  proof (rule that [OF new])
    let ?ch = "\<lparr>ac_head = 0, ac_tail = 0,
            ac_buffer = map (\<lambda>i. \<lparr>s_stamp = of_nat i, s_msg = None\<rparr>) [0..<unat cap],
            ac_cap = cap, ac_one_lap = 2 ^ Suc p, ac_mark_bit = 2 ^ p,
            ac_senders = swaker_new Q, ac_receivers = swaker_new Q, ac_first = True\<rparr>
      :: ('q, 't, 'm) achan"
    have "array_at p 0 [] False ?ch"
      using g stamp by (simp add: array_at_def Let_def array_slot_ok_def)
    then show "array_rep [] False ?ch" by (auto simp only: array_rep_def)
  qed (simp_all add: array_size_def array_wakers_ok_def swaker_new_ok [OF laws])
qed

lemma with_capacity_zero: "with_capacity Q slot_size 0 = Panic"
  by (simp add: with_capacity_def)

section \<open>Counting\<close>

lemma array_len_of_words:
  assumes g: "geom p cap" and ch: "unat (ac_cap ch) = cap" "ac_mark_bit ch = 2 ^ p" and n: "n \<le> cap"
  shows "array_len_of ch (tail_word p cap (h + n) d) (enc p cap h) = Done (of_nat n)"
    "unat (of_nat n :: usize) = n"
proof -
  have c: "0 < cap" using geomD(1) [OF g] .
  have g64: "unat (of_nat x :: usize) = x" if "x \<le> cap" for x
  proof -
    have "(2 :: nat) ^ p \<le> 2 ^ 64" using geomD(3) [OF g] by (intro power_increasing) simp_all
    then have "x < 2 ^ 64" using that geomD(2) [OF g] by linarith
    then show ?thesis by (simp only: unat_of_nat_64 mod_less)
  qed
  show "unat (of_nat n :: usize) = n" using g64 [OF n] .
  let ?h = "h mod cap" and ?t = "(h + n) mod cap"
  have lt: "?h < cap" "?t < cap" using c by simp_all
  note T = tail_word_masks [OF g]
  have cmp: "(of_nat ?h :: usize) < of_nat ?t \<longleftrightarrow> ?h < ?t" "(of_nat ?t :: usize) < of_nat ?h \<longleftrightarrow> ?t < ?h"
    using g64 [of ?h] g64 [of ?t] lt by (simp_all add: word_less_nat_alt)
  have capw: "ac_cap ch = of_nat cap" by (simp flip: ch(1))
  have t: "?t = (if ?h + n < cap then ?h + n else ?h + n - cap)"
    using mod_add_le [OF c n] .
  have sub: "sub_chk (of_nat x) (of_nat y) = Done (of_nat (x - y))" if "y \<le> x" "x \<le> cap" for x y
    using that g64 [of x] g64 [of y] by (simp add: sub_chk_def word_le_nat_alt of_nat_diff)
  have add: "add_chk (of_nat x) (of_nat y) = Done (of_nat (x + y))" if "x + y \<le> cap" for x y
    using that g64 [of x] g64 [of y] g64 [of "x + y"] unat_lt_64 [of "of_nat (x + y)"]
    by (simp add: add_chk_def)
  consider "?h < ?t" | "?t < ?h" | "?h = ?t" by linarith
  then show "array_len_of ch (tail_word p cap (h + n) d) (enc p cap h) = Done (of_nat n)"
  proof cases
    case 1
    then have "?t - ?h = n" using t n by (simp split: if_splits)
    with 1 lt sub [of ?h ?t] show ?thesis
      by (simp add: array_len_of_def ch(2) T enc_index [OF g] cmp)
  next
    case 2
    then have "cap - ?h + ?t = n" using t lt n by (simp split: if_splits)
    with 2 lt sub [of ?h cap] add [of "cap - ?h" ?t] n show ?thesis
      by (simp add: array_len_of_def ch(2) T enc_index [OF g] cmp capw)
  next
    case 3
    then have "n = 0 \<or> n = cap" using t n lt by (simp split: if_splits)
    then show ?thesis
      using 3 enc_add_cap_neq [OF g, of h] capw
      by (auto simp: array_len_of_def ch(2) T enc_index [OF g])
  qed
qed

lemma array_len_correct:
  assumes rep: "array_rep ms d ch"
  shows "array_len ch = Done (of_nat (length ms))" "unat (of_nat (length ms) :: usize) = length ms"
proof -
  obtain p h where at: "array_at p h ms d ch" using rep by (auto simp: array_rep_def)
  note D = array_atD [OF at refl]
  show "array_len ch = Done (of_nat (length ms))"
    using array_len_of_words(1) [OF D(1,2,3,5)] by (simp add: array_len_def D(6,7) flip: tail_word_def)
  show "unat (of_nat (length ms) :: usize) = length ms"
    using array_len_of_words(2) [OF D(1,2,3,5)] .
qed

lemma array_is_full_correct:
  assumes "array_rep ms d ch"
  shows "array_is_full ch \<longleftrightarrow> length ms = array_size ch"
proof -
  obtain p h where at: "array_at p h ms d ch" using assms by (auto simp: array_rep_def)
  define cap where "cap = length (ac_buffer ch)"
  note D = array_atD [OF at cap_def] and T = array_at_tail_mark [OF at, folded cap_def]
  have "array_is_full ch \<longleftrightarrow> enc p cap (h + cap) = enc p cap (h + length ms)"
    by (simp only: array_is_full_def D(4,6) T(2) enc_add_cap [OF D(1)])
  also have "\<dots> \<longleftrightarrow> length ms = cap"
  proof
    assume eq: "enc p cap (h + cap) = enc p cap (h + length ms)"
    show "length ms = cap"
    proof (rule ccontr)
      assume "length ms \<noteq> cap"
      with D(5) have lt: "length ms < cap" by simp
      have "(h + cap) mod cap = (h + length ms) mod cap"
        using arg_cong [OF eq, of "\<lambda>w. unat w mod 2 ^ p"] by (simp only: unat_enc_mod [OF D(1)])
      then have "(h + 0) mod cap = (h + length ms) mod cap" by simp
      with mod_window_add [OF _ lt, of 0 h] geomD(1) [OF D(1)] have "length ms = 0" by simp
      with eq enc_add_cap_neq [OF D(1), of h] show False by simp
    qed
  qed simp
  finally show ?thesis by (simp add: array_size_def cap_def)
qed

lemma array_is_shutdown_correct: "array_rep ms d ch \<Longrightarrow> array_is_shutdown ch = d"
  by (metis array_at_tail_mark(1) array_rep_def array_is_shutdown_def)

text \<open>
  \<open>is_empty\<close> keeps the mark bit of the tail where it should clear it, so its answer has
  little to do with emptiness: on an open channel it says whether the head is at
  position zero of lap zero.
\<close>

lemma array_is_empty_open:
  assumes "array_at p h ms False ch"
  shows "array_is_empty ch \<longleftrightarrow> ac_head ch = 0"
  using array_at_tail_mark(1) [OF assms] by (auto simp: array_is_empty_def)

section \<open>Shutting down and dropping\<close>

lemma array_shutdown_refines:
  assumes rep: "array_rep ms d ch" and laws: "aq_laws Q contents qcap"
    and wok: "array_wakers_ok contents qcap ch"
  obtains ch' where "array_shutdown Q ch = Done (\<not> d, ch')" "array_rep ms True ch'"
    "array_size ch' = array_size ch" "array_wakers_ok contents qcap ch'"
    "\<not> d \<Longrightarrow> w_log (ac_senders ch') = w_log (ac_senders ch) @ contents (w_queue (ac_senders ch))
      \<and> w_log (ac_receivers ch') = w_log (ac_receivers ch) @ contents (w_queue (ac_receivers ch))
      \<and> contents (w_queue (ac_senders ch')) = [] \<and> contents (w_queue (ac_receivers ch')) = []"
proof -
  obtain p h where at: "array_at p h ms d ch" using rep by (auto simp: array_rep_def)
  note D = array_atD [OF at refl]
  let ?ch = "ch\<lparr>ac_tail := ac_tail ch OR ac_mark_bit ch\<rparr>"
  have at': "array_at p h ms True ?ch"
    using at D(3) by (auto simp: array_at_def Let_def or_exp_twice)
  show thesis
  proof (cases d)
    case True
    then have "array_shutdown Q ch = Done (False, ?ch)"
      using array_at_tail_mark(1) [OF at] by (simp add: array_shutdown_def Let_def)
    with True at' wok show thesis
      by (intro that [of ?ch]) (auto simp: array_rep_def array_size_def array_wakers_ok_def)
  next
    case False
    have ok: "sw_ok contents qcap (ac_senders ch)" "sw_ok contents qcap (ac_receivers ch)"
      using wok by (simp_all add: array_wakers_ok_def)
    obtain s where s: "wake_all Q (ac_senders ch) = Done s" "sw_ok contents qcap s"
      "contents (w_queue s) = []" "w_log s = w_log (ac_senders ch) @ contents (w_queue (ac_senders ch))"
      using wake_all_spec [OF laws ok(1)] by metis
    obtain r where r: "wake_all Q (ac_receivers ch) = Done r" "sw_ok contents qcap r"
      "contents (w_queue r) = []" "w_log r = w_log (ac_receivers ch) @ contents (w_queue (ac_receivers ch))"
      using wake_all_spec [OF laws ok(2)] by metis
    have "array_shutdown Q ch = Done (True, ?ch\<lparr>ac_senders := s, ac_receivers := r\<rparr>)"
      using False array_at_tail_mark(1) [OF at] s r by (simp add: array_shutdown_def Let_def)
    with False at' s r show thesis
      by (intro that [of "?ch\<lparr>ac_senders := s, ac_receivers := r\<rparr>"])
        (auto simp: array_rep_def array_size_def array_wakers_ok_def)
  qed
qed

lemma array_drop_loop_spec:
  assumes at: "array_at p h ms d ch" and cap: "cap = length (ac_buffer ch)"
    and "set is \<subseteq> {..<length ms}"
  shows "array_drop_loop ch (h mod cap) is = Done (map ((!) ms) is)"
  using assms(3)
proof (induction "is")
  case Nil
  then show ?case by simp
next
  case (Cons i "is")
  note D = array_atD [OF at cap]
  have c: "0 < cap" using geomD(1) [OF D(1)] .
  from Cons.prems D(5) have i: "i < length ms" "i < cap" by simp_all
  have "(if h mod cap + i < unat (ac_cap ch) then h mod cap + i else h mod cap + i - unat (ac_cap ch))
      = (h + i) mod cap"
    using mod_add_le [OF c less_imp_le [OF i(2)], of h] D(2) by simp
  moreover have "s_msg (ac_buffer ch ! ((h + i) mod cap)) = Some (ms ! i)"
    using D(8) [OF i(2)] i(1) by (simp add: array_slot_ok_def)
  moreover have "(h + i) mod cap < length (ac_buffer ch)" using array_at_slot_bound [OF at cap] cap by simp
  ultimately show ?case using Cons by (simp add: Let_def)
qed

lemma array_drop_correct:
  assumes "array_rep ms d ch"
  shows "array_drop ch = Done ms"
proof -
  obtain p h where at: "array_at p h ms d ch" using assms by (auto simp: array_rep_def)
  have "array_drop_loop ch (h mod length (ac_buffer ch)) [0..<length ms] = Done ms"
    using array_drop_loop_spec [OF at refl, of "[0..<length ms]"] by (simp add: map_nth atLeast0LessThan)
  then show ?thesis
    using array_len_correct [OF assms] array_at_index [OF at refl, of h] array_atD(6) [OF at refl]
    by (simp add: array_drop_def)
qed

section \<open>Polling\<close>

lemma array_poll_message:
  assumes rep: "array_rep (m # ms) d ch" and fair: "fair sp"
  shows "\<exists>ch'. array_poll Q sp cur ch = Done (Inr (Ready (Some m)), ch') \<and> array_rep ms d ch'
    \<and> array_size ch' = array_size ch"
proof -
  obtain p h where at: "array_at p h (m # ms) d ch" using rep by (auto simp: array_rep_def)
  note S = start_recv_some [OF at refl _ fairD [OF fair], of 0 array_default]
  show ?thesis
    using S read_reserved(2) [OF at refl, of Q] array_at_recv(1) [OF at refl, of "wake Q (ac_senders ch)"]
    by (auto simp: array_poll_def array_rep_def array_size_def)
qed

lemma array_poll_shut:
  assumes rep: "array_rep [] True ch" and fair: "fair sp"
  shows "array_poll Q sp cur ch = Done (Inr (Ready None), ch)"
proof -
  have "sp 0 \<noteq> []" using fairD [OF fair, of 0] by auto
  with start_recv_none [of _ _ True ch "sp 0" array_default] rep show ?thesis
    by (auto simp: array_poll_def array_rep_def array_poll_read_def)
qed

text \<open>
  On an empty open channel \<open>poll\<close> answers \<open>NotReady\<close>. Its task is registered only when
  this is the first poll of the channel or a notification is outstanding (\<open>from_me\<close>);
  otherwise the call changes nothing.
\<close>

lemma array_poll_pending_unregistered:
  assumes rep: "array_rep [] False ch" and fair: "fair sp"
    and "\<not> ac_first ch" "w_from_me (ac_receivers ch) = 0"
  shows "array_poll Q sp cur ch = Done (Inr NotReady, ch)"
proof -
  have "sp 0 \<noteq> []" using fairD [OF fair, of 0] by auto
  with start_recv_none [of _ _ False ch "sp 0" array_default] assms show ?thesis
    by (auto simp: array_poll_def array_rep_def)
qed

lemma array_poll_again_empty:
  assumes rep: "array_rep [] False ch" and fair: "fair sp"
    and reg: "register Q (sp 1) cur (ac_receivers ch) = Done w"
  shows "array_poll_again Q sp cur tok ch = Done (Inr NotReady, ch\<lparr>ac_receivers := w\<rparr>)"
proof -
  have "sp 2 \<noteq> []" using fairD [OF fair, of 2] by auto
  moreover obtain p h where "array_at p h [] False (ch\<lparr>ac_receivers := w\<rparr>)"
    using rep by (auto simp: array_rep_def)
  ultimately show ?thesis
    using start_recv_none [of p h False "ch\<lparr>ac_receivers := w\<rparr>" "sp 2" tok] reg
    by (simp add: array_poll_again_def)
qed

lemma array_poll_pending_registers:
  assumes rep: "array_rep [] False ch" and laws: "aq_laws Q contents qcap"
    and wok: "array_wakers_ok contents qcap ch" and fair: "fair sp"
    and "ac_first ch \<or> w_from_me (ac_receivers ch) > 0"
  obtains v w where "array_poll Q sp (Some t) ch = Done (Inr NotReady, ch\<lparr>ac_first := False, ac_receivers := w\<rparr>)"
    "register Q (sp 1) (Some t) v = Done w" "sw_ok contents qcap w"
    "v = (if ac_first ch then ac_receivers ch
          else (ac_receivers ch)\<lparr>w_from_me := w_from_me (ac_receivers ch) - 1\<rparr>)"
proof -
  let ?v = "if ac_first ch then ac_receivers ch
          else (ac_receivers ch)\<lparr>w_from_me := w_from_me (ac_receivers ch) - 1\<rparr>"
  have "sw_ok contents qcap ?v" using wok by (simp add: array_wakers_ok_def sw_ok_def)
  then obtain w where w: "register Q (sp 1) (Some t) ?v = Done w" "sw_ok contents qcap w"
    using register_total [OF laws _ fairD [OF fair]] by metis
  have ne: "sp 0 \<noteq> []" using fairD [OF fair, of 0] by auto
  obtain p h where at: "array_at p h [] False ch" using rep by (auto simp: array_rep_def)
  note S = start_recv_none [OF at ne, of array_default]
  have rep': "array_rep [] False (ch\<lparr>ac_first := False\<rparr>)" "array_rep [] False (ch\<lparr>ac_receivers := u\<rparr>)" for u
    using at by (auto simp: array_rep_def)
  have "array_poll Q sp (Some t) ch = Done (Inr NotReady, ch\<lparr>ac_first := False, ac_receivers := w\<rparr>)"
  proof (cases "ac_first ch")
    case True
    with w array_poll_again_empty [OF rep'(1) fair, of Q "Some t" w array_default] show ?thesis
      by (simp add: array_poll_def S)
  next
    case False
    with assms(5) have "w_from_me (ac_receivers ch) > 0" by simp
    with False w array_poll_again_empty [OF rep'(2) fair, of Q "Some t" ?v w array_default] show ?thesis
      by (simp add: array_poll_def S positive_update_fair [OF fairD [OF fair]])
  qed
  with w show thesis by (intro that [of w ?v]) simp_all
qed

end
