(* ===== verification/Array_Props.thy ===== *)
theory Array_Props
  imports Array_Spec
begin

text \<open>
  The bounded channel as an implementation of the channel contract, and its properties: the
  interpretation of the interfaces on the model's operations, then the claims with a
  concrete instance each.
\<close>

unbundle bit_operations_syntax

section \<open>The contract\<close>

definition array_contract ::
    "('q, 't) aq_ops \<Rightarrow> ('q \<Rightarrow> 't list) \<Rightarrow> ('q \<Rightarrow> nat) \<Rightarrow> nat
     \<Rightarrow> 'm list \<Rightarrow> bool \<Rightarrow> ('q, 't, 'm) achan \<Rightarrow> bool" where
  "array_contract Q contents qcap n ms d ch \<longleftrightarrow>
     aq_laws Q contents qcap \<and> array_rep ms d ch \<and> array_size ch = n
     \<and> array_wakers_ok contents qcap ch"

text \<open>A call's environment: its oracle and the running task.\<close>

definition good_env :: "weak \<times> 't \<Rightarrow> bool" where
  "good_env e \<longleftrightarrow> fair (fst e)"

definition array_snd :: "('q, 't) aq_ops \<Rightarrow> weak \<times> 't \<Rightarrow> 'm \<Rightarrow> ('q, 't, 'm) achan
    \<Rightarrow> (('m try_send_error + unit) \<times> ('q, 't, 'm) achan) outcome" where
  "array_snd Q e m ch = array_try_send Q (fst e) (Some (snd e)) m ch"

definition array_rcv :: "('q, 't) aq_ops \<Rightarrow> weak \<times> 't \<Rightarrow> ('q, 't, 'm) achan
    \<Rightarrow> ((try_recv_error + 'm) \<times> ('q, 't, 'm) achan) outcome" where
  "array_rcv Q e ch = array_try_recv Q (fst e) ch"

interpretation bounded: fifo_channel "array_contract Q contents qcap n" "array_shutdown Q"
  array_is_shutdown "Some n" None "\<lambda>_. True" good_env "array_snd Q" "array_rcv Q"
  for Q :: "('q, 't) aq_ops" and contents qcap n
proof unfold_locales
  fix ms :: "'m list" and d and ch :: "('q, 't, 'm) achan"
  assume "array_contract Q contents qcap n ms d ch"
  then show "array_is_shutdown ch = d"
    by (auto simp: array_contract_def dest: array_is_shutdown_correct)
next
  fix ms :: "'m list" and d and ch :: "('q, 't, 'm) achan"
  assume "array_contract Q contents qcap n ms d ch"
  then have a: "aq_laws Q contents qcap" "array_rep ms d ch" "array_size ch = n"
    "array_wakers_ok contents qcap ch" by (simp_all add: array_contract_def)
  obtain ch' where "array_shutdown Q ch = Done (\<not> d, ch')" "array_rep ms True ch'"
    "array_size ch' = array_size ch" "array_wakers_ok contents qcap ch'"
    using array_shutdown_refines [OF a(2,1,4)] by metis
  with a show "\<exists>c'. array_shutdown Q ch = Done (\<not> d, c') \<and> array_contract Q contents qcap n ms True c'"
    by (auto simp: array_contract_def)
next
  show "True = has_room None ms" for ms :: "'m list" by simp
next
  fix ms ms' :: "'m list" and d and ch :: "('q, 't, 'm) achan" and e :: "weak \<times> 't" and m r
  assume c: "array_contract Q contents qcap n ms d ch" and "good_env e"
    and spec: "spec_try_send (Some n) m ms d = (r, ms')"
  then have a: "aq_laws Q contents qcap" "array_rep ms d ch" "array_size ch = n"
    "array_wakers_ok contents qcap ch" "fair (fst e)"
    by (simp_all add: array_contract_def good_env_def)
  from try_send_refines [OF a(2,1,4,5), of m "snd e"] spec a
  show "\<exists>c'. array_snd Q e m ch = Done (r, c') \<and> array_contract Q contents qcap n ms' d c'"
    by (auto simp: array_contract_def array_snd_def)
next
  fix ms ms' :: "'m list" and d and ch :: "('q, 't, 'm) achan" and e :: "weak \<times> 't" and r
  assume c: "array_contract Q contents qcap n ms d ch" and "good_env e"
    and spec: "spec_try_recv ms d = (r, ms')"
  then have a: "aq_laws Q contents qcap" "array_rep ms d ch" "array_size ch = n"
    "array_wakers_ok contents qcap ch" "fair (fst e)"
    by (simp_all add: array_contract_def good_env_def)
  from try_recv_refines [OF a(2,5), of Q] spec a wake_ok [OF a(1)]
  show "\<exists>c'. array_rcv Q e ch = Done (r, c') \<and> array_contract Q contents qcap n ms' d c'"
    by (auto simp: array_contract_def array_rcv_def array_wakers_ok_def)
qed

section \<open>Concrete channels\<close>

text \<open>A channel of capacity 2, new and with one message, for the concrete instances.\<close>

definition ex_empty :: "(nat \<times> nat list, nat, nat) achan" where
  "ex_empty = \<lparr>ac_head = 0, ac_tail = 0,
     ac_buffer = [\<lparr>s_stamp = 0, s_msg = None\<rparr>, \<lparr>s_stamp = 1, s_msg = None\<rparr>],
     ac_cap = 2, ac_one_lap = 8, ac_mark_bit = 4,
     ac_senders = swaker_new list_aq, ac_receivers = swaker_new list_aq, ac_first = True\<rparr>"

definition ex_one :: "(nat \<times> nat list, nat, nat) achan" where
  "ex_one = ex_empty\<lparr>ac_tail := 1,
     ac_buffer := [\<lparr>s_stamp = 1, s_msg = Some 7\<rparr>, \<lparr>s_stamp = 1, s_msg = None\<rparr>],
     ac_receivers := (swaker_new list_aq)\<lparr>w_waiting := 1\<rparr>\<rparr>"

definition ex_two :: "(nat \<times> nat list, nat, nat) achan" where
  "ex_two = ex_empty\<lparr>ac_tail := 8,
     ac_buffer := [\<lparr>s_stamp = 1, s_msg = Some 7\<rparr>, \<lparr>s_stamp = 2, s_msg = Some 9\<rparr>],
     ac_receivers := (swaker_new list_aq)\<lparr>w_waiting := 2\<rparr>\<rparr>"

definition ex_env :: "weak \<times> nat" where
  "ex_env = (\<lambda>_. [False], 5)"

lemmas ex_defs = ex_empty_def ex_one_def ex_two_def

lemma ex_rep:
  "array_rep [] False ex_empty" "array_rep [7] False ex_one" "array_rep [7, 9] False ex_two"
proof -
  have "array_at 2 0 [] False ex_empty" "array_at 2 0 [7] False ex_one" "array_at 2 0 [7, 9] False ex_two"
    by (auto simp: array_at_def ex_defs geom_def array_slot_ok_def enc_def pos_def less_Suc_eq)
  then show "array_rep [] False ex_empty" "array_rep [7] False ex_one" "array_rep [7, 9] False ex_two"
    unfolding array_rep_def by blast+
qed

lemma ex_wakers:
  "array_wakers_ok snd fst ex_empty" "array_wakers_ok snd fst ex_one" "array_wakers_ok snd fst ex_two"
  by (simp_all add: array_wakers_ok_def sw_ok_def ex_defs)

lemma ex_size: "array_size ex_empty = 2" "array_size ex_one = 2" "array_size ex_two = 2"
  by (simp_all add: array_size_def ex_defs)

lemma ex_new: "with_capacity list_aq 16 2 = Done ex_empty"
  by (simp add: with_capacity_def next_power_of_two_def add_chk_def mul_chk_def bit_len.simps
      ex_empty_def upt_rec)

section \<open>Properties\<close>



text \<open>
  C32. \<open>len\<close>, \<open>is_full\<close> and \<open>capacity\<close> report the abstract queue: the number of its
  messages (as a word, without wrap-around and without an underflow in the subtractions),
  whether that number is the capacity, and the capacity; and \<open>is_shutdown\<close> reports the flag.
\<close>

theorem bounded_observers:
  assumes "array_rep ms d ch"
  shows "array_len ch = Done (of_nat (length ms)) \<and> unat (of_nat (length ms) :: usize) = length ms
    \<and> (array_is_full ch \<longleftrightarrow> length ms = array_size ch)
    \<and> map_option unat (array_capacity ch) = Some (array_size ch)
    \<and> array_is_shutdown ch = d"
proof -
  have "map_option unat (array_capacity ch) = Some (array_size ch)"
    using assms by (auto simp: array_rep_def array_capacity_def array_size_def dest: array_atD(2))
  with array_len_correct [OF assms] array_is_full_correct [OF assms] array_is_shutdown_correct [OF assms]
  show ?thesis by simp
qed

theorem bounded_observers_witness:
  "array_rep [7, 9] False ex_two \<and> array_len ex_two = Done 2 \<and> array_is_full ex_two
   \<and> \<not> array_is_shutdown ex_two"
  using bounded_observers [OF ex_rep(3)] ex_rep(3) by (simp add: ex_size)

text \<open>
  C33. \<open>is_empty\<close> is wrong. A new channel of capacity 2 that is sent one message still reports
  that it is empty, and once the message has been received it reports that it is not:
  the code keeps the tail's mark bit where it has to clear it.
\<close>

theorem bounded_is_empty_wrong:
  "\<exists>ch1 ch2. array_try_send list_aq (fst ex_env) (Some 5) 7 ex_empty = Done (Inr (), ch1)
     \<and> array_rep [7] False ch1 \<and> array_is_empty ch1
     \<and> array_try_recv list_aq (fst ex_env) ch1 = Done (Inr 7, ch2)
     \<and> array_rep [] False ch2 \<and> \<not> array_is_empty ch2"
proof -
  have fair: "fair (fst ex_env)" by (simp add: ex_env_def)
  obtain ch1 where 1: "array_try_send list_aq (fst ex_env) (Some 5) 7 ex_empty = Done (Inr (), ch1)"
    "array_rep [7] False ch1"
    using try_send_refines [OF ex_rep(1) list_aq_laws ex_wakers(1) fair, of 7 5]
    by (auto simp: spec_try_send_def ex_size)
  obtain ch2 where 2: "array_try_recv list_aq (fst ex_env) ch1 = Done (Inr 7, ch2)" "array_rep [] False ch2"
    using try_recv_refines [OF 1(2) fair, of list_aq] by (auto simp: spec_try_recv_def)
  have e1: "ch1 = ex_one"
    using 1(1) by (simp add: array_try_send_def array_start_send_def array_default_def ex_env_def
        ex_defs stamp_index_def next_stamp_def add_chk_def array_write_def wake_def)
  then have "ac_head ch2 = 1" "ac_tail ch2 = 1" "ac_mark_bit ch2 = 4"
    using 2(1) by (auto simp add: array_try_recv_def array_start_recv_def array_default_def ex_env_def
        ex_defs stamp_index_def next_stamp_def add_chk_def array_read_def)
  with 1 2 e1 show ?thesis by (auto simp: array_is_empty_def ex_defs)
qed

text \<open>
  C30. Dropping the channel drops exactly the messages that were sent and not received, each
  once and in order, whatever the laps and whether or not the channel is shut down; it
  never touches a slot without a message.
\<close>

theorem bounded_drop_exact:
  assumes "array_rep ms d ch"
  shows "array_drop ch = Done ms"
  using assms by (rule array_drop_correct)

theorem bounded_drop_exact_witness:
  "array_rep [7, 9] False ex_two \<and> array_drop ex_two = Done [7, 9]"
  using bounded_drop_exact [OF ex_rep(3)] ex_rep(3) by simp

text \<open>
  C31. The first \<open>shutdown\<close> answers \<open>true\<close>, keeps the queued messages receivable, empties
  both task queues and notifies every task that was waiting, once and in order; a second
  one answers \<open>false\<close>.
\<close>

theorem bounded_shutdown:
  assumes "array_rep ms False ch" "aq_laws Q contents qcap" "array_wakers_ok contents qcap ch"
  shows "\<exists>ch1 ch2. array_shutdown Q ch = Done (True, ch1) \<and> array_rep ms True ch1
    \<and> w_log (ac_senders ch1) = w_log (ac_senders ch) @ contents (w_queue (ac_senders ch))
    \<and> w_log (ac_receivers ch1) = w_log (ac_receivers ch) @ contents (w_queue (ac_receivers ch))
    \<and> contents (w_queue (ac_senders ch1)) = [] \<and> contents (w_queue (ac_receivers ch1)) = []
    \<and> array_shutdown Q ch1 = Done (False, ch2) \<and> array_rep ms True ch2"
proof -
  obtain ch1 where 1: "array_shutdown Q ch = Done (True, ch1)" "array_rep ms True ch1"
    "array_size ch1 = array_size ch" "array_wakers_ok contents qcap ch1"
    "w_log (ac_senders ch1) = w_log (ac_senders ch) @ contents (w_queue (ac_senders ch))"
    "w_log (ac_receivers ch1) = w_log (ac_receivers ch) @ contents (w_queue (ac_receivers ch))"
    "contents (w_queue (ac_senders ch1)) = []" "contents (w_queue (ac_receivers ch1)) = []"
    using array_shutdown_refines [OF assms] by auto
  have "array_contract Q contents qcap (array_size ch) ms False ch"
    using assms by (simp add: array_contract_def)
  from bounded.shut_twice [OF this 1(1)] 1 show ?thesis
    by (auto simp: array_contract_def)
qed

theorem bounded_shutdown_witness:
  "array_rep [7] False ex_one \<and> (\<exists>ch1 ch2. array_shutdown list_aq ex_one = Done (True, ch1)
    \<and> array_rep [7] True ch1 \<and> array_shutdown list_aq ch1 = Done (False, ch2) \<and> array_rep [7] True ch2)"
  using bounded_shutdown [OF ex_rep(2) list_aq_laws ex_wakers(2)] ex_rep(2) by blast

text \<open>
  C27. \<open>poll\<close> on every branch. With a message it yields the oldest one; on an empty channel
  that is shut down it ends the stream; on an empty open channel it answers \<open>NotReady\<close>,
  and it registers the running task when this is the channel's first poll or a
  notification is outstanding, consuming one.
\<close>

theorem bounded_poll:
  assumes "array_rep ms d ch" "aq_laws Q contents qcap" "array_wakers_ok contents qcap ch" "fair sp"
  shows "case ms of
      m # ms' \<Rightarrow> \<exists>ch'. array_poll Q sp (Some t) ch = Done (Inr (Ready (Some m)), ch') \<and> array_rep ms' d ch'
    | [] \<Rightarrow>
        if d then array_poll Q sp (Some t) ch = Done (Inr (Ready None), ch)
        else if ac_first ch \<or> w_from_me (ac_receivers ch) > 0
        then \<exists>v w. array_poll Q sp (Some t) ch = Done (Inr NotReady, ch\<lparr>ac_first := False, ac_receivers := w\<rparr>)
               \<and> register Q (sp 1) (Some t) v = Done w
               \<and> v = (if ac_first ch then ac_receivers ch
                      else (ac_receivers ch)\<lparr>w_from_me := w_from_me (ac_receivers ch) - 1\<rparr>)
        else array_poll Q sp (Some t) ch = Done (Inr NotReady, ch)"
proof (cases ms)
  case (Cons m ms')
  with array_poll_message [of m ms' d ch sp Q "Some t"] assms show ?thesis by auto
next
  case Nil
  show ?thesis
  proof (cases "d \<or> \<not> (ac_first ch \<or> w_from_me (ac_receivers ch) > 0)")
    case True
    show ?thesis
    proof (cases d)
      case True
      with Nil assms array_poll_shut [of ch sp Q "Some t"] show ?thesis by simp
    next
      case False
      with True have no: "\<not> ac_first ch" "\<not> w_from_me (ac_receivers ch) > 0" by simp_all
      then have "w_from_me (ac_receivers ch) = 0" by (metis word_gt_0)
      moreover have "array_rep [] False ch" using assms(1) Nil False by simp
      ultimately have "array_poll Q sp (Some t) ch = Done (Inr NotReady, ch)"
        using array_poll_pending_unregistered assms(4) no(1) by blast
      with no False Nil show ?thesis by (simp only: list.case if_False disj_not1 simp_thms)
    qed
  next
    case False
    then have reg: "ac_first ch \<or> w_from_me (ac_receivers ch) > 0" and "\<not> d" by simp_all
    with assms(1) Nil have "array_rep [] False ch" by simp
    from array_poll_pending_registers [OF this assms(2-4) reg, of t]
    have "\<exists>v w. array_poll Q sp (Some t) ch = Done (Inr NotReady, ch\<lparr>ac_first := False, ac_receivers := w\<rparr>)
        \<and> register Q (sp 1) (Some t) v = Done w
        \<and> v = (if ac_first ch then ac_receivers ch
               else (ac_receivers ch)\<lparr>w_from_me := w_from_me (ac_receivers ch) - 1\<rparr>)" by metis
    with reg \<open>\<not> d\<close> Nil show ?thesis by (simp only: list.case if_True if_False)
  qed
qed

theorem bounded_poll_witness:
  "\<exists>ch'. array_poll list_aq (\<lambda>_. [False]) (Some 5) ex_one = Done (Inr (Ready (Some 7)), ch')
     \<and> array_rep [] False ch'"
  using bounded_poll [OF ex_rep(2) list_aq_laws ex_wakers(2) fair_const, of 5] by simp

text \<open>
  C28. A second receiver starves. The flag \<open>first\<close> and the counter \<open>from_me\<close> belong to the
  channel, not to a clone of its receiver: after task 1 has polled an empty channel, the
  first poll of task 2 answers \<open>NotReady\<close> without registering task 2, and the shutdown that
  ends the stream notifies task 1 only.
\<close>

theorem second_receiver_starves:
  "\<exists>ch1 ch2 ch3. array_poll list_aq (\<lambda>_. [False]) (Some 1) ex_empty = Done (Inr NotReady, ch1)
     \<and> array_poll list_aq (\<lambda>_. [False]) (Some 2) ch1 = Done (Inr NotReady, ch2)
     \<and> array_shutdown list_aq ch2 = Done (True, ch3)
     \<and> w_log (ac_receivers ch3) = [1] \<and> snd (w_queue (ac_receivers ch3)) = []"
proof -
  let ?sp = "\<lambda>_. [False]" and ?r1 = "\<lparr>w_queue = (4, [1]), w_waiting = 0, w_from_me = 0, w_log = []\<rparr>"
  have reg: "register list_aq [False] (Some 1) (ac_receivers ex_empty) = Done ?r1"
    by (simp add: register_def wk_def ex_empty_def swaker_new_def)
  let ?ch1 = "ex_empty\<lparr>ac_first := False, ac_receivers := ?r1\<rparr>"
  have rep1: "array_rep [] False ?ch1" using ex_rep(1) by (simp add: array_rep_def)
  have wok1: "array_wakers_ok snd fst ?ch1"
    using ex_wakers(1) by (simp add: array_wakers_ok_def sw_ok_def)
  have one: "array_poll list_aq ?sp (Some 1) ex_empty = Done (Inr NotReady, ?ch1)"
    using array_poll_pending_registers [OF ex_rep(1) list_aq_laws ex_wakers(1) fair_const, of 1] reg
    by (force simp: ex_empty_def)
  have two: "array_poll list_aq ?sp (Some 2) ?ch1 = Done (Inr NotReady, ?ch1)"
    using array_poll_pending_unregistered [OF rep1 fair_const] by simp
  obtain ch3 where "array_shutdown list_aq ?ch1 = Done (True, ch3)"
    "w_log (ac_receivers ch3) = [1]" "snd (w_queue (ac_receivers ch3)) = []"
    using array_shutdown_refines [OF rep1 list_aq_laws wok1] by auto
  with one two show ?thesis by blast
qed

text \<open>
  A refused \<open>start_send\<close> of the sink gives the item back unchanged, an accepted one
  queues it, and on a channel that is shut down it is an error; \<open>unreachable!\<close> is not
  reached.
\<close>

theorem bounded_sink:
  assumes "array_rep ms d ch" "aq_laws Q contents qcap" "array_wakers_ok contents qcap ch" "fair sp"
  shows "\<exists>ch'. array_sink_start_send Q sp (Some t) m ch =
      Done (if d then Inl SendError else if length ms < array_size ch then Inr SinkReady
            else Inr (SinkNotReady m), ch')
    \<and> array_rep (if \<not> d \<and> length ms < array_size ch then ms @ [m] else ms) d ch'"
  using try_send_refines [OF assms, of m t]
  by (auto simp: array_sink_start_send_def spec_try_send_def is_full_not_closed split: if_splits)

theorem bounded_sink_witness:
  "\<exists>ch'. array_sink_start_send list_aq (\<lambda>_. [False]) (Some 5) 3 ex_two = Done (Inr (SinkNotReady 3), ch')
     \<and> array_rep [7, 9] False ch'"
  using bounded_sink [OF ex_rep(3) list_aq_laws ex_wakers(3) fair_const, of 5 3] by (simp add: ex_size)

section \<open>The blocking send\<close>

lemma array_send_full:
  assumes at: "array_at p h ms False ch" and full: "length ms = array_size ch"
    and ws: "\<forall>turn \<in> set turns. fst turn \<noteq> []"
  shows "array_send Q turns deadline tok m ch =
    (case deadline of
       None \<Rightarrow> Spin
     | Some d \<Rightarrow> if \<exists>turn \<in> set turns. d \<le> snd turn then Done (Inl (SendTimeout m), ch) else Spin)"
  using ws
proof (induction turns)
  case Nil
  then show ?case by (simp split: option.splits)
next
  case (Cons turn turns)
  then have "array_start_send (fst turn) tok ch = Done (False, tok, ch)"
    using start_send_full [OF at refl] full by (simp add: array_size_def)
  with Cons show ?case by (force split: option.splits)
qed

text \<open>
  C38. The blocking \<open>send\<close>, alone on a full open channel: with a deadline it gives the
  message back with \<open>Timeout\<close> in the first turn in which the clock has reached the
  deadline, and leaves the channel as it was; without one, or before the deadline, no
  number of turns makes it return.
\<close>

theorem bounded_send_full:
  assumes "array_rep ms False ch" "length ms = array_size ch" "\<forall>turn \<in> set turns. fst turn \<noteq> []"
  shows "array_send Q turns deadline array_default m ch =
    (case deadline of
       None \<Rightarrow> Spin
     | Some d \<Rightarrow> if \<exists>turn \<in> set turns. d \<le> snd turn then Done (Inl (SendTimeout m), ch) else Spin)"
  using assms array_send_full by (auto simp only: array_rep_def)

theorem bounded_send_full_witness:
  "array_send list_aq [([False], 10), ([False], 20)] (Some 15) array_default 3 ex_two
     = Done (Inl (SendTimeout 3), ex_two)"
  using bounded_send_full [OF ex_rep(3), of "[([False], 10), ([False], 20)]" list_aq "Some 15" 3]
  by (simp add: ex_size)

end
