(* ===== verification/List_Chan.thy ===== *)
theory List_Chan
  imports Errors Serial_Waker
begin

text \<open>
  The unbounded channel of \<open>src/list.rs\<close>, as one thread runs it: a linked list of blocks
  of slots on the heap. Raw pointers are addresses into a map of the live blocks: an access
  through a null pointer or to a block that has been freed is a \<open>Fault\<close>, and so is a
  second free. The oracle \<open>sp\<close> gives each loop of a call its spurious failures.
\<close>

unbundle bit_operations_syntax

section \<open>Constants and state\<close>

definition WRITE :: usize where "WRITE = 1"
definition READ :: usize where "READ = 2"
definition DESTROY :: usize where "DESTROY = 4"
definition LAP :: nat where "LAP = 32"
definition BLOCK_CAP :: nat where "BLOCK_CAP = LAP - 1"
definition SHIFT :: nat where "SHIFT = 1"
definition MARK_BIT :: usize where "MARK_BIT = 1"

lemmas list_consts = WRITE_def READ_def DESTROY_def LAP_def BLOCK_CAP_def SHIFT_def MARK_BIT_def

record 'm lslot =
  ls_msg :: "'m option"
  ls_state :: usize

record 'm block =
  bl_next :: "nat option"
  bl_slots :: "'m lslot list"

definition block_new :: "'m block" where
  "block_new = \<lparr>bl_next = None, bl_slots = replicate BLOCK_CAP \<lparr>ls_msg = None, ls_state = 0\<rparr>\<rparr>"

record position =
  po_index :: usize
  po_block :: "nat option"

record list_token =
  lt_block :: "nat option"
  lt_offset :: nat

definition list_default :: list_token where
  "list_default = \<lparr>lt_block = None, lt_offset = 0\<rparr>"

text \<open>
  The channel with its heap: the live blocks and the next address the allocator gives.
  \<open>from_me\<close> of the source is the counter \<open>w_from_me\<close> of \<open>lc_receivers\<close>.
\<close>

record ('q, 't, 'm) lchan =
  lc_head :: position
  lc_tail :: position
  lc_receivers :: "('q, 't) swaker"
  lc_first :: bool
  lc_heap :: "nat \<Rightarrow> 'm block option"
  lc_fresh :: nat

definition list_new :: "('q, 't) aq_ops \<Rightarrow> ('q, 't, 'm) lchan" where
  "list_new Q = \<lparr>lc_head = \<lparr>po_index = 0, po_block = None\<rparr>, lc_tail = \<lparr>po_index = 0, po_block = None\<rparr>,
     lc_receivers = swaker_new Q, lc_first = True, lc_heap = \<lambda>_. None, lc_fresh = 0\<rparr>"

section \<open>The heap\<close>

definition list_alloc :: "('q, 't, 'm) lchan \<Rightarrow> nat \<times> ('q, 't, 'm) lchan" where
  "list_alloc ch =
     (lc_fresh ch, ch\<lparr>lc_heap := (lc_heap ch)(lc_fresh ch := Some block_new), lc_fresh := Suc (lc_fresh ch)\<rparr>)"

definition list_free :: "nat \<Rightarrow> ('q, 't, 'm) lchan \<Rightarrow> ('q, 't, 'm) lchan outcome" where
  "list_free b ch =
     (case lc_heap ch b of None \<Rightarrow> Fault | Some _ \<Rightarrow> Done (ch\<lparr>lc_heap := (lc_heap ch)(b := None)\<rparr>))"

text \<open>Dropping a local \<open>Option<Box<Block>>\<close>.\<close>

definition list_free_opt :: "nat option \<Rightarrow> ('q, 't, 'm) lchan \<Rightarrow> ('q, 't, 'm) lchan outcome" where
  "list_free_opt nb ch = (case nb of None \<Rightarrow> Done ch | Some b \<Rightarrow> list_free b ch)"

definition get_block :: "nat option \<Rightarrow> ('q, 't, 'm) lchan \<Rightarrow> 'm block outcome" where
  "get_block p ch =
     (case p of None \<Rightarrow> Fault
      | Some b \<Rightarrow> (case lc_heap ch b of None \<Rightarrow> Fault | Some bl \<Rightarrow> Done bl))"

definition set_block :: "nat option \<Rightarrow> 'm block \<Rightarrow> ('q, 't, 'm) lchan \<Rightarrow> ('q, 't, 'm) lchan" where
  "set_block p bl ch = (case p of None \<Rightarrow> ch | Some b \<Rightarrow> ch\<lparr>lc_heap := (lc_heap ch)(b := Some bl)\<rparr>)"

definition get_slot :: "nat option \<Rightarrow> nat \<Rightarrow> ('q, 't, 'm) lchan \<Rightarrow> 'm lslot outcome" where
  "get_slot p i ch = obind (get_block p ch) (\<lambda>bl.
     if i < length (bl_slots bl) then Done (bl_slots bl ! i) else Fault)"

definition set_slot ::
    "nat option \<Rightarrow> nat \<Rightarrow> 'm lslot \<Rightarrow> ('q, 't, 'm) lchan \<Rightarrow> ('q, 't, 'm) lchan outcome" where
  "set_slot p i s ch = obind (get_block p ch) (\<lambda>bl.
     if i < length (bl_slots bl) then Done (set_block p (bl\<lparr>bl_slots := (bl_slots bl)[i := s]\<rparr>) ch)
     else Fault)"

text \<open>\<open>wait_next\<close> and \<open>wait_write\<close> spin on a cell that only another thread can change.\<close>

definition wait_next :: "nat option \<Rightarrow> ('q, 't, 'm) lchan \<Rightarrow> nat outcome" where
  "wait_next p ch = obind (get_block p ch) (\<lambda>bl.
     case bl_next bl of None \<Rightarrow> Spin | Some n \<Rightarrow> Done n)"

definition wait_write :: "'m lslot \<Rightarrow> unit outcome" where
  "wait_write s = (if ls_state s AND WRITE = 0 then Spin else Done ())"

primrec destroy_loop :: "nat option \<Rightarrow> nat list \<Rightarrow> ('q, 't, 'm) lchan \<Rightarrow> ('q, 't, 'm) lchan outcome" where
  "destroy_loop this [] ch = (case this of None \<Rightarrow> Fault | Some b \<Rightarrow> list_free b ch)"
| "destroy_loop this (i # is) ch =
     obind (get_slot this i ch) (\<lambda>s.
     if ls_state s AND READ = 0
     then obind (set_slot this i (s\<lparr>ls_state := ls_state s OR DESTROY\<rparr>) ch) (\<lambda>ch1.
            if ls_state s AND READ = 0 then Done ch1 else destroy_loop this is ch1)
     else destroy_loop this is ch)"

definition destroy :: "nat option \<Rightarrow> nat \<Rightarrow> ('q, 't, 'm) lchan \<Rightarrow> ('q, 't, 'm) lchan outcome" where
  "destroy this start ch = destroy_loop this [start..<BLOCK_CAP - 1] ch"

section \<open>Sending\<close>

text \<open>\<open>(index >> SHIFT) % LAP\<close>\<close>

definition list_offset :: "usize \<Rightarrow> nat" where
  "list_offset w = unat (drop_bit SHIFT w) mod LAP"

definition one_shift :: usize where
  "one_shift = push_bit SHIFT 1"

text \<open>
  The \<open>compare_exchange_weak\<close> on the tail and what follows its success: \<open>None\<close> is a
  failure. A preallocated block that is not installed is dropped at the return.
\<close>

definition list_cas_tail ::
    "bool \<Rightarrow> usize \<Rightarrow> nat option \<Rightarrow> nat option \<Rightarrow> nat \<Rightarrow> ('q, 't, 'm) lchan
     \<Rightarrow> (list_token \<times> ('q, 't, 'm) lchan) option outcome" where
  "list_cas_tail w tail block next_block offset ch =
     obind (add_chk tail one_shift) (\<lambda>new_tail.
     if \<not> w \<and> po_index (lc_tail ch) = tail then
       (let ch1 = ch\<lparr>lc_tail := (lc_tail ch)\<lparr>po_index := new_tail\<rparr>\<rparr>;
            tok = \<lparr>lt_block = block, lt_offset = offset\<rparr> in
        if offset + 1 = BLOCK_CAP then
          (case next_block of
             None \<Rightarrow> Panic
           | Some nb \<Rightarrow>
               let ch2 = ch1\<lparr>lc_tail := \<lparr>po_index = new_tail + one_shift, po_block = Some nb\<rparr>\<rparr> in
               obind (get_block block ch2) (\<lambda>bl.
               Done (Some (tok, set_block block (bl\<lparr>bl_next := Some nb\<rparr>) ch2))))
        else omap (\<lambda>ch2. Some (tok, ch2)) (list_free_opt next_block ch1))
     else Done None)"

primrec list_start_send_loop ::
    "bool list \<Rightarrow> usize \<Rightarrow> nat option \<Rightarrow> nat option \<Rightarrow> list_token \<Rightarrow> ('q, 't, 'm) lchan
     \<Rightarrow> (bool \<times> list_token \<times> ('q, 't, 'm) lchan) outcome" where
  "list_start_send_loop [] tail block next_block tok ch = Spin"
| "list_start_send_loop (w # ws) tail block next_block tok ch =
     (if tail AND MARK_BIT \<noteq> 0
      then omap (\<lambda>ch1. (True, tok\<lparr>lt_block := None\<rparr>, ch1)) (list_free_opt next_block ch)
      else let offset = list_offset tail in
      if offset = BLOCK_CAP
      then list_start_send_loop ws (po_index (lc_tail ch)) (po_block (lc_tail ch)) next_block tok ch
      else let (next1, ch1) =
            (if offset + 1 = BLOCK_CAP \<and> next_block = None
             then (let (a, c) = list_alloc ch in (Some a, c)) else (next_block, ch)) in
      if block = None then
        (let (new, ch2) = list_alloc ch1 in
         if po_block (lc_tail ch2) = block then
           (let ch3 = ch2\<lparr>lc_tail := (lc_tail ch2)\<lparr>po_block := Some new\<rparr>,
                          lc_head := (lc_head ch2)\<lparr>po_block := Some new\<rparr>\<rparr> in
            obind (list_cas_tail w tail (Some new) next1 offset ch3) (\<lambda>r. case r of
              Some (tok1, ch4) \<Rightarrow> Done (True, tok1, ch4)
            | None \<Rightarrow> list_start_send_loop ws (po_index (lc_tail ch3)) (po_block (lc_tail ch3)) next1 tok ch3))
         else
           obind (list_free_opt next1 ch2) (\<lambda>ch3.
           list_start_send_loop ws (po_index (lc_tail ch3)) (po_block (lc_tail ch3)) (Some new) tok ch3))
      else
        obind (list_cas_tail w tail block next1 offset ch1) (\<lambda>r. case r of
          Some (tok1, ch2) \<Rightarrow> Done (True, tok1, ch2)
        | None \<Rightarrow> list_start_send_loop ws (po_index (lc_tail ch1)) (po_block (lc_tail ch1)) next1 tok ch1))"

definition list_start_send ::
    "bool list \<Rightarrow> list_token \<Rightarrow> ('q, 't, 'm) lchan \<Rightarrow> (bool \<times> list_token \<times> ('q, 't, 'm) lchan) outcome" where
  "list_start_send ws tok ch =
     list_start_send_loop ws (po_index (lc_tail ch)) (po_block (lc_tail ch)) None tok ch"

definition list_write ::
    "('q, 't) aq_ops \<Rightarrow> list_token \<Rightarrow> 'm \<Rightarrow> ('q, 't, 'm) lchan
     \<Rightarrow> (('m + unit) \<times> ('q, 't, 'm) lchan) outcome" where
  "list_write Q tok msg ch =
     (if lt_block tok = None then Done (Inl msg, ch) else
      obind (get_slot (lt_block tok) (lt_offset tok) ch) (\<lambda>s.
      obind (set_slot (lt_block tok) (lt_offset tok)
               \<lparr>ls_msg = Some msg, ls_state = ls_state s OR WRITE\<rparr> ch) (\<lambda>ch1.
      Done (Inr (), ch1\<lparr>lc_receivers := wake Q (lc_receivers ch1)\<rparr>))))"

section \<open>Receiving\<close>

text \<open>
  From the loaded head to either the answer, when the channel is empty, or the new head;
  \<open>Inl True\<close> is empty and disconnected.
\<close>

definition list_new_head :: "usize \<Rightarrow> ('q, 't, 'm) lchan \<Rightarrow> (bool + usize) outcome" where
  "list_new_head head ch =
     obind (add_chk head one_shift) (\<lambda>new_head.
     if new_head AND MARK_BIT = 0 then
       (let tail = po_index (lc_tail ch) in
        if drop_bit SHIFT head = drop_bit SHIFT tail then Done (Inl (tail AND MARK_BIT \<noteq> 0))
        else if unat (drop_bit SHIFT head) div LAP \<noteq> unat (drop_bit SHIFT tail) div LAP
        then Done (Inr (new_head OR MARK_BIT))
        else Done (Inr new_head))
     else Done (Inr new_head))"

definition list_cas_head ::
    "bool \<Rightarrow> usize \<Rightarrow> usize \<Rightarrow> nat option \<Rightarrow> nat \<Rightarrow> ('q, 't, 'm) lchan
     \<Rightarrow> (list_token \<times> ('q, 't, 'm) lchan) option outcome" where
  "list_cas_head w head new_head block offset ch =
     (if \<not> w \<and> po_index (lc_head ch) = head then
        (let ch1 = ch\<lparr>lc_head := (lc_head ch)\<lparr>po_index := new_head\<rparr>\<rparr>;
             tok = \<lparr>lt_block = block, lt_offset = offset\<rparr> in
         if offset + 1 = BLOCK_CAP then
           obind (wait_next block ch1) (\<lambda>next.
           obind (get_block (Some next) ch1) (\<lambda>nb.
           let next_index = (new_head AND NOT MARK_BIT) + one_shift;
               next_index1 = (if bl_next nb \<noteq> None then next_index OR MARK_BIT else next_index) in
           Done (Some (tok, ch1\<lparr>lc_head := \<lparr>po_index = next_index1, po_block = Some next\<rparr>\<rparr>))))
         else Done (Some (tok, ch1)))
      else Done None)"

primrec list_start_recv_loop ::
    "bool list \<Rightarrow> usize \<Rightarrow> nat option \<Rightarrow> list_token \<Rightarrow> ('q, 't, 'm) lchan
     \<Rightarrow> (bool \<times> list_token \<times> ('q, 't, 'm) lchan) outcome" where
  "list_start_recv_loop [] head block tok ch = Spin"
| "list_start_recv_loop (w # ws) head block tok ch =
     (let offset = list_offset head in
      if offset = BLOCK_CAP
      then list_start_recv_loop ws (po_index (lc_head ch)) (po_block (lc_head ch)) tok ch
      else obind (list_new_head head ch) (\<lambda>target. case target of
        Inl True \<Rightarrow> Done (True, tok\<lparr>lt_block := None\<rparr>, ch)
      | Inl False \<Rightarrow> Done (False, tok, ch)
      | Inr new_head \<Rightarrow>
          if block = None
          then list_start_recv_loop ws (po_index (lc_head ch)) (po_block (lc_head ch)) tok ch
          else obind (list_cas_head w head new_head block offset ch) (\<lambda>r. case r of
            Some (tok1, ch1) \<Rightarrow> Done (True, tok1, ch1)
          | None \<Rightarrow> list_start_recv_loop ws (po_index (lc_head ch)) (po_block (lc_head ch)) tok ch)))"

definition list_start_recv ::
    "bool list \<Rightarrow> list_token \<Rightarrow> ('q, 't, 'm) lchan \<Rightarrow> (bool \<times> list_token \<times> ('q, 't, 'm) lchan) outcome" where
  "list_start_recv ws tok ch =
     list_start_recv_loop ws (po_index (lc_head ch)) (po_block (lc_head ch)) tok ch"

text \<open>Taking the message out of a slot, and what is left to do for the slot's block.\<close>

definition list_take_slot ::
    "list_token \<Rightarrow> ('q, 't, 'm) lchan \<Rightarrow> ('m \<times> ('q, 't, 'm) lchan) outcome" where
  "list_take_slot tok ch =
     obind (get_slot (lt_block tok) (lt_offset tok) ch) (\<lambda>s.
     obind (wait_write s) (\<lambda>_.
     case ls_msg s of
       None \<Rightarrow> Fault
     | Some msg \<Rightarrow>
         omap (\<lambda>ch1. (msg, ch1))
           (if lt_offset tok + 1 = BLOCK_CAP then destroy (lt_block tok) 0 ch
            else obind (set_slot (lt_block tok) (lt_offset tok) (s\<lparr>ls_state := ls_state s OR READ\<rparr>) ch) (\<lambda>ch1.
              if ls_state s AND DESTROY \<noteq> 0 then destroy (lt_block tok) (lt_offset tok + 1) ch1
              else Done ch1))))"

definition list_read ::
    "list_token \<Rightarrow> ('q, 't, 'm) lchan \<Rightarrow> ((unit + 'm) \<times> ('q, 't, 'm) lchan) outcome" where
  "list_read tok ch =
     (if lt_block tok = None then Done (Inl (), ch)
      else omap (\<lambda>(m, ch1). (Inr m, ch1)) (list_take_slot tok ch))"

definition list_poll_read ::
    "list_token \<Rightarrow> ('q, 't, 'm) lchan \<Rightarrow> ((unit + 'm option async) \<times> ('q, 't, 'm) lchan) outcome" where
  "list_poll_read tok ch =
     (if lt_block tok = None then Done (Inr (Ready None), ch)
      else omap (\<lambda>(m, ch1). (Inr (Ready (Some m)), ch1)) (list_take_slot tok ch))"

section \<open>The calls of a user\<close>

definition list_send ::
    "('q, 't) aq_ops \<Rightarrow> weak \<Rightarrow> 'm \<Rightarrow> nat option \<Rightarrow> ('q, 't, 'm) lchan
     \<Rightarrow> (('m send_timeout_error + unit) \<times> ('q, 't, 'm) lchan) outcome" where
  "list_send Q sp msg deadline ch =
     obind (list_start_send (sp 0) list_default ch) (\<lambda>(ok, tok, ch1).
     if \<not> ok then Panic else
     obind (list_write Q tok msg ch1) (\<lambda>(r, ch2).
     Done (case r of Inl m \<Rightarrow> Inl (SendDisconnected m) | Inr u \<Rightarrow> Inr u, ch2)))"

definition list_try_send ::
    "('q, 't) aq_ops \<Rightarrow> weak \<Rightarrow> 'm \<Rightarrow> ('q, 't, 'm) lchan
     \<Rightarrow> (('m try_send_error + unit) \<times> ('q, 't, 'm) lchan) outcome" where
  "list_try_send Q sp msg ch =
     obind (list_send Q sp msg None ch) (\<lambda>(r, ch1). case r of
       Inl (SendDisconnected m) \<Rightarrow> Done (Inl \<lparr>tse_kind = Closed, tse_value = m\<rparr>, ch1)
     | Inl (SendTimeout _) \<Rightarrow> Panic
     | Inr u \<Rightarrow> Done (Inr u, ch1))"

definition list_try_recv ::
    "weak \<Rightarrow> ('q, 't, 'm) lchan \<Rightarrow> ((try_recv_error + 'm) \<times> ('q, 't, 'm) lchan) outcome" where
  "list_try_recv sp ch =
     obind (list_start_recv (sp 0) list_default ch) (\<lambda>(ok, tok, ch1).
     if ok then
       obind (list_read tok ch1) (\<lambda>(r, ch2).
       Done (case r of Inl _ \<Rightarrow> Inl TryRecvDisconnected | Inr m \<Rightarrow> Inr m, ch2))
     else Done (Inl TryRecvEmpty, ch1))"

text \<open>
  What \<open>len\<close> computes from a consistent pair of indices. The last two lines subtract with
  overflow checks.
\<close>

definition list_len_of :: "usize \<Rightarrow> usize \<Rightarrow> usize outcome" where
  "list_len_of tail head =
     (let low = one_shift - 1;
          tail1 = tail AND NOT low; head1 = head AND NOT low;
          lap = unat (drop_bit SHIFT head1) div LAP;
          tail2 = drop_bit SHIFT (tail1 - push_bit SHIFT (of_nat (lap * LAP)));
          head2 = drop_bit SHIFT (head1 - push_bit SHIFT (of_nat (lap * LAP))) in
      obind (if unat head2 = BLOCK_CAP then omap (\<lambda>t. (0, t)) (sub_chk tail2 (of_nat LAP))
             else Done (head2, tail2)) (\<lambda>(head3, tail3).
      obind (if unat tail3 = BLOCK_CAP then add_chk tail3 1 else Done tail3) (\<lambda>tail4.
      obind (sub_chk tail4 head3) (\<lambda>n. sub_chk n (of_nat (unat tail4 div LAP))))))"

definition list_len :: "('q, 't, 'm) lchan \<Rightarrow> usize outcome" where
  "list_len ch = list_len_of (po_index (lc_tail ch)) (po_index (lc_head ch))"

definition list_capacity :: "('q, 't, 'm) lchan \<Rightarrow> usize option" where
  "list_capacity ch = None"

definition list_is_empty :: "('q, 't, 'm) lchan \<Rightarrow> bool" where
  "list_is_empty ch \<longleftrightarrow>
     drop_bit SHIFT (po_index (lc_head ch)) = drop_bit SHIFT (po_index (lc_tail ch))"

definition list_is_full :: "('q, 't, 'm) lchan \<Rightarrow> bool" where
  "list_is_full ch = False"

definition list_shutdown ::
    "('q, 't) aq_ops \<Rightarrow> ('q, 't, 'm) lchan \<Rightarrow> (bool \<times> ('q, 't, 'm) lchan) outcome" where
  "list_shutdown Q ch =
     (let tail = po_index (lc_tail ch);
          ch1 = ch\<lparr>lc_tail := (lc_tail ch)\<lparr>po_index := tail OR MARK_BIT\<rparr>\<rparr> in
      if tail AND MARK_BIT = 0
      then omap (\<lambda>r. (True, ch1\<lparr>lc_receivers := r\<rparr>)) (wake_all Q (lc_receivers ch1))
      else Done (False, ch1))"

definition list_is_shutdown :: "('q, 't, 'm) lchan \<Rightarrow> bool" where
  "list_is_shutdown ch \<longleftrightarrow> po_index (lc_tail ch) AND MARK_BIT \<noteq> 0"

text \<open>
  Dropping the channel: the messages that are dropped, in order, and the channel with the
  heap that is left. The fuel is the number of indices between head and tail.
\<close>

primrec list_drop_loop ::
    "nat \<Rightarrow> usize \<Rightarrow> usize \<Rightarrow> nat option \<Rightarrow> ('q, 't, 'm) lchan
     \<Rightarrow> ('m list \<times> nat option \<times> ('q, 't, 'm) lchan) outcome" where
  "list_drop_loop 0 head tail block ch = (if head \<noteq> tail then Spin else Done ([], block, ch))"
| "list_drop_loop (Suc fuel) head tail block ch =
     (if head \<noteq> tail then
        (if list_offset head < BLOCK_CAP then
           obind (get_slot block (list_offset head) ch) (\<lambda>s.
           case ls_msg s of
             None \<Rightarrow> Fault
           | Some m \<Rightarrow> omap (\<lambda>(ms, r). (m # ms, r)) (list_drop_loop fuel (head + one_shift) tail block ch))
         else
           obind (get_block block ch) (\<lambda>bl.
           obind (list_free_opt block ch) (\<lambda>ch1.
           list_drop_loop fuel (head + one_shift) tail (bl_next bl) ch1)))
      else Done ([], block, ch))"

definition list_drop :: "('q, 't, 'm) lchan \<Rightarrow> ('m list \<times> ('q, 't, 'm) lchan) outcome" where
  "list_drop ch =
     (let low = one_shift - 1;
          head = po_index (lc_head ch) AND NOT low;
          tail = po_index (lc_tail ch) AND NOT low in
      obind (list_drop_loop (unat (drop_bit SHIFT (tail - head))) head tail (po_block (lc_head ch)) ch)
        (\<lambda>(ms, block, ch1). omap (\<lambda>ch2. (ms, ch2)) (list_free_opt block ch1)))"

section \<open>The stream and the sink\<close>

text \<open>Loops of \<open>poll\<close>: 0 and 2 are the calls of \<open>start_recv\<close>, 1 the \<open>positive_update\<close> of
  \<open>register\<close>, 3 that of \<open>from_me\<close>.\<close>

definition list_poll_again ::
    "('q, 't) aq_ops \<Rightarrow> weak \<Rightarrow> 't option \<Rightarrow> list_token \<Rightarrow> ('q, 't, 'm) lchan
     \<Rightarrow> ((unit + 'm option async) \<times> ('q, 't, 'm) lchan) outcome" where
  "list_poll_again Q sp current tok ch =
     obind (register Q (sp 1) current (lc_receivers ch)) (\<lambda>w.
     obind (list_start_recv (sp 2) tok (ch\<lparr>lc_receivers := w\<rparr>)) (\<lambda>(ok, tok2, ch2).
     if ok then list_poll_read tok2 ch2 else Done (Inr NotReady, ch2)))"

definition list_poll ::
    "('q, 't) aq_ops \<Rightarrow> weak \<Rightarrow> 't option \<Rightarrow> ('q, 't, 'm) lchan
     \<Rightarrow> ((unit + 'm option async) \<times> ('q, 't, 'm) lchan) outcome" where
  "list_poll Q sp current ch =
     obind (list_start_recv (sp 0) list_default ch) (\<lambda>(ok, tok, ch1).
     if ok then list_poll_read tok ch1
     else if lc_first ch1 then list_poll_again Q sp current tok (ch1\<lparr>lc_first := False\<rparr>)
     else
       obind (positive_update (sp 3) (w_from_me (lc_receivers ch1))) (\<lambda>(hit, n).
       if hit
       then list_poll_again Q sp current tok
              (ch1\<lparr>lc_receivers := (lc_receivers ch1)\<lparr>w_from_me := n\<rparr>\<rparr>)
       else Done (Inr NotReady, ch1)))"

definition list_sink_start_send ::
    "('q, 't) aq_ops \<Rightarrow> weak \<Rightarrow> 'm \<Rightarrow> ('q, 't, 'm) lchan
     \<Rightarrow> ((send_error + 'm async_sink) \<times> ('q, 't, 'm) lchan) outcome" where
  "list_sink_start_send Q sp item ch =
     obind (list_try_send Q sp item ch) (\<lambda>(r, ch1).
     case r of
       Inr _ \<Rightarrow> Done (Inr SinkReady, ch1)
     | Inl e \<Rightarrow> if is_closed e then Done (Inl SendError, ch1) else Panic)"

definition list_poll_complete :: "('q, 't, 'm) lchan \<Rightarrow> (send_error + unit async)" where
  "list_poll_complete ch = Inr (Ready ())"

end
