(* ===== verification/List_Pos.thy ===== *)
theory List_Pos
  imports List_Chan
begin

text \<open>
  Indices of the unbounded channel. Message \<open>k\<close> has the raw index \<open>lidx k\<close>: the offsets of
  a block are \<open>0\<close> to \<open>30\<close>, and \<open>31\<close> is the gap in which the next block is installed. The
  word is the raw index shifted by one, with a flag in bit zero. The checked additions of
  the source never overflow, because an index is incremented with \<open>+\<close> only below the gap;
  from the gap it wraps.
\<close>

unbundle bit_operations_syntax

definition lidx :: "nat \<Rightarrow> nat" where
  "lidx k = 32 * (k div 31) + k mod 31"

text \<open>The word with raw index \<open>r\<close> and flag \<open>b\<close>.\<close>

definition iw :: "nat \<Rightarrow> bool \<Rightarrow> usize" where
  "iw r b = of_nat (2 * r + of_bool b)"

abbreviation lw :: "nat \<Rightarrow> bool \<Rightarrow> usize" where
  "lw k b \<equiv> iw (lidx k) b"

lemma lidx_mod_div [simp]: "lidx k mod 32 = k mod 31" "lidx k div 32 = k div 31"
proof -
  have "k mod 31 < 31" by (rule mod_less_divisor) simp
  then have "k mod 31 < 32" by linarith
  then show "lidx k mod 32 = k mod 31" "lidx k div 32 = k div 31" by (simp_all add: lidx_def)
qed

lemma unat_iw: "unat (iw r b) = 2 * (r mod 2 ^ 63) + of_bool b"
proof -
  have "(2 * r + of_bool b) mod (2 * 2 ^ 63) = 2 * (((2 * r + of_bool b) div 2) mod 2 ^ 63)
      + (2 * r + of_bool b) mod (2 :: nat)" by (rule mod_mult2_eq)
  then have "(2 * r + of_bool b) mod (2 * 2 ^ 63) = 2 * (r mod 2 ^ 63) + of_bool b"
    by (cases b) simp_all
  then show ?thesis unfolding iw_def unat_of_nat_64 by simp
qed

lemma iw_0 [simp]: "iw 0 False = 0"
  by (simp add: iw_def)

lemma bit_iw_0: "bit (iw r b) 0 \<longleftrightarrow> b"
proof -
  have "bit (unat (iw r b)) 0 \<longleftrightarrow> bit (iw r b) 0" by (simp only: bit_unsigned_iff) simp
  then show ?thesis by (simp add: unat_iw bit_0)
qed

lemma iw_mark [simp]: "iw r b AND 1 = of_bool b"
  using bit_iw_0 [of r b] by (simp add: and_one_eq mod_2_eq_odd bit_0)

lemma unat_drop_iw: "unat (drop_bit (Suc 0) (iw r b)) = r mod 2 ^ 63"
  by (simp add: drop_bit_Suc unat_div unat_iw)

lemma drop_iw_eq: "drop_bit (Suc 0) (iw r b) = drop_bit (Suc 0) (iw r' b') \<longleftrightarrow> r mod 2 ^ 63 = r' mod 2 ^ 63"
  by (simp only: word_unat_eq_iff unat_drop_iw)

lemma iw_add_2: "iw r b + 2 = iw (Suc r) b"
  by (simp add: iw_def)

lemma iw_sub: "r' \<le> r \<Longrightarrow> iw r b - iw r' False = iw (r - r') b"
  by (simp add: iw_def of_nat_diff algebra_simps)

lemma iw_cong: "r mod 2 ^ 63 = r' mod 2 ^ 63 \<Longrightarrow> iw r b = iw r' b"
  by (simp add: word_unat_eq_iff unat_iw)

lemma iw_or_mark: "iw r b OR 1 = iw r True"
proof (cases b)
  case True
  then show ?thesis by (intro bit_eqI) (auto simp: bit_simps bit_iw_0)
next
  case False
  then have "iw r False AND 1 = 0" by simp
  then have "iw r False + 1 = iw r False OR 1" by (rule disjunctive_add_eq_or)
  with False show ?thesis by (simp add: iw_def add.commute)
qed

lemma iw_and_not_mark: "iw r b AND NOT 1 = iw r False"
proof -
  have m: "unat (iw r b) mod 2 ^ 1 = of_bool b" by (cases b) (simp_all add: unat_iw)
  have o: "(2 :: usize) ^ 1 - 1 = 1" by simp
  have "iw r b AND NOT 1 = iw r b - of_nat (of_bool b)"
    using and_not_mask_mod [of "iw r b" 1] unfolding m o .
  also have "\<dots> = iw r False" by (simp add: iw_def)
  finally show ?thesis .
qed

lemma iw_and_minus_2 [simp]: "iw r b AND - 2 = iw r False"
  using iw_and_not_mark [of r b] by simp

section \<open>The source's tests on indices\<close>

lemma one_shift_simp [simp]: "one_shift = 2"
  by (simp add: one_shift_def SHIFT_def push_bit_eq_mult)

lemmas index_simps = SHIFT_def MARK_BIT_def BLOCK_CAP_def LAP_def

lemma mod_63_32: "(r mod 2 ^ 63) mod 32 = r mod (32 :: nat)"
  by (rule mod_mod_cancel) simp

lemma list_offset_iw [simp]: "list_offset (iw r b) = r mod 32"
  using mod_63_32 [of r] by (simp add: list_offset_def index_simps unat_drop_iw)

lemma list_offset_0 [simp]: "list_offset 0 = 0"
  by (simp add: list_offset_def)

lemma mod_63_div_32: "(r mod 2 ^ 63) div 32 = (r div 32) mod (2 ^ 58 :: nat)"
proof -
  have "r mod (32 * 2 ^ 58) = 32 * (r div 32 mod 2 ^ 58) + r mod (32 :: nat)" by (rule mod_mult2_eq)
  then show ?thesis by simp
qed

lemma add_chk_iw: "r mod 32 < 31 \<Longrightarrow> add_chk (iw r b) 2 = Done (iw (Suc r) b)"
proof -
  assume "r mod 32 < 31"
  then have "(r mod 2 ^ 63) mod 32 < 31" by (simp only: mod_63_32)
  moreover have "r mod 2 ^ 63 < 2 ^ 63" by simp
  ultimately have "r mod 2 ^ 63 \<noteq> 2 ^ 63 - 1" by (intro notI) simp
  with \<open>r mod 2 ^ 63 < 2 ^ 63\<close> have "r mod 2 ^ 63 + 1 < 2 ^ 63" by linarith
  then have "unat (iw r b) + 2 < 2 ^ 64" by (cases b) (simp_all add: unat_iw)
  then show ?thesis by (simp add: add_chk_def iw_add_2)
qed

lemma lidx_Suc: "lidx (Suc k) = (if k mod 31 = 30 then lidx k + 2 else lidx k + 1)"
proof (cases "k mod 31 = 30")
  case True
  then have "Suc k div 31 = Suc (k div 31)" "Suc k mod 31 = 0" by (simp_all add: div_Suc mod_Suc)
  with True show ?thesis by (simp add: lidx_def)
next
  case False
  moreover have "k mod 31 < 31" by simp
  ultimately have "Suc (k mod 31) < 31" by linarith
  then have "Suc k div 31 = k div 31" "Suc k mod 31 = Suc (k mod 31)" by (simp_all add: div_Suc mod_Suc)
  with False show ?thesis by (simp add: lidx_def)
qed

lemma lidx_mono: "h \<le> t \<Longrightarrow> lidx h \<le> lidx t"
proof (induction "t - h" arbitrary: t)
  case 0
  then show ?case by simp
next
  case (Suc n)
  then have "lidx h \<le> lidx (t - 1)" "t = Suc (t - 1)" by auto
  then show ?case by (metis lidx_Suc le_add1 order_trans)
qed

lemma lidx_diff: "h \<le> t \<Longrightarrow> lidx t - lidx h \<le> 2 * (t - h)"
proof (induction "t - h" arbitrary: t)
  case 0
  then show ?case by simp
next
  case (Suc n)
  then obtain u where u: "t = Suc u" "h \<le> u" by (cases t) auto
  with Suc.hyps have "lidx u - lidx h \<le> 2 * (u - h)" by auto
  moreover have "lidx t \<le> lidx u + 2" by (simp add: u lidx_Suc)
  ultimately show ?case using u by (simp add: Suc_diff_le)
qed

lemma lidx_eq [simp]: "lidx h = lidx t \<longleftrightarrow> h = t"
  by (metis lidx_mod_div mult_div_mod_eq)

text \<open>Two indices of messages that are in the channel together.\<close>

lemma lidx_eq_mod:
  assumes "h \<le> t" "t - h < 2 ^ 62"
  shows "lidx h mod 2 ^ 63 = lidx t mod 2 ^ 63 \<longleftrightarrow> h = t"
proof
  assume eq: "lidx h mod 2 ^ 63 = lidx t mod 2 ^ 63"
  have "lidx t - lidx h < 2 ^ 63" using lidx_diff [OF assms(1)] assms(2) by simp
  with lidx_mono [OF assms(1)] have "lidx t < lidx h + 2 ^ 63" by linarith
  from mod_window [OF eq lidx_mono [OF assms(1)] this] show "h = t" by simp
qed simp

lemma block_eq_mod:
  assumes "h \<le> t" "t - h < 2 ^ 62"
  shows "(lidx h mod 2 ^ 63) div 32 = (lidx t mod 2 ^ 63) div 32 \<longleftrightarrow> h div 31 = t div 31"
proof
  assume "(lidx h mod 2 ^ 63) div 32 = (lidx t mod 2 ^ 63) div 32"
  then have eq: "(h div 31) mod 2 ^ 58 = (t div 31) mod 2 ^ 58" by (simp only: mod_63_div_32 lidx_mod_div)
  have le: "h div 31 \<le> t div 31" using assms(1) by (rule div_le_mono)
  have "t < h + 2 ^ 62" using assms by linarith
  then have "t div 31 \<le> (h + 2 ^ 62) div 31" by (intro div_le_mono) simp
  also have "\<dots> \<le> h div 31 + 2 ^ 62 div 31 + 1" by linarith
  also have "\<dots> < h div 31 + 2 ^ 58" by simp
  finally have "t div 31 < h div 31 + 2 ^ 58" .
  from mod_window [OF eq le this] show "h div 31 = t div 31" .
next
  assume "h div 31 = t div 31"
  then show "(lidx h mod 2 ^ 63) div 32 = (lidx t mod 2 ^ 63) div 32"
    by (simp only: mod_63_div_32 lidx_mod_div)
qed

end
