(* ===== verification/List_Spec.thy ===== *)
theory List_Spec
  imports List_Pos Channel_Contract
begin

text \<open>
  The unbounded channel as an implementation of the abstract queue. \<open>list_at h bs hm ms d ch\<close>:
  \<open>h\<close> messages have been received and \<open>ms\<close> are in the channel; \<open>bs\<close> are the addresses of
  its blocks, from the block of the head to the block of the tail (none before the first
  message); \<open>hm\<close> is the flag in the head and \<open>d\<close> the one in the tail. The heap holds these
  blocks and nothing else.
\<close>

unbundle bit_operations_syntax

section \<open>The representation\<close>

text \<open>Slot \<open>k\<close> counts the messages ever sent: read, written, or not yet used.\<close>

definition slot_at :: "nat \<Rightarrow> 'm list \<Rightarrow> nat \<Rightarrow> 'm lslot \<Rightarrow> bool" where
  "slot_at h ms k s \<longleftrightarrow>
     (if k < h then ls_state s = 3
      else if k < h + length ms then ls_state s = 1 \<and> ls_msg s = Some (ms ! (k - h))
      else ls_state s = 0)"

definition block_at :: "nat \<Rightarrow> 'm list \<Rightarrow> nat \<Rightarrow> nat option \<Rightarrow> 'm block \<Rightarrow> bool" where
  "block_at h ms n nxt bl \<longleftrightarrow>
     bl_next bl = nxt \<and> length (bl_slots bl) = 31
     \<and> (\<forall>i < 31. slot_at h ms (31 * n + i) (bl_slots bl ! i))"

definition first_of :: "nat list \<Rightarrow> nat option" where
  "first_of bs = (case bs of [] \<Rightarrow> None | b # _ \<Rightarrow> Some b)"

lemma first_of_simps [simp]: "first_of [] = None" "first_of (b # bs) = Some b"
  by (simp_all add: first_of_def)

lemma first_of_append: "bs \<noteq> [] \<Longrightarrow> first_of (bs @ cs) = first_of bs"
  by (cases bs) simp_all

primrec blocks_at ::
    "nat \<Rightarrow> 'm list \<Rightarrow> nat \<Rightarrow> nat list \<Rightarrow> nat option \<Rightarrow> (nat \<Rightarrow> 'm block option) \<Rightarrow> bool" where
  "blocks_at h ms n [] nxt heap = True"
| "blocks_at h ms n (b # bs) nxt heap \<longleftrightarrow>
     (\<exists>bl. heap b = Some bl \<and> block_at h ms n (if bs = [] then nxt else first_of bs) bl)
     \<and> blocks_at h ms (Suc n) bs nxt heap"

definition list_at ::
    "nat \<Rightarrow> nat list \<Rightarrow> bool \<Rightarrow> 'm list \<Rightarrow> bool \<Rightarrow> ('q, 't, 'm) lchan \<Rightarrow> bool" where
  "list_at h bs hm ms d ch \<longleftrightarrow>
     (let t = h + length ms in
      length ms < 2 ^ 62 \<and>
      lc_head ch = \<lparr>po_index = lw h hm, po_block = first_of bs\<rparr> \<and>
      lc_tail ch = \<lparr>po_index = lw t d, po_block = (if bs = [] then None else Some (last bs))\<rparr> \<and>
      (hm \<longrightarrow> h div 31 < t div 31) \<and>
      (if bs = [] then t = 0 else length bs = Suc (t div 31 - h div 31)) \<and>
      distinct bs \<and> dom (lc_heap ch) = set bs \<and> (\<forall>b \<in> set bs. b < lc_fresh ch) \<and>
      blocks_at h ms (h div 31) bs None (lc_heap ch))"

definition list_rep :: "'m list \<Rightarrow> bool \<Rightarrow> ('q, 't, 'm) lchan \<Rightarrow> bool" where
  "list_rep ms d ch \<longleftrightarrow> (\<exists>h bs hm. list_at h bs hm ms d ch)"

lemma list_atD:
  assumes "list_at h bs hm ms d ch"
  shows "length ms < 2 ^ 62" "lc_head ch = \<lparr>po_index = lw h hm, po_block = first_of bs\<rparr>"
    "lc_tail ch = \<lparr>po_index = lw (h + length ms) d, po_block = (if bs = [] then None else Some (last bs))\<rparr>"
    "hm \<Longrightarrow> h div 31 < (h + length ms) div 31"
    "bs = [] \<Longrightarrow> h = 0 \<and> ms = []"
    "bs \<noteq> [] \<Longrightarrow> length bs = Suc ((h + length ms) div 31 - h div 31)"
    "distinct bs" "dom (lc_heap ch) = set bs" "b \<in> set bs \<Longrightarrow> b < lc_fresh ch"
    "blocks_at h ms (h div 31) bs None (lc_heap ch)"
  using assms by (auto simp: list_at_def Let_def split: if_splits)

lemma list_new_at: "list_at 0 [] False [] False (list_new Q)"
  by (simp add: list_at_def list_new_def lidx_def)

section \<open>Frames and updates of blocks\<close>

lemma blocks_at_cong:
  "(\<And>b. b \<in> set bs \<Longrightarrow> heap b = heap' b) \<Longrightarrow> blocks_at h ms n bs nxt heap = blocks_at h ms n bs nxt heap'"
  by (induction bs arbitrary: n) auto

lemma blocks_at_upd [simp]:
  "b \<notin> set bs \<Longrightarrow> blocks_at h ms n bs nxt (heap(b := x)) = blocks_at h ms n bs nxt heap"
  by (rule blocks_at_cong) auto

lemma blocks_at_append:
  "blocks_at h ms n (bs @ [b]) nxt heap \<longleftrightarrow>
     blocks_at h ms n bs (Some b) heap
     \<and> (\<exists>bl. heap b = Some bl \<and> block_at h ms (n + length bs) nxt bl)"
proof (induction bs arbitrary: n)
  case Nil
  then show ?case by simp
next
  case (Cons c bs)
  then show ?case by (cases bs) (auto simp: first_of_def)
qed

lemma slot_at_send: "k \<noteq> h + length ms \<Longrightarrow> slot_at h ms k s \<Longrightarrow> slot_at h (ms @ [m]) k s"
  by (auto simp: slot_at_def nth_append)

lemma blocks_at_send:
  "(n + length bs) * 31 \<le> h + length ms \<Longrightarrow> blocks_at h ms n bs nxt heap
   \<Longrightarrow> blocks_at h (ms @ [m]) n bs nxt heap"
proof (induction bs arbitrary: n)
  case Nil
  then show ?case by simp
next
  case (Cons b bs)
  have "block_at h (ms @ [m]) n x bl" if "block_at h ms n x bl" for x bl
    using that Cons.prems(1) by (auto simp: block_at_def intro!: slot_at_send)
  with Cons show ?case by auto
qed

text \<open>The block of the tail when the message at the tail is written.\<close>

lemma block_at_send:
  assumes "block_at h ms (t div 31) nxt bl" "t = h + length ms"
  shows "block_at h (ms @ [m]) (t div 31) nxt'
    (bl\<lparr>bl_next := nxt', bl_slots := (bl_slots bl)[t mod 31 := \<lparr>ls_msg = Some m, ls_state = 1\<rparr>]\<rparr>)"
proof -
  have "slot_at h (ms @ [m]) (31 * (t div 31) + i)
      ((bl_slots bl)[t mod 31 := \<lparr>ls_msg = Some m, ls_state = 1\<rparr>] ! i)" if "i < 31" for i
  proof (cases "i = t mod 31")
    case True
    then have "31 * (t div 31) + i = t" by simp
    with True assms show ?thesis by (simp add: slot_at_def block_at_def nth_append)
  next
    case False
    then have "31 * (t div 31) + i \<noteq> h + length ms"
      using that assms(2) by (metis mod_mult_self4 mod_less)
    with False that assms show ?thesis by (auto simp: block_at_def intro: slot_at_send)
  qed
  with assms(1) show ?thesis by (simp add: block_at_def)
qed

lemma slot_at_recv: "k \<noteq> h \<Longrightarrow> slot_at h (m # ms) k s \<Longrightarrow> slot_at (Suc h) ms k s"
  by (auto simp: slot_at_def nth_Cons' split: if_splits)

lemma blocks_at_recv:
  "h < n * 31 \<Longrightarrow> blocks_at h (m # ms) n bs nxt heap \<Longrightarrow> blocks_at (Suc h) ms n bs nxt heap"
proof (induction bs arbitrary: n)
  case Nil
  then show ?case by simp
next
  case (Cons b bs)
  have "block_at (Suc h) ms n x bl" if "block_at h (m # ms) n x bl" for x bl
    using that Cons.prems(1) by (auto simp: block_at_def intro!: slot_at_recv)
  with Cons show ?case by auto
qed

lemma block_at_recv:
  assumes "block_at h (m # ms) (h div 31) nxt bl" "ls_state s = 3"
  shows "block_at (Suc h) ms (h div 31) nxt (bl\<lparr>bl_slots := (bl_slots bl)[h mod 31 := s]\<rparr>)"
proof -
  have "slot_at (Suc h) ms (31 * (h div 31) + i)
      ((bl_slots bl)[h mod 31 := s] ! i)" if "i < 31" for i
  proof (cases "i = h mod 31")
    case True
    then have "31 * (h div 31) + i = h" by simp
    with True assms show ?thesis by (simp add: slot_at_def block_at_def)
  next
    case False
    then have "31 * (h div 31) + i \<noteq> h" using that by (metis mod_mult_self4 mod_less)
    with False that assms show ?thesis by (auto simp: block_at_def intro: slot_at_recv)
  qed
  with assms show ?thesis by (simp add: block_at_def)
qed

section \<open>Sending\<close>

lemma lidx_mod_lt: "k mod 31 < (31 :: nat)"
  by simp

lemma add_chk_lw: "add_chk (lw k b) one_shift = Done (iw (Suc (lidx k)) b)"
  using lidx_mod_lt [of k] by (simp add: add_chk_iw)

lemma iw_Suc_lw: "k mod 31 \<noteq> 30 \<Longrightarrow> iw (Suc (lidx k)) b = lw (Suc k) b"
  by (simp add: lidx_Suc)

lemma iw_Suc_gap: "k mod 31 = 30 \<Longrightarrow> iw (Suc (lidx k)) b + 2 = lw (Suc k) b"
  by (simp add: lidx_Suc iw_add_2)

lemma list_cas_tail_inner:
  assumes "lc_tail ch = \<lparr>po_index = lw t False, po_block = Some b\<rparr>" "t mod 31 \<noteq> 30"
  shows "list_cas_tail False (lw t False) (Some b) None (t mod 31) ch =
    Done (Some (\<lparr>lt_block = Some b, lt_offset = t mod 31\<rparr>,
      ch\<lparr>lc_tail := \<lparr>po_index = lw (Suc t) False, po_block = Some b\<rparr>\<rparr>))"
  using assms by (simp add: list_cas_tail_def add_chk_lw [simplified] iw_Suc_lw index_simps list_free_opt_def)

lemma list_cas_tail_end:
  assumes "lc_tail ch = \<lparr>po_index = lw t False, po_block = Some b\<rparr>" "t mod 31 = 30"
    "lc_heap ch b = Some bl"
  shows "list_cas_tail False (lw t False) (Some b) (Some a) (t mod 31) ch =
    Done (Some (\<lparr>lt_block = Some b, lt_offset = t mod 31\<rparr>,
      ch\<lparr>lc_tail := \<lparr>po_index = lw (Suc t) False, po_block = Some a\<rparr>,
         lc_heap := (lc_heap ch)(b := Some (bl\<lparr>bl_next := Some a\<rparr>))\<rparr>))"
  using assms by (simp add: list_cas_tail_def add_chk_lw [simplified] iw_Suc_gap index_simps
      get_block_def set_block_def)

lemma list_cas_tail_spurious: "list_cas_tail True (lw t b) block nb off ch = Done None"
  by (simp add: list_cas_tail_def add_chk_lw [simplified])

lemma start_send_loop_ready:
  assumes tail: "lc_tail ch = \<lparr>po_index = lw t False, po_block = Some b\<rparr>"
    and nb: "nb \<noteq> None \<or> t mod 31 \<noteq> 30" and ws: "False \<in> set ws"
    and cas: "list_cas_tail False (lw t False) (Some b) nb (t mod 31) ch = Done (Some (tok1, ch1))"
  shows "list_start_send_loop ws (lw t False) (Some b) nb tok ch = Done (True, tok1, ch1)"
  using ws
proof (induction ws)
  case Nil
  then show ?case by simp
next
  case (Cons w ws)
  have "t mod 31 \<noteq> 31" using lidx_mod_lt [of t] by simp
  with Cons tail nb cas show ?case
    by (cases w) (auto simp: index_simps list_cas_tail_spurious)
qed

lemma start_send_loop_alloc:
  assumes "t mod 31 = 30"
  shows "list_start_send_loop (w # ws) (lw t False) (Some b) None tok ch =
    list_start_send_loop (w # ws) (lw t False) (Some b) (Some (fst (list_alloc ch))) tok (snd (list_alloc ch))"
  using assms by (simp add: index_simps Let_def split_def list_alloc_def)

lemma start_send_loop_first:
  assumes "lc_tail ch = \<lparr>po_index = lw 0 False, po_block = None\<rparr>"
  shows "list_start_send_loop (w # ws) (lw 0 False) None None tok ch =
    list_start_send_loop (w # ws) (lw 0 False) (Some (lc_fresh ch)) None tok
      ((snd (list_alloc ch))\<lparr>lc_tail := \<lparr>po_index = lw 0 False, po_block = Some (lc_fresh ch)\<rparr>,
         lc_head := (lc_head ch)\<lparr>po_block := Some (lc_fresh ch)\<rparr>\<rparr>)"
  using assms by (simp add: index_simps Let_def split_def list_alloc_def lidx_def)

lemma start_send_shut_list:
  assumes "list_at h bs hm ms True ch" "ws \<noteq> []"
  shows "list_start_send ws tok ch = Done (True, tok\<lparr>lt_block := None\<rparr>, ch)"
  using assms(2) list_atD(3) [OF assms(1)]
  by (cases ws) (simp_all add: list_start_send_def index_simps list_free_opt_def)

text \<open>Installing the first block keeps the representation.\<close>

lemma list_at_first_block:
  assumes at: "list_at h [] hm ms d ch"
  shows "list_at 0 [lc_fresh ch] False [] d
    ((snd (list_alloc ch))\<lparr>lc_tail := \<lparr>po_index = lw 0 d, po_block = Some (lc_fresh ch)\<rparr>,
         lc_head := (lc_head ch)\<lparr>po_block := Some (lc_fresh ch)\<rparr>\<rparr>)"
proof -
  from list_atD [OF at] have "h = 0" "ms = []" "\<not> hm" "lc_heap ch = (\<lambda>_. None)"
    by (auto simp: dom_def fun_eq_iff)
  with list_atD(2) [OF at] show ?thesis
    by (auto simp: list_at_def list_alloc_def block_at_def block_new_def slot_at_def index_simps)
qed

text \<open>
  The state a send leaves: the message written, and a new block when it was the last slot
  of its block.
\<close>

definition sent :: "nat \<Rightarrow> nat \<Rightarrow> 'm \<Rightarrow> ('q, 't, 'm) lchan \<Rightarrow> ('q, 't, 'm) lchan" where
  "sent t b m ch =
     (let a = lc_fresh ch; bl = the (lc_heap ch b);
          slots = (bl_slots bl)[t mod 31 := \<lparr>ls_msg = Some m, ls_state = 1\<rparr>] in
      if t mod 31 = 30
      then ch\<lparr>lc_tail := \<lparr>po_index = lw (Suc t) False, po_block = Some a\<rparr>, lc_fresh := Suc a,
              lc_heap := (lc_heap ch)(a := Some block_new, b := Some (bl\<lparr>bl_next := Some a, bl_slots := slots\<rparr>))\<rparr>
      else ch\<lparr>lc_tail := \<lparr>po_index = lw (Suc t) False, po_block = Some b\<rparr>,
              lc_heap := (lc_heap ch)(b := Some (bl\<lparr>bl_slots := slots\<rparr>))\<rparr>)"

lemma list_at_tail_block:
  assumes at: "list_at h bs hm ms d ch" and bs: "bs = pre @ [b]" and t: "t = h + length ms"
  obtains bl where "lc_heap ch b = Some bl" "block_at h ms (t div 31) None bl"
    "blocks_at h ms (h div 31) pre (Some b) (lc_heap ch)" "h div 31 + length pre = t div 31"
proof -
  have "length pre = t div 31 - h div 31" using list_atD(6) [OF at] bs t by simp
  moreover have "h div 31 \<le> t div 31" using t by (simp add: div_le_mono)
  ultimately have "h div 31 + length pre = t div 31" by simp
  with list_atD(10) [OF at] bs that show thesis by (auto simp: blocks_at_append)
qed

lemma send_list_at:
  assumes at: "list_at h bs hm ms False ch" and bs: "bs = pre @ [b]" and t: "t = h + length ms"
    and room: "Suc (length ms) < 2 ^ 62"
  shows "list_at h (if t mod 31 = 30 then bs @ [lc_fresh ch] else bs) hm (ms @ [m]) False (sent t b m ch)"
proof -
  obtain bl where bl: "lc_heap ch b = Some bl" "block_at h ms (t div 31) None bl"
    and pre: "blocks_at h ms (h div 31) pre (Some b) (lc_heap ch)"
    and len: "h div 31 + length pre = t div 31"
    using list_at_tail_block [OF at bs t] .
  note D = list_atD [OF at]
  have new: "lc_fresh ch \<notin> set bs" using D(9) by blast
  have dist: "b \<notin> set pre" using D(7) bs by simp
  have "(h div 31 + length pre) * 31 \<le> h + length ms" by (simp add: len t)
  from blocks_at_send [OF this pre, of m]
  have pre': "blocks_at h (ms @ [m]) (h div 31) pre (Some b) heap'"
    if "\<And>c. c \<in> set pre \<Longrightarrow> heap' c = lc_heap ch c" for heap'
    using that blocks_at_cong [of pre heap' "lc_heap ch"] by simp
  have Suc_le: "h div 31 \<le> t div 31" using t by (simp add: div_le_mono)
  have hm': "hm \<Longrightarrow> h div 31 < Suc t div 31"
    using D(4) t by (meson div_le_mono le_SucI order.refl order_less_le_trans)
  show ?thesis
  proof (cases "t mod 31 = 30")
    case False
    then have same: "Suc t div 31 = t div 31" by (simp add: div_Suc mod_Suc)
    have "block_at h (ms @ [m]) (t div 31) None
        (bl\<lparr>bl_slots := (bl_slots bl)[t mod 31 := \<lparr>ls_msg = Some m, ls_state = 1\<rparr>]\<rparr>)"
      using block_at_send [OF bl(2) t, of m None] bl(2) by (simp add: block_at_def)
    moreover have "blocks_at h (ms @ [m]) (h div 31) pre (Some b) ((lc_heap ch)(b := x))" for x
      by (rule pre') (use dist in auto)
    ultimately show ?thesis
      using False D bl(1) dist bs t room same hm' len
      by (auto simp: list_at_def sent_def Let_def blocks_at_append)
  next
    case True
    then have next_block: "Suc t div 31 = Suc (t div 31)" "Suc t mod 31 = 0" by (simp_all add: div_Suc mod_Suc)
    let ?a = "lc_fresh ch"
    have b': "block_at h (ms @ [m]) (t div 31) (Some ?a)
        (bl\<lparr>bl_next := Some ?a, bl_slots := (bl_slots bl)[t mod 31 := \<lparr>ls_msg = Some m, ls_state = 1\<rparr>]\<rparr>)"
      by (rule block_at_send [OF bl(2) t])
    have "31 * Suc (t div 31) = Suc t" using True by (metis Suc_eq_plus1 next_block add_0_right
        div_mult_mod_eq mult.commute)
    then have a': "block_at h (ms @ [m]) (Suc (t div 31)) None block_new"
      using t by (auto simp: block_at_def block_new_def slot_at_def index_simps)
    have "h div 31 + length bs = Suc (t div 31)" using len bs by simp
    let ?heap = "lc_heap (sent t b m ch)"
    have "blocks_at h (ms @ [m]) (h div 31) pre (Some b) ?heap"
      by (rule pre') (use dist new bs in \<open>auto simp: sent_def Let_def True\<close>)
    moreover have "?heap b = Some (bl\<lparr>bl_next := Some ?a, bl_slots := (bl_slots bl)[t mod 31 := \<lparr>ls_msg = Some m, ls_state = 1\<rparr>]\<rparr>)" "?heap ?a = Some block_new"
      using True bl(1) new bs by (auto simp: sent_def Let_def)
    ultimately have "blocks_at h (ms @ [m]) (h div 31) (bs @ [?a]) None ?heap"
      using a' b' len \<open>h div 31 + length bs = Suc (t div 31)\<close>
      unfolding blocks_at_append by (simp add: bs blocks_at_append)
    moreover have "lc_head (sent t b m ch) = \<lparr>po_index = lw h hm, po_block = first_of (bs @ [?a])\<rparr>"
      using D(2) bs first_of_append [of bs "[?a]"] by (simp add: sent_def Let_def)
    moreover have "lc_tail (sent t b m ch) = \<lparr>po_index = lw (Suc t) False, po_block = Some ?a\<rparr>"
      "lc_fresh (sent t b m ch) = Suc ?a"
      using True by (simp_all add: sent_def Let_def)
    moreover have "dom ?heap = insert ?a (set bs)"
      using True D(8) bs by (auto simp: sent_def Let_def)
    moreover have "length (bs @ [?a]) = Suc (Suc t div 31 - h div 31)"
      using D(6) bs t next_block(1) Suc_le by (simp add: Suc_diff_le)
    moreover have "\<forall>c \<in> set (bs @ [?a]). c < Suc ?a" using D(9) by (auto intro: less_SucI)
    moreover have "distinct (bs @ [?a])" using D(7) new by simp
    ultimately show ?thesis
      using True room hm' t by (simp add: list_at_def Let_def)
  qed
qed

text \<open>The state after a successful \<open>start_send\<close>: a slot reserved, not yet written.\<close>

definition reserved :: "nat \<Rightarrow> nat \<Rightarrow> ('q, 't, 'm) lchan \<Rightarrow> ('q, 't, 'm) lchan" where
  "reserved t b ch =
     (let a = lc_fresh ch in
      if t mod 31 = 30
      then ch\<lparr>lc_tail := \<lparr>po_index = lw (Suc t) False, po_block = Some a\<rparr>, lc_fresh := Suc a,
              lc_heap := (lc_heap ch)(a := Some block_new, b := Some ((the (lc_heap ch b))\<lparr>bl_next := Some a\<rparr>))\<rparr>
      else ch\<lparr>lc_tail := \<lparr>po_index = lw (Suc t) False, po_block = Some b\<rparr>\<rparr>)"

lemma start_send_reserves:
  assumes at: "list_at h bs hm ms False ch" and bs: "bs = pre @ [b]" and t: "t = h + length ms"
    and ws: "False \<in> set ws"
  shows "list_start_send_loop ws (lw t False) (Some b) None tok ch
    = Done (True, \<lparr>lt_block = Some b, lt_offset = t mod 31\<rparr>, reserved t b ch)"
proof -
  obtain bl where bl: "lc_heap ch b = Some bl" using list_at_tail_block [OF at bs t] by metis
  have tail: "lc_tail ch = \<lparr>po_index = lw t False, po_block = Some b\<rparr>"
    using list_atD(3) [OF at] bs t by simp
  show ?thesis
  proof (cases "t mod 31 = 30")
    case False
    with start_send_loop_ready [OF tail _ ws list_cas_tail_inner [OF tail False]] show ?thesis
      by (simp add: reserved_def)
  next
    case True
    let ?ch1 = "snd (list_alloc ch)"
    have fresh: "lc_fresh ch \<noteq> b" using list_atD(9) [OF at, of b] bs by auto
    have tail1: "lc_tail ?ch1 = \<lparr>po_index = lw t False, po_block = Some b\<rparr>"
      and bl1: "lc_heap ?ch1 b = Some bl" using tail bl fresh by (simp_all add: list_alloc_def)
    from start_send_loop_ready [OF tail1 _ ws list_cas_tail_end [OF tail1 True bl1]]
    have "list_start_send_loop ws (lw t False) (Some b) (Some (fst (list_alloc ch))) tok ?ch1
        = Done (True, \<lparr>lt_block = Some b, lt_offset = t mod 31\<rparr>, reserved t b ch)"
      using True bl fresh by (simp add: reserved_def list_alloc_def Let_def)
    moreover obtain w ws' where "ws = w # ws'" using ws by (cases ws) auto
    ultimately show ?thesis using start_send_loop_alloc [OF True] by metis
  qed
qed

lemma write_reserved_list:
  assumes at: "list_at h bs hm ms False ch" and bs: "bs = pre @ [b]" and t: "t = h + length ms"
  shows "list_write Q \<lparr>lt_block = Some b, lt_offset = t mod 31\<rparr> m (reserved t b ch)
    = Done (Inr (), (sent t b m ch)\<lparr>lc_receivers := wake Q (lc_receivers ch)\<rparr>)"
proof -
  obtain bl where bl: "lc_heap ch b = Some bl" and ok: "block_at h ms (t div 31) None bl"
    using list_at_tail_block [OF at bs t] .
  have fresh: "lc_fresh ch \<noteq> b" using list_atD(9) [OF at, of b] bs by auto
  have "slot_at h ms (31 * (t div 31) + t mod 31) (bl_slots bl ! (t mod 31))" "length (bl_slots bl) = 31"
    using ok lidx_mod_lt [of t] unfolding block_at_def by blast+
  then have "ls_state (bl_slots bl ! (t mod 31)) = 0" "t mod 31 < length (bl_slots bl)"
    using t by (auto simp: slot_at_def)
  then show ?thesis
    using bl fresh
    by (cases "t mod 31 = 30") (simp_all add: list_write_def reserved_def sent_def Let_def get_slot_def get_block_def set_slot_def
        set_block_def WRITE_def)
qed

lemma list_at_wake [simp]:
  "list_at h bs hm ms d (ch\<lparr>lc_receivers := r\<rparr>) = list_at h bs hm ms d ch"
  "list_at h bs hm ms d (ch\<lparr>lc_first := f\<rparr>) = list_at h bs hm ms d ch"
  by (simp_all add: list_at_def)

lemma sent_frame [simp]:
  "lc_receivers (sent t b m ch) = lc_receivers ch" "lc_first (sent t b m ch) = lc_first ch"
  by (simp_all add: sent_def Let_def)

lemma try_send_of_start:
  assumes "list_start_send (sp 0) list_default ch = Done (True, tok, ch1)"
    "list_write Q tok m ch1 = Done (Inr (), ch2)"
  shows "list_try_send Q sp m ch = Done (Inr (), ch2)"
  using assms by (simp add: list_try_send_def list_send_def)

lemma list_try_send_room:
  fixes ms :: "'m list"
  assumes at: "list_at h bs hm ms False ch" and fair: "fair sp" and room: "Suc (length ms) < 2 ^ 62"
  obtains bs' hm' ch' where "list_try_send Q sp m ch = Done (Inr (), ch')"
    "list_at h bs' hm' (ms @ [m]) False ch'" "lc_receivers ch' = wake Q (lc_receivers ch)"
    "lc_first ch' = lc_first ch"
proof -
  obtain w ws where sp: "sp 0 = w # ws" using fairD [OF fair, of 0] by (cases "sp 0") auto
  have ws: "False \<in> set (w # ws)" using fairD [OF fair, of 0] sp by simp
  show thesis
  proof (cases "bs = []")
    case False
    then obtain pre b where bs: "bs = pre @ [b]" by (metis rev_exhaust)
    have start: "list_start_send (sp 0) list_default ch
        = Done (True, \<lparr>lt_block = Some b, lt_offset = (h + length ms) mod 31\<rparr>, reserved (h + length ms) b ch)"
      using start_send_reserves [OF at bs refl ws] list_atD(3) [OF at] bs
      by (simp only: list_start_send_def sp) simp
    note written = write_reserved_list [OF at bs refl, of Q m]
    from that [OF try_send_of_start [where sp = sp, OF start written]]
      send_list_at [OF at bs refl room] show thesis by (simp, blast)
  next
    case True
    let ?b = "lc_fresh ch"
    define ch0 where "ch0 = (snd (list_alloc ch))\<lparr>lc_tail := \<lparr>po_index = lw 0 False, po_block = Some ?b\<rparr>,
       lc_head := (lc_head ch)\<lparr>po_block := Some ?b\<rparr>\<rparr>"
    have h: "h = 0" "ms = []" using list_atD(5) [OF at] True by simp_all
    have at0: "list_at 0 [?b] False ([] :: 'm list) False ch0"
      using list_at_first_block [OF at [unfolded True]] by (simp add: ch0_def)
    have frame: "lc_receivers ch0 = lc_receivers ch" "lc_first ch0 = lc_first ch"
      by (simp_all add: ch0_def list_alloc_def)
    have tail: "lc_tail ch = \<lparr>po_index = lw 0 False, po_block = None\<rparr>"
      using list_atD(3) [OF at] True h by simp
    have bs0: "[?b] = [] @ [?b]" by simp
    have t0: "0 = 0 + length ([] :: 'm list)" by simp
    have "list_start_send (sp 0) list_default ch
        = list_start_send_loop (w # ws) (lw 0 False) (Some ?b) None list_default ch0"
      using start_send_loop_first [OF tail, of w ws list_default] tail
      by (simp only: list_start_send_def sp ch0_def) simp
    then have start: "list_start_send (sp 0) list_default ch
        = Done (True, \<lparr>lt_block = Some ?b, lt_offset = 0 mod 31\<rparr>, reserved 0 ?b ch0)"
      by (simp only: start_send_reserves [OF at0 bs0 t0 ws])
    note written = write_reserved_list [OF at0 bs0 t0, of Q m]
    have at1: "list_at 0 [?b] False [m] False (sent 0 ?b m ch0)"
      using send_list_at [OF at0 bs0 t0, of m] by simp
    show thesis
      by (rule that [OF try_send_of_start [where sp = sp, OF start written], of "[?b]" False])
        (simp_all add: at1 h frame)
  qed
qed

lemma list_try_send_closed:
  assumes at: "list_at h bs hm ms True ch" and fair: "fair sp"
  shows "list_try_send Q sp m ch = Done (Inl \<lparr>tse_kind = Closed, tse_value = m\<rparr>, ch)"
proof -
  have "sp 0 \<noteq> []" using fairD [OF fair, of 0] by auto
  from start_send_shut_list [OF at this] show ?thesis
    by (simp add: list_try_send_def list_send_def list_write_def)
qed

section \<open>Receiving\<close>

lemma list_new_head_empty:
  assumes at: "list_at h bs hm [] d ch"
  shows "list_new_head (lw h hm) ch = Done (Inl d)"
proof -
  have "\<not> hm" using list_atD(4) [OF at] by auto
  with list_atD(3) [OF at] show ?thesis
    by (simp add: list_new_head_def add_chk_lw [simplified] index_simps drop_iw_eq)
qed

lemma list_new_head_some:
  assumes at: "list_at h bs hm (m # ms) d ch"
  shows "list_new_head (lw h hm) ch
    = Done (Inr (iw (Suc (lidx h)) (h div 31 < (h + length (m # ms)) div 31)))"
proof -
  let ?t = "h + length (m # ms)"
  have d: "?t - h < 2 ^ 62" using list_atD(1) [OF at] by simp
  have le: "h \<le> ?t" by simp
  have dle: "h div 31 \<le> ?t div 31" by (rule div_le_mono) simp
  have ne: "drop_bit 1 (lw h b) \<noteq> drop_bit 1 (lw ?t d)" for b
    using lidx_eq_mod [OF le d] by (simp add: drop_iw_eq)
  have blk: "unat (drop_bit 1 (lw h b)) div 32 \<noteq> unat (drop_bit 1 (lw ?t d)) div 32
      \<longleftrightarrow> h div 31 < ?t div 31" for b
    using block_eq_mod [OF le d] dle unfolding One_nat_def unat_drop_iw by linarith
  have hm: "hm \<Longrightarrow> h div 31 < ?t div 31" by (rule list_atD(4) [OF at])
  have tail: "po_index (lc_tail ch) = lw ?t d" using list_atD(3) [OF at] by simp
  show ?thesis
    unfolding list_new_head_def add_chk_lw obind.simps(1) tail SHIFT_def MARK_BIT_def LAP_def
    using ne blk hm by (simp add: Let_def iw_or_mark)
qed

lemma list_head_block:
  assumes at: "list_at h (b # bs) hm ms d ch"
  obtains bl where "lc_heap ch b = Some bl" "block_at h ms (h div 31) (first_of bs) bl"
    "blocks_at h ms (Suc (h div 31)) bs None (lc_heap ch)"
  using list_atD(10) [OF at] by (cases bs) auto

lemma list_at_nonempty: "list_at h bs hm (m # ms) d ch \<Longrightarrow> bs \<noteq> []"
  by (auto dest: list_atD(5))

text \<open>At the end of a block there is a next one, because a message is there.\<close>

lemma list_at_next:
  assumes at: "list_at h (b # bs) hm (m # ms) d ch" and last: "h mod 31 = 30"
  obtains c cs where "bs = c # cs"
proof -
  have "Suc h div 31 = Suc (h div 31)" using last by (simp add: div_Suc mod_Suc)
  moreover have "Suc h div 31 \<le> (h + length (m # ms)) div 31" by (rule div_le_mono) simp
  moreover have "length (b # bs) = Suc ((h + length (m # ms)) div 31 - h div 31)"
    using list_atD(6) [OF at] by simp
  ultimately have "length (b # bs) \<ge> 2" by linarith
  with that show thesis by (cases bs) auto
qed

text \<open>The state after a successful \<open>start_recv\<close>.\<close>

definition claimed :: "nat \<Rightarrow> bool \<Rightarrow> nat list \<Rightarrow> ('q, 't, 'm) lchan \<Rightarrow> ('q, 't, 'm) lchan" where
  "claimed h mk bs ch =
     (if h mod 31 = 30
      then ch\<lparr>lc_head := \<lparr>po_index = lw (Suc h) (tl (tl bs) \<noteq> []), po_block = first_of (tl bs)\<rparr>\<rparr>
      else ch\<lparr>lc_head := \<lparr>po_index = lw (Suc h) mk, po_block = first_of bs\<rparr>\<rparr>)"

lemma list_cas_head_done:
  assumes at: "list_at h (b # bs) hm (m # ms) d ch"
  shows "list_cas_head False (lw h hm) (iw (Suc (lidx h)) mk) (Some b) (h mod 31) ch
    = Done (Some (\<lparr>lt_block = Some b, lt_offset = h mod 31\<rparr>, claimed h mk (b # bs) ch))"
proof (cases "h mod 31 = 30")
  case False
  with list_atD(2) [OF at] show ?thesis
    by (simp add: list_cas_head_def claimed_def index_simps iw_Suc_lw)
next
  case True
  obtain c cs where bs: "bs = c # cs" using list_at_next [OF at True] .
  obtain bl where b: "lc_heap ch b = Some bl" "block_at h (m # ms) (h div 31) (first_of bs) bl"
    "blocks_at h (m # ms) (Suc (h div 31)) bs None (lc_heap ch)" using list_head_block [OF at] .
  have bl: "lc_heap ch b = Some bl" "bl_next bl = Some c" using b bs by (simp_all add: block_at_def)
  obtain cl where cl: "lc_heap ch c = Some cl" "bl_next cl \<noteq> None \<longleftrightarrow> cs \<noteq> []"
    using b(3) bs by (cases cs) (auto simp: block_at_def)
  have "iw (Suc (lidx h)) False + 2 = lw (Suc h) False" by (rule iw_Suc_gap [OF True])
  with True bs bl cl list_atD(2) [OF at] show ?thesis
    by (simp add: list_cas_head_def claimed_def index_simps wait_next_def get_block_def Let_def
        iw_and_not_mark iw_or_mark)
qed

lemma start_recv_claims:
  assumes at: "list_at h (b # bs) hm (m # ms) d ch" and ws: "False \<in> set ws"
  shows "list_start_recv_loop ws (lw h hm) (Some b) tok ch
    = Done (True, \<lparr>lt_block = Some b, lt_offset = h mod 31\<rparr>,
        claimed h (h div 31 < (h + length (m # ms)) div 31) (b # bs) ch)"
  using ws
proof (induction ws)
  case Nil
  then show ?case by simp
next
  case (Cons w ws)
  have "h mod 31 \<noteq> 31" using lidx_mod_lt [of h] by simp
  have spurious: "list_cas_head True (lw h hm) x (Some b) off ch = Done None" for x off
    by (simp add: list_cas_head_def)
  show ?case
    using Cons \<open>h mod 31 \<noteq> 31\<close> list_atD(2) [OF at] list_new_head_some [OF at] list_cas_head_done [OF at]
      spurious
    by (cases w) (auto simp: BLOCK_CAP_def LAP_def)
qed

lemma list_start_recv_empty:
  assumes at: "list_at h bs hm [] d ch" and ws: "ws \<noteq> []"
  shows "list_start_recv ws tok ch = Done (d, if d then tok\<lparr>lt_block := None\<rparr> else tok, ch)"
proof -
  have "h mod 31 \<noteq> 31" using lidx_mod_lt [of h] by simp
  with ws list_new_head_empty [OF at] list_atD(2) [OF at] show ?thesis
    by (cases ws) (auto simp: list_start_recv_def BLOCK_CAP_def LAP_def split: bool.split)
qed

text \<open>Reading the claimed slot; a block whose last slot is read is freed.\<close>

definition received :: "nat \<Rightarrow> bool \<Rightarrow> nat list \<Rightarrow> ('q, 't, 'm) lchan \<Rightarrow> ('q, 't, 'm) lchan" where
  "received h mk bs ch =
     (let b = hd bs; bl = the (lc_heap ch b); s = bl_slots bl ! (h mod 31) in
      (claimed h mk bs ch)\<lparr>lc_heap := (lc_heap ch)(b :=
         (if h mod 31 = 30 then None
          else Some (bl\<lparr>bl_slots := (bl_slots bl)[h mod 31 := s\<lparr>ls_state := 3\<rparr>]\<rparr>)))\<rparr>)"

lemma claimed_frame [simp]:
  "lc_heap (claimed h mk bs ch) = lc_heap ch" "lc_tail (claimed h mk bs ch) = lc_tail ch"
  "lc_fresh (claimed h mk bs ch) = lc_fresh ch" "lc_receivers (claimed h mk bs ch) = lc_receivers ch"
  "lc_first (claimed h mk bs ch) = lc_first ch"
  by (simp_all add: claimed_def)

lemma received_frame [simp]:
  "lc_tail (received h mk bs ch) = lc_tail ch" "lc_fresh (received h mk bs ch) = lc_fresh ch"
  "lc_receivers (received h mk bs ch) = lc_receivers ch" "lc_first (received h mk bs ch) = lc_first ch"
  "lc_head (received h mk bs ch) = lc_head (claimed h mk bs ch)"
  by (simp_all add: received_def Let_def)

lemma destroy_loop_all_read:
  assumes "lc_heap ch b = Some bl"
    "\<forall>i \<in> set is. i < length (bl_slots bl) \<and> ls_state (bl_slots bl ! i) AND READ \<noteq> 0"
  shows "destroy_loop (Some b) is ch = Done (ch\<lparr>lc_heap := (lc_heap ch)(b := None)\<rparr>)"
  using assms(2)
  by (induction "is") (simp_all add: list_free_def assms(1) get_slot_def get_block_def)

lemma list_take_claimed:
  assumes at: "list_at h (b # bs) hm (m # ms) d ch"
  shows "list_take_slot \<lparr>lt_block = Some b, lt_offset = h mod 31\<rparr> (claimed h mk (b # bs) ch)
    = Done (m, received h mk (b # bs) ch)"
proof -
  obtain bl where bl: "lc_heap ch b = Some bl" "block_at h (m # ms) (h div 31) (first_of bs) bl"
    using list_head_block [OF at] .
  have len: "length (bl_slots bl) = 31" and
    slot: "\<And>i. i < 31 \<Longrightarrow> slot_at h (m # ms) (31 * (h div 31) + i) (bl_slots bl ! i)"
    using bl(2) by (simp_all add: block_at_def)
  have s: "ls_state (bl_slots bl ! (h mod 31)) = 1" "ls_msg (bl_slots bl ! (h mod 31)) = Some m"
    using slot [OF lidx_mod_lt [of h]] by (simp_all add: slot_at_def)
  show ?thesis
  proof (cases "h mod 31 = 30")
    case False
    with s len bl(1) show ?thesis
      by (simp add: list_take_slot_def get_slot_def get_block_def set_slot_def set_block_def wait_write_def
          received_def Let_def list_consts)
  next
    case True
    have "ls_state (bl_slots bl ! i) = 3" if "i < 30" for i
    proof -
      have "31 * (h div 31) + i < h" using that True mult_div_mod_eq [of 31 h] by linarith
      with slot [of i] that show ?thesis by (simp add: slot_at_def)
    qed
    then have "\<forall>i \<in> set [0..<30]. i < length (bl_slots bl) \<and> ls_state (bl_slots bl ! i) AND READ \<noteq> 0"
      by (simp add: len READ_def)
    with destroy_loop_all_read [of "claimed h mk (b # bs) ch" b bl "[0..<30]"] bl(1) s len True
    show ?thesis
      by (simp add: list_take_slot_def get_slot_def get_block_def wait_write_def destroy_def
          received_def Let_def WRITE_def BLOCK_CAP_def LAP_def)
  qed
qed

lemma recv_list_at:
  assumes at: "list_at h (b # bs) hm (m # ms) d ch"
    and mk: "mk \<longleftrightarrow> h div 31 < (h + length (m # ms)) div 31"
  shows "\<exists>hm'. list_at (Suc h) (if h mod 31 = 30 then bs else b # bs) hm' ms d (received h mk (b # bs) ch)"
proof -
  obtain bl where bl: "lc_heap ch b = Some bl" "block_at h (m # ms) (h div 31) (first_of bs) bl"
    "blocks_at h (m # ms) (Suc (h div 31)) bs None (lc_heap ch)"
    using list_head_block [OF at] .
  note D = list_atD [OF at]
  have dist: "b \<notin> set bs" "distinct bs" using D(7) by simp_all
  have "h < Suc (h div 31) * 31" using dividend_less_div_times [of 31 h] by simp
  from blocks_at_recv [OF this bl(3)]
  have rest: "blocks_at (Suc h) ms (Suc (h div 31)) bs None (lc_heap (received h mk (b # bs) ch))"
    using dist by (simp add: received_def Let_def)
  show ?thesis
  proof (cases "h mod 31 = 30")
    case False
    then have same: "Suc h div 31 = h div 31" by (simp add: div_Suc mod_Suc)
    have "block_at (Suc h) ms (h div 31) (first_of bs)
        (bl\<lparr>bl_slots := (bl_slots bl)[h mod 31 := (bl_slots bl ! (h mod 31))\<lparr>ls_state := 3\<rparr>]\<rparr>)"
      by (rule block_at_recv [OF bl(2)]) simp
    then have "blocks_at (Suc h) ms (Suc h div 31) (b # bs) None (lc_heap (received h mk (b # bs) ch))"
      using rest False bl(1) by (cases bs) (simp_all add: same received_def Let_def)
    moreover have "dom (lc_heap (received h mk (b # bs) ch)) = set (b # bs)"
      using D(8) False by (auto simp: received_def Let_def)
    ultimately show ?thesis
      using False D mk by (intro exI [of _ mk]) (simp add: list_at_def claimed_def same)
  next
    case True
    then have nb: "Suc h div 31 = Suc (h div 31)" by (simp add: div_Suc mod_Suc)
    obtain c cs where bs: "bs = c # cs" using list_at_next [OF at True] .
    have len: "length (c # cs) = Suc ((Suc h + length ms) div 31 - Suc h div 31)"
      using D(6) bs by (simp add: nb)
    have "dom (lc_heap (received h mk (b # bs) ch)) = set bs"
      using D(8) True dist by (auto simp: received_def Let_def)
    moreover have "cs \<noteq> [] \<Longrightarrow> Suc h div 31 < (Suc h + length ms) div 31"
      using len by (cases cs) auto
    ultimately show ?thesis
      using True D rest len dist bs
      by (intro exI [of _ "cs \<noteq> []"]) (simp add: list_at_def claimed_def nb)
  qed
qed

lemma list_try_recv_some:
  assumes at: "list_at h bs hm (m # ms) d ch" and fair: "fair sp"
  obtains h' bs' hm' ch' where "list_try_recv sp ch = Done (Inr m, ch')" "list_at h' bs' hm' ms d ch'"
    "lc_receivers ch' = lc_receivers ch" "lc_first ch' = lc_first ch"
proof -
  obtain b cs where bs: "bs = b # cs" using list_at_nonempty [OF at] by (cases bs) auto
  note at' = at [unfolded bs]
  let ?mk = "h div 31 < (h + length (m # ms)) div 31"
  have "list_start_recv (sp 0) list_default ch
      = Done (True, \<lparr>lt_block = Some b, lt_offset = h mod 31\<rparr>, claimed h ?mk (b # cs) ch)"
    using start_recv_claims [OF at' fairD [OF fair]] list_atD(2) [OF at']
    by (simp add: list_start_recv_def)
  with list_take_claimed [OF at', of ?mk] have "list_try_recv sp ch = Done (Inr m, received h ?mk (b # cs) ch)"
    by (simp add: list_try_recv_def list_read_def)
  with recv_list_at [OF at' refl] that show thesis by fastforce
qed

lemma list_try_recv_empty:
  assumes at: "list_at h bs hm [] d ch" and fair: "fair sp"
  shows "list_try_recv sp ch = Done (Inl (if d then TryRecvDisconnected else TryRecvEmpty), ch)"
proof -
  have "sp 0 \<noteq> []" using fairD [OF fair, of 0] by auto
  from list_start_recv_empty [OF at this, of list_default] show ?thesis
    by (simp add: list_try_recv_def list_read_def)
qed

section \<open>Shutdown\<close>

lemma list_shutdown_refines:
  assumes at: "list_at h bs hm ms d ch" and laws: "aq_laws Q contents qcap"
    and wok: "sw_ok contents qcap (lc_receivers ch)"
  shows "\<exists>ch'. list_shutdown Q ch = Done (\<not> d, ch') \<and> list_at h bs hm ms True ch'
    \<and> sw_ok contents qcap (lc_receivers ch') \<and> lc_first ch' = lc_first ch
    \<and> (\<not> d \<longrightarrow> contents (w_queue (lc_receivers ch')) = []
         \<and> w_log (lc_receivers ch') = w_log (lc_receivers ch) @ contents (w_queue (lc_receivers ch)))"
proof -
  let ?ch1 = "ch\<lparr>lc_tail := (lc_tail ch)\<lparr>po_index := lw (h + length ms) True\<rparr>\<rparr>"
  have tail: "po_index (lc_tail ch) = lw (h + length ms) d" using list_atD(3) [OF at] by simp
  have at1: "list_at h bs hm ms True ?ch1" using at by (auto simp: list_at_def Let_def)
  show ?thesis
  proof (cases d)
    case True
    with tail have "list_shutdown Q ch = Done (False, ?ch1)"
      by (simp add: list_shutdown_def MARK_BIT_def Let_def iw_or_mark)
    with True at1 wok show ?thesis by simp
  next
    case False
    obtain w where w: "wake_all Q (lc_receivers ch) = Done w" "sw_ok contents qcap w"
      "contents (w_queue w) = []" "w_log w = w_log (lc_receivers ch) @ contents (w_queue (lc_receivers ch))"
      using wake_all_spec [OF laws wok] by metis
    then have "list_shutdown Q ch = Done (True, ?ch1\<lparr>lc_receivers := w\<rparr>)"
      using False tail by (simp add: list_shutdown_def MARK_BIT_def Let_def iw_or_mark)
    with False w at1 show ?thesis by simp
  qed
qed

lemma list_is_shutdown_correct: "list_at h bs hm ms d ch \<Longrightarrow> list_is_shutdown ch = d"
  using list_atD(3) by (fastforce simp: list_is_shutdown_def MARK_BIT_def)

lemma list_is_empty_correct:
  assumes at: "list_at h bs hm ms d ch"
  shows "list_is_empty ch \<longleftrightarrow> ms = []"
proof -
  have "h \<le> h + length ms" "h + length ms - h < 2 ^ 62" using list_atD(1) [OF at] by simp_all
  from lidx_eq_mod [OF this] list_atD(2,3) [OF at] show ?thesis
    by (simp add: list_is_empty_def SHIFT_def drop_iw_eq)
qed

section \<open>The number of messages\<close>

lemma lidx_add: "lidx k = k + k div 31"
  using mult_div_mod_eq [of 31 k] by (simp add: lidx_def)

lemma sub_chk_of_nat:
  "n \<le> m \<Longrightarrow> m < 2 ^ 64 \<Longrightarrow> sub_chk (of_nat m) (of_nat n) = Done (of_nat (m - n))"
  by (simp add: sub_chk_def word_le_nat_alt of_nat_diff)

lemma rotate_index:
  "iw r False - push_bit 1 (of_nat ((lidx h mod 2 ^ 63) div 32 * 32)) = iw r False - iw (32 * (h div 31)) False"
proof -
  have "push_bit 1 (of_nat ((lidx h mod 2 ^ 63) div 32 * 32)) = iw ((h div 31) mod 2 ^ 58 * 32) False"
    unfolding mod_63_div_32 lidx_mod_div by (simp add: iw_def push_bit_eq_mult)
  moreover have "(h div 31) mod 2 ^ 58 * 32 = (32 * (h div 31)) mod (32 * 2 ^ 58)"
    by (simp only: mult.commute [of _ 32] mult_mod_right)
  ultimately have "((h div 31) mod 2 ^ 58 * 32) mod 2 ^ 63 = (32 * (h div 31)) mod 2 ^ 63" by simp
  from iw_cong [OF this] show ?thesis
    by (simp only: \<open>push_bit 1 (of_nat ((lidx h mod 2 ^ 63) div 32 * 32)) = iw ((h div 31) mod 2 ^ 58 * 32) False\<close>)
qed

lemma list_len_of_correct:
  assumes "h \<le> t" "t - h < 2 ^ 62"
  shows "list_len_of (lw t d) (lw h hm) = Done (of_nat (t - h))"
proof -
  let ?T = "lidx t - 32 * (h div 31)" and ?H = "h mod 31"
  have hd: "32 * (h div 31) \<le> lidx h" by (simp add: lidx_def)
  have td: "32 * (h div 31) \<le> lidx t" using hd lidx_mono [OF assms(1)] by simp
  have dle: "h div 31 \<le> t div 31" using assms(1) by (rule div_le_mono)
  have Teq: "?T = 32 * (t div 31 - h div 31) + t mod 31" using dle by (simp add: lidx_def diff_mult_distrib2)
  have "t mod 31 < 32" using lidx_mod_lt [of t] by linarith
  with Teq have Td: "?T div 32 = t div 31 - h div 31" "?T mod 32 = t mod 31" by simp_all
  have p: "(2 :: nat) ^ 62 = 4611686018427387904" "(2 :: nat) ^ 63 = 9223372036854775808" by simp_all
  have "t div 31 \<le> (h + 2 ^ 62) div 31" using assms by (intro div_le_mono) linarith
  then have "t div 31 \<le> h div 31 + 2 ^ 61" by simp
  then have T: "?T < 2 ^ 63"
    using assms dle mult_div_mod_eq [of 31 h] lidx_mod_lt [of h] unfolding lidx_add p by simp
  have low: "one_shift - 1 = (1 :: usize)" by simp
  have rot_t: "unat (drop_bit SHIFT ((lw t d AND NOT 1) - push_bit SHIFT
      (of_nat (unat (drop_bit SHIFT (lw h hm AND NOT 1)) div LAP * LAP)))) = ?T"
    unfolding iw_and_not_mark SHIFT_def LAP_def
    using rotate_index [of "lidx t" h] T td by (simp add: unat_drop_iw iw_sub)
  have H: "lidx h - 32 * (h div 31) = ?H" "?H < 2 ^ 63"
    using lidx_mod_lt [of h] unfolding p by (simp_all add: lidx_def)
  have rot_h: "unat (drop_bit SHIFT ((lw h hm AND NOT 1) - push_bit SHIFT
      (of_nat (unat (drop_bit SHIFT (lw h hm AND NOT 1)) div LAP * LAP)))) = ?H"
    unfolding iw_and_not_mark SHIFT_def LAP_def
    using rotate_index [of "lidx h" h] hd H by (simp add: unat_drop_iw iw_sub)
  have off: "?H \<noteq> BLOCK_CAP" "?T \<noteq> BLOCK_CAP"
  proof -
    show "?H \<noteq> BLOCK_CAP" using lidx_mod_lt [of h] by (simp add: index_simps)
    have "?T mod 32 < 31" using Td(2) lidx_mod_lt [of t] by simp
    then show "?T \<noteq> BLOCK_CAP" by (auto simp: index_simps)
  qed
  obtain k where k: "t div 31 = h div 31 + k" using dle le_Suc_ex by blast
  have th: "t = 31 * (h div 31) + 31 * k + t mod 31" "h = 31 * (h div 31) + ?H"
    using mult_div_mod_eq [of 31 t] mult_div_mod_eq [of 31 h] unfolding k by simp_all
  have "?H \<le> 31 * k + t mod 31" using th assms(1) by linarith
  moreover have Tk: "?T = 32 * k + t mod 31" using Teq k by simp
  ultimately have HT: "?H \<le> ?T" "k \<le> ?T - ?H" "?T - ?H - k = t - h"
    using th by linarith+
  have T_H: "?T < 2 ^ 64" "?T - ?H < 2 ^ 64" "?H < 2 ^ 64" using T H unfolding p by simp_all
  have word: "x = of_nat n" if "unat x = n" for x :: usize and n using that by auto
  have un: "unat (of_nat ?T :: usize) = ?T" "unat (of_nat ?H :: usize) = ?H"
    using T_H unfolding unat_of_nat_64 by (simp_all only: mod_less)
  have "?T div LAP = k" using Td(1) k by (simp add: LAP_def)
  then have "list_len_of (lw t d) (lw h hm)
      = obind (sub_chk (of_nat ?T) (of_nat ?H)) (\<lambda>n. sub_chk n (of_nat k))"
    unfolding list_len_of_def low Let_def word [OF rot_t] word [OF rot_h] un
    by (simp only: off if_False obind.simps prod.case un)
  also have "\<dots> = Done (of_nat (t - h))"
    using HT T_H by (simp only: sub_chk_of_nat obind.simps)
  finally show ?thesis .
qed

lemma list_len_correct:
  assumes at: "list_at h bs hm ms d ch"
  shows "list_len ch = Done (of_nat (length ms))" "unat (of_nat (length ms) :: usize) = length ms"
proof -
  have "h \<le> h + length ms" "h + length ms - h < 2 ^ 62" using list_atD(1) [OF at] by simp_all
  from list_len_of_correct [OF this] list_atD(2,3) [OF at]
  show "list_len ch = Done (of_nat (length ms))" by (simp add: list_len_def)
  have "length ms < 2 ^ 64" using list_atD(1) [OF at] by simp
  then show "unat (of_nat (length ms) :: usize) = length ms" unfolding unat_of_nat_64 by (rule mod_less)
qed

lemma lidx_diff_lt:
  assumes "h \<le> t" "t - h < 2 ^ 62"
  shows "lidx t - lidx h < 2 ^ 63"
proof -
  have p: "(2 :: nat) ^ 62 = 4611686018427387904" "(2 :: nat) ^ 63 = 9223372036854775808" by simp_all
  have "t div 31 \<le> (h + 2 ^ 62) div 31" using assms by (intro div_le_mono) linarith
  then have "t div 31 \<le> h div 31 + 2 ^ 61" by simp
  with assms show ?thesis unfolding lidx_add p by simp
qed

section \<open>Dropping the channel\<close>

lemma drop_loop_end: "list_drop_loop fuel tail tail block ch = Done ([], block, ch)"
  by (cases fuel) simp_all

lemma lw_neq:
  assumes "h \<le> t" "t - h < 2 ^ 62" "h \<noteq> t"
  shows "lw h b \<noteq> lw t b"
  using lidx_eq_mod [OF assms(1,2)] assms(3) by (metis unat_drop_iw)

lemma gap_neq: "k mod 31 = 30 \<Longrightarrow> iw (Suc (lidx k)) b \<noteq> lw t b"
proof
  assume k: "k mod 31 = 30" and "iw (Suc (lidx k)) b = lw t b"
  then have "Suc (lidx k) mod 32 = lidx t mod 32" by (metis list_offset_iw)
  moreover have "Suc (lidx k) mod 32 = 31" using k by (simp add: mod_Suc)
  ultimately show False using lidx_mod_lt [of t] by simp
qed

lemma drop_loop_slot:
  assumes "k \<le> t" "t - k < 2 ^ 62" "k \<noteq> t" "get_slot (Some b) (k mod 31) ch = Done s" "ls_msg s = Some m"
  shows "list_drop_loop (Suc fuel) (lw k False) (lw t False) (Some b) ch
    = omap (\<lambda>(ms, r). (m # ms, r)) (list_drop_loop fuel (iw (Suc (lidx k)) False) (lw t False) (Some b) ch)"
  using assms(4,5) lw_neq [OF assms(1-3), of False] lidx_mod_lt [of k]
  by (simp add: BLOCK_CAP_def LAP_def iw_add_2)

lemma drop_loop_gap:
  assumes "k mod 31 = 30" "lc_heap ch b = Some bl"
  shows "list_drop_loop (Suc fuel) (iw (Suc (lidx k)) False) (lw t False) (Some b) ch
    = list_drop_loop fuel (lw (Suc k) False) (lw t False) (bl_next bl)
        (ch\<lparr>lc_heap := (lc_heap ch)(b := None)\<rparr>)"
proof -
  have "Suc (lidx k) mod 32 = 31" using assms(1) by (simp add: mod_Suc)
  then show ?thesis
    using assms gap_neq [OF assms(1), of False t] iw_Suc_gap [OF assms(1), of False]
    by (simp add: BLOCK_CAP_def LAP_def get_block_def list_free_opt_def list_free_def)
qed

lemma drop_loop_correct:
  assumes "j \<le> length ms" "length ms < 2 ^ 62" "lidx (h + length ms) - lidx (h + j) \<le> fuel"
    and "blocks_at h ms ((h + j) div 31) bs None (lc_heap ch)" "distinct bs" "dom (lc_heap ch) = set bs"
    and "length bs = Suc ((h + length ms) div 31 - (h + j) div 31)"
  shows "\<exists>heap. list_drop_loop fuel (lw (h + j) False) (lw (h + length ms) False) (first_of bs) ch
      = Done (drop j ms, Some (last bs), ch\<lparr>lc_heap := heap\<rparr>) \<and> dom heap = {last bs}"
  using assms(1,3-)
proof (induction "length ms - j" arbitrary: j fuel bs ch)
  case 0
  then have "j = length ms" by simp
  with 0 obtain b where "bs = [b]" by (cases bs) auto
  with 0 \<open>j = length ms\<close> show ?case
    by (intro exI [of _ "lc_heap ch"]) (simp add: drop_loop_end)
next
  case (Suc n)
  let ?k = "h + j" and ?t = "h + length ms"
  have j: "j < length ms" "n = length ms - Suc j" using Suc.hyps by simp_all
  have kt: "?k \<le> ?t" "?t - ?k < 2 ^ 62" "?k \<noteq> ?t" using j assms(2) by simp_all
  obtain b cs where bs: "bs = b # cs" using Suc.prems(6) by (cases bs) auto
  obtain bl where bl: "lc_heap ch b = Some bl" "block_at h ms (?k div 31) (first_of cs) bl"
    "blocks_at h ms (Suc (?k div 31)) cs None (lc_heap ch)"
    using Suc.prems(3) bs by (cases cs) auto
  have "slot_at h ms (31 * (?k div 31) + ?k mod 31) (bl_slots bl ! (?k mod 31))" "length (bl_slots bl) = 31"
    using bl(2) lidx_mod_lt [of ?k] unfolding block_at_def by blast+
  then have s: "get_slot (Some b) (?k mod 31) ch = Done (bl_slots bl ! (?k mod 31))"
    "ls_msg (bl_slots bl ! (?k mod 31)) = Some (ms ! j)"
    using bl(1) j lidx_mod_lt [of ?k] by (simp_all add: get_slot_def get_block_def slot_at_def)
  have dr: "drop j ms = ms ! j # drop (Suc j) ms" using j by (simp add: Cons_nth_drop_Suc)
  have fuel: "lidx ?t - lidx ?k \<le> fuel" using Suc.prems(2) .
  have lt: "lidx ?k < lidx ?t" using lidx_mono [OF kt(1)] kt(3) lidx_eq le_neq_implies_less by metis
  then obtain f where f: "fuel = Suc f" using fuel by (cases fuel) auto
  have step: "list_drop_loop fuel (lw ?k False) (lw ?t False) (first_of bs) ch
      = omap (\<lambda>(ms', r). (ms ! j # ms', r))
          (list_drop_loop f (iw (Suc (lidx ?k)) False) (lw ?t False) (Some b) ch)"
    using drop_loop_slot [OF kt s] by (simp add: f bs)
  show ?case
  proof (cases "?k mod 31 = 30")
    case False
    have same: "(h + Suc j) div 31 = ?k div 31" using False by (simp add: div_Suc mod_Suc)
    have "iw (Suc (lidx ?k)) False = lw (h + Suc j) False" using iw_Suc_lw [OF False] by simp
    have "lidx ?t - lidx (h + Suc j) \<le> f" using fuel f False by (simp add: lidx_Suc)
    from Suc.hyps(1) [OF j(2) _ this Suc.prems(3) [folded same] Suc.prems(4,5) Suc.prems(6) [folded same]] j
    obtain heap where "list_drop_loop f (lw (h + Suc j) False) (lw ?t False) (first_of bs) ch
      = Done (drop (Suc j) ms, Some (last bs), ch\<lparr>lc_heap := heap\<rparr>)" "dom heap = {last bs}" by auto
    moreover have "first_of bs = Some b" by (simp add: bs)
    ultimately show ?thesis
      using step dr \<open>iw (Suc (lidx ?k)) False = lw (h + Suc j) False\<close>
      by (intro exI [of _ heap]) simp
  next
    case True
    have nb: "(h + Suc j) div 31 = Suc (?k div 31)" using True by (simp add: div_Suc mod_Suc)
    have "h + Suc j \<le> ?t" using j by simp
    then have "Suc (?k div 31) \<le> ?t div 31" unfolding nb [symmetric] by (rule div_le_mono)
    then have len: "length cs = Suc (?t div 31 - (h + Suc j) div 31)"
      using Suc.prems(6) unfolding bs nb by (simp add: Suc_diff_Suc)
    then have cs: "cs \<noteq> []" by auto
    let ?ch1 = "ch\<lparr>lc_heap := (lc_heap ch)(b := None)\<rparr>"
    have "lidx (h + Suc j) \<le> lidx ?t" using \<open>h + Suc j \<le> ?t\<close> by (rule lidx_mono)
    then obtain g where g: "f = Suc g" "lidx ?t - lidx (h + Suc j) \<le> g"
      using fuel f True by (cases f) (auto simp: lidx_Suc)
    have gap: "list_drop_loop f (iw (Suc (lidx ?k)) False) (lw ?t False) (Some b) ch
        = list_drop_loop g (lw (h + Suc j) False) (lw ?t False) (first_of cs) ?ch1"
      using drop_loop_gap [OF True bl(1), of g ?t] bl(2) by (simp add: g(1) block_at_def)
    have "blocks_at h ms ((h + Suc j) div 31) cs None (lc_heap ?ch1)" "distinct cs" "dom (lc_heap ?ch1) = set cs"
      using bl(3) Suc.prems(4,5) bs nb by auto
    from Suc.hyps(1) [OF j(2) _ g(2) this len] j obtain heap where
      "list_drop_loop g (lw (h + Suc j) False) (lw ?t False) (first_of cs) ?ch1
        = Done (drop (Suc j) ms, Some (last cs), ?ch1\<lparr>lc_heap := heap\<rparr>)" "dom heap = {last cs}" by auto
    then show ?thesis using step gap dr cs by (intro exI [of _ heap]) (simp add: bs)
  qed
qed

lemma list_drop_correct:
  assumes at: "list_at h bs hm ms d ch"
  shows "\<exists>ch'. list_drop ch = Done (ms, ch') \<and> lc_heap ch' = (\<lambda>_. None)"
proof -
  let ?t = "h + length ms"
  note D = list_atD [OF at]
  have le: "h \<le> ?t" "?t - h < 2 ^ 62" using D(1) by simp_all
  have low: "one_shift - 1 = (1 :: usize)" by simp
  have fuel: "unat (drop_bit SHIFT (lw ?t False - lw h False)) = lidx ?t - lidx h"
    using lidx_diff_lt [OF le] lidx_mono [OF le(1)] by (simp add: iw_sub SHIFT_def unat_drop_iw)
  have drop: "list_drop ch = obind (list_drop_loop (lidx ?t - lidx h) (lw h False) (lw ?t False) (first_of bs) ch)
      (\<lambda>(ms, block, ch1). omap (\<lambda>ch2. (ms, ch2)) (list_free_opt block ch1))"
    unfolding list_drop_def low Let_def using D(2,3) fuel by (simp del: bit_minus_iff)
  show ?thesis
  proof (cases "bs = []")
    case True
    with D(5,8) drop show ?thesis
      by (auto simp: list_free_opt_def fun_eq_iff dom_def)
  next
    case False
    with drop_loop_correct [of 0 ms h "lidx ?t - lidx h" bs ch] D obtain heap where
      "list_drop_loop (lidx ?t - lidx h) (lw h False) (lw ?t False) (first_of bs) ch
        = Done (ms, Some (last bs), ch\<lparr>lc_heap := heap\<rparr>)" "dom heap = {last bs}" by auto
    then show ?thesis
      using drop by (auto simp: list_free_opt_def list_free_def fun_eq_iff dom_def split: option.split)
  qed
qed

end
