(* ===== verification/List_Props.thy ===== *)
theory List_Props
  imports List_Spec
begin

text \<open>
  The unbounded channel as an implementation of the channel contract: the interpretation of
  the interfaces, and the properties with their concrete instances. The contract holds as
  long as fewer than \<open>2 ^ 62\<close> messages are in the channel, which no address space can hold:
  a block of 31 slots takes more than 248 bytes.
\<close>

unbundle bit_operations_syntax

section \<open>The contract\<close>

definition list_contract ::
    "('q, 't) aq_ops \<Rightarrow> ('q \<Rightarrow> 't list) \<Rightarrow> ('q \<Rightarrow> nat) \<Rightarrow> 'm list \<Rightarrow> bool \<Rightarrow> ('q, 't, 'm) lchan \<Rightarrow> bool"
where
  "list_contract Q contents qcap ms d ch \<longleftrightarrow>
     aq_laws Q contents qcap \<and> list_rep ms d ch \<and> sw_ok contents qcap (lc_receivers ch)"

definition list_snd :: "('q, 't) aq_ops \<Rightarrow> weak \<Rightarrow> 'm \<Rightarrow> ('q, 't, 'm) lchan
    \<Rightarrow> (('m try_send_error + unit) \<times> ('q, 't, 'm) lchan) outcome" where
  "list_snd Q sp m ch = list_try_send Q sp m ch"

definition list_limit :: nat where
  "list_limit = 2 ^ 62 - 1"

definition list_fits :: "('q, 't, 'm) lchan \<Rightarrow> bool" where
  "list_fits ch = (case list_len ch of Done n \<Rightarrow> unat n < list_limit | _ \<Rightarrow> False)"

lemma list_fits_iff: "list_at h bs hm ms d ch \<Longrightarrow> list_fits ch \<longleftrightarrow> length ms < list_limit"
  using list_len_correct [of h bs hm ms d ch] by (simp add: list_fits_def)

interpretation unbounded: fifo_channel "list_contract Q contents qcap" "list_shutdown Q"
  list_is_shutdown None "Some list_limit" list_fits fair "list_snd Q" list_try_recv
  for Q :: "('q, 't) aq_ops" and contents qcap
proof unfold_locales
  fix ms :: "'m list" and d and ch :: "('q, 't, 'm) lchan"
  assume "list_contract Q contents qcap ms d ch"
  then obtain h bs hm where at: "list_at h bs hm ms d ch" and laws: "aq_laws Q contents qcap"
    and wok: "sw_ok contents qcap (lc_receivers ch)"
    by (auto simp: list_contract_def list_rep_def)
  show "list_is_shutdown ch = d" by (rule list_is_shutdown_correct [OF at])
  show "list_fits ch = has_room (Some list_limit) ms" by (simp add: list_fits_iff [OF at])
  show "\<exists>c'. list_shutdown Q ch = Done (\<not> d, c') \<and> list_contract Q contents qcap ms True c'"
    using list_shutdown_refines [OF at laws wok] laws by (auto simp: list_contract_def list_rep_def)
next
  fix ms ms' :: "'m list" and d and ch :: "('q, 't, 'm) lchan" and e m r
  assume c: "list_contract Q contents qcap ms d ch" and fair: "fair e"
    and room: "has_room (Some list_limit) ms" and spec: "spec_try_send None m ms d = (r, ms')"
  then obtain h bs hm where at: "list_at h bs hm ms d ch"
    by (auto simp: list_contract_def list_rep_def)
  show "\<exists>c'. list_snd Q e m ch = Done (r, c') \<and> list_contract Q contents qcap ms' d c'"
  proof (cases d)
    case True
    with list_try_send_closed [of h bs hm ms ch e Q m] at fair spec c show ?thesis
      by (auto simp: list_snd_def spec_try_send_def)
  next
    case False
    have "Suc (length ms) < 2 ^ 62" using room by (simp add: list_limit_def)
    then obtain bs' hm' ch' where "list_try_send Q e m ch = Done (Inr (), ch')"
      "list_at h bs' hm' (ms @ [m]) False ch'" "lc_receivers ch' = wake Q (lc_receivers ch)"
      using list_try_send_room [OF _ fair, of h bs hm ms ch Q m] at False by metis
    with False spec c wake_ok show ?thesis
      by (auto simp: list_snd_def spec_try_send_def list_contract_def list_rep_def)
  qed
next
  fix ms ms' :: "'m list" and d and ch :: "('q, 't, 'm) lchan" and e r
  assume c: "list_contract Q contents qcap ms d ch" and fair: "fair e"
    and spec: "spec_try_recv ms d = (r, ms')"
  then obtain h bs hm where at: "list_at h bs hm ms d ch"
    by (auto simp: list_contract_def list_rep_def)
  show "\<exists>c'. list_try_recv e ch = Done (r, c') \<and> list_contract Q contents qcap ms' d c'"
  proof (cases ms)
    case Nil
    with list_try_recv_empty [of h bs hm d ch e] at fair spec c show ?thesis
      by (auto simp: spec_try_recv_def)
  next
    case (Cons m us)
    then obtain h' bs' hm' ch' where "list_try_recv e ch = Done (Inr m, ch')"
      "list_at h' bs' hm' us d ch'" "lc_receivers ch' = lc_receivers ch"
      using list_try_recv_some [OF _ fair, of h bs hm m us d ch] at by metis
    with Cons spec c show ?thesis
      by (auto simp: spec_try_recv_def list_contract_def list_rep_def)
  qed
qed

section \<open>Polling\<close>

lemma list_claim:
  assumes at: "list_at h bs hm (m # ms) d ch" and ws: "False \<in> set ws"
  obtains tok' ch1 ch' h' bs' hm' where "list_start_recv ws tok ch = Done (True, tok', ch1)"
    "lt_block tok' \<noteq> None" "list_take_slot tok' ch1 = Done (m, ch')" "list_at h' bs' hm' ms d ch'"
proof -
  obtain b cs where bs: "bs = b # cs" using list_at_nonempty [OF at] by (cases bs) auto
  note at' = at [unfolded bs]
  let ?mk = "h div 31 < (h + length (m # ms)) div 31"
  have start: "list_start_recv ws tok ch
      = Done (True, \<lparr>lt_block = Some b, lt_offset = h mod 31\<rparr>, claimed h ?mk (b # cs) ch)"
    using start_recv_claims [OF at' ws] list_atD(2) [OF at'] by (simp add: list_start_recv_def)
  obtain hm' where "list_at (Suc h) (if h mod 31 = 30 then cs else b # cs) hm' ms d (received h ?mk (b # cs) ch)"
    using recv_list_at [OF at' refl] by blast
  from that [OF start _ list_take_claimed [OF at'] this] show thesis by simp
qed

lemma list_poll_message:
  assumes rep: "list_rep (m # ms) d ch" and fair: "fair sp"
  shows "\<exists>ch'. list_poll Q sp cur ch = Done (Inr (Ready (Some m)), ch') \<and> list_rep ms d ch'"
proof -
  obtain h bs hm where at: "list_at h bs hm (m # ms) d ch" using rep by (auto simp: list_rep_def)
  obtain tok' ch1 ch' h' bs' hm' where "list_start_recv (sp 0) list_default ch = Done (True, tok', ch1)"
    "lt_block tok' \<noteq> None" "list_take_slot tok' ch1 = Done (m, ch')" "list_at h' bs' hm' ms d ch'"
    using list_claim [OF at fairD [OF fair]] by metis
  then show ?thesis by (auto simp: list_poll_def list_poll_read_def list_rep_def)
qed

lemma list_start_recv_none:
  assumes rep: "list_rep [] d ch" and fair: "fair sp"
  shows "list_start_recv (sp i) tok ch = Done (d, if d then tok\<lparr>lt_block := None\<rparr> else tok, ch)"
proof -
  have "sp i \<noteq> []" using fairD [OF fair, of i] by auto
  moreover obtain h bs hm where "list_at h bs hm [] d ch" using rep by (auto simp: list_rep_def)
  ultimately show ?thesis by (rule list_start_recv_empty [rotated])
qed

lemma list_rep_frame [simp]:
  "list_rep ms d (ch\<lparr>lc_receivers := r\<rparr>) = list_rep ms d ch"
  "list_rep ms d (ch\<lparr>lc_first := f\<rparr>) = list_rep ms d ch"
  by (simp_all add: list_rep_def)

lemma list_poll_again_empty:
  assumes rep: "list_rep [] False ch" and fair: "fair sp"
    and reg: "register Q (sp 1) cur (lc_receivers ch) = Done w"
  shows "list_poll_again Q sp cur tok ch = Done (Inr NotReady, ch\<lparr>lc_receivers := w\<rparr>)"
  using list_start_recv_none [of False "ch\<lparr>lc_receivers := w\<rparr>" sp 2 tok] rep fair reg
  by (simp add: list_poll_again_def)

text \<open>
  C35. \<open>poll\<close> of the unbounded channel on every branch, as for the bounded one: the oldest
  message, the end of the stream, or \<open>NotReady\<close>; the task is registered when this is the
  channel's first poll or a notification is outstanding, and not otherwise.
\<close>

theorem unbounded_poll:
  assumes "list_rep ms d ch" "aq_laws Q contents qcap" "sw_ok contents qcap (lc_receivers ch)" "fair sp"
  shows "case ms of
      m # ms' \<Rightarrow> \<exists>ch'. list_poll Q sp (Some t) ch = Done (Inr (Ready (Some m)), ch') \<and> list_rep ms' d ch'
    | [] \<Rightarrow>
        if d then list_poll Q sp (Some t) ch = Done (Inr (Ready None), ch)
        else if lc_first ch \<or> w_from_me (lc_receivers ch) \<noteq> 0
        then \<exists>v w. list_poll Q sp (Some t) ch = Done (Inr NotReady, ch\<lparr>lc_first := False, lc_receivers := w\<rparr>)
               \<and> register Q (sp 1) (Some t) v = Done w
               \<and> v = (if lc_first ch then lc_receivers ch
                      else (lc_receivers ch)\<lparr>w_from_me := w_from_me (lc_receivers ch) - 1\<rparr>)
        else list_poll Q sp (Some t) ch = Done (Inr NotReady, ch)"
proof (cases ms)
  case (Cons m ms')
  with list_poll_message [of m ms' d ch sp Q "Some t"] assms show ?thesis by auto
next
  case Nil
  then have rep: "list_rep [] d ch" using assms(1) by simp
  note S = list_start_recv_none [OF rep assms(4), of 0 list_default]
  let ?v = "if lc_first ch then lc_receivers ch
      else (lc_receivers ch)\<lparr>w_from_me := w_from_me (lc_receivers ch) - 1\<rparr>"
  have "sw_ok contents qcap ?v" using assms(3) by (simp add: sw_ok_def)
  then obtain w where w: "register Q (sp 1) (Some t) ?v = Done w"
    using register_total [OF assms(2) _ fairD [OF assms(4)]] by metis
  show ?thesis
  proof (cases "d \<or> lc_first ch")
    case True
    with rep S w list_poll_again_empty [of "ch\<lparr>lc_first := False\<rparr>" sp Q "Some t" w list_default] assms(4) Nil
    show ?thesis by (auto simp: list_poll_def list_poll_read_def)
  next
    case False
    with rep S w list_poll_again_empty [of "ch\<lparr>lc_receivers := ?v\<rparr>" sp Q "Some t" w list_default] assms(4) Nil
    show ?thesis
      by (cases "w_from_me (lc_receivers ch) = 0")
        (auto simp: list_poll_def positive_update_fair [OF fairD [OF assms(4)]] word_neq_0_conv)
  qed
qed

section \<open>Properties\<close>

text \<open>
  C7. The unbounded channel is a queue. A new channel answers any sequence of \<open>try_send\<close>,
  \<open>try_recv\<close> and \<open>shutdown\<close> calls exactly as the abstract unbounded queue does: it loses,
  duplicates and reorders no message, whatever the spurious failures, across the ends of
  blocks and the wrap-around of its indices; no call touches a block that has been freed
  or was never allocated, panics or fails to return.
\<close>

theorem unbounded_refines_queue:
  fixes Q :: "('q, 't) aq_ops" and calls :: "(weak \<times> 'm call) list"
  assumes "aq_laws Q contents qcap" and "\<forall>(e, x) \<in> set calls. fair e" and "length calls < 2 ^ 62"
  shows "\<exists>ch' answers ms d.
      spec_run None (map snd calls) ([], False) = (answers, ms, d)
    \<and> impl_run (list_snd Q) list_try_recv (list_shutdown Q) calls (list_new Q) = Done (answers, ch')
    \<and> list_rep ms d ch'"
proof -
  have c: "list_contract Q contents qcap ([] :: 'm list) False (list_new Q)"
    using assms(1) list_new_at [of Q] swaker_new_ok [OF assms(1)]
    by (auto simp: list_contract_def list_rep_def list_new_def)
  have room: "room_for (Some list_limit) ([] :: 'm list) (length calls)"
    using assms(3) by (simp add: room_for_def list_limit_def)
  obtain answers ms d where spec: "spec_run None (map snd calls) ([], False) = (answers, ms, d)"
    by (metis prod_cases3)
  from unbounded.run_refines [OF c assms(2) room spec] spec show ?thesis
    by (auto simp: list_contract_def)
qed

definition ex_list_calls :: "(weak \<times> nat call) list" where
  "ex_list_calls = [(\<lambda>_. [True, False], SendCall 7), (\<lambda>_. [False], RecvCall)]"

theorem unbounded_refines_queue_witness:
  "\<exists>ch' answers ms d.
      spec_run None (map snd ex_list_calls) ([], False) = (answers, ms, d)
    \<and> impl_run (list_snd (list_aq :: (nat \<times> nat list, nat) aq_ops)) list_try_recv (list_shutdown list_aq)
        ex_list_calls (list_new list_aq) = Done (answers, ch')
    \<and> list_rep ms d ch'"
  by (rule unbounded_refines_queue [OF list_aq_laws]) (simp_all add: fair_def ex_list_calls_def)

text \<open>
  C36. \<open>len\<close>, \<open>is_empty\<close> and \<open>is_shutdown\<close> report the abstract queue of a channel at rest:
  \<open>len\<close> counts the messages exactly, also when head and tail are many blocks apart and
  after the indices have wrapped, and none of its subtractions underflows.
\<close>

theorem unbounded_observers:
  assumes "list_rep ms d ch"
  shows "list_len ch = Done (of_nat (length ms)) \<and> unat (of_nat (length ms) :: usize) = length ms
    \<and> (list_is_empty ch \<longleftrightarrow> ms = []) \<and> list_is_shutdown ch = d"
  using assms list_len_correct list_is_empty_correct list_is_shutdown_correct
  unfolding list_rep_def by metis

text \<open>
  C34. Dropping the unbounded channel drops exactly the messages that were sent and not
  received, each once and in order, and frees every block once: nothing is left on the heap.
\<close>

theorem unbounded_drop_exact:
  assumes "list_rep ms d ch"
  shows "\<exists>ch'. list_drop ch = Done (ms, ch') \<and> lc_heap ch' = (\<lambda>_. None)"
  using assms list_drop_correct unfolding list_rep_def by blast

text \<open>A channel with 32 messages, in two blocks, of which two have been received.\<close>

lemma ex_list_run:
  "\<exists>ch. list_contract (list_aq :: (nat \<times> nat list, nat) aq_ops) snd fst [2..<32] False ch"
proof -
  let ?e = "\<lambda>_ :: nat. [False]"
  let ?calls = "map (\<lambda>i. (?e, SendCall i)) [0..<32] @ replicate (length [0, 1 :: nat]) (?e, RecvCall)"
  have c: "list_contract (list_aq :: (nat \<times> nat list, nat) aq_ops) snd fst ([] :: nat list) False (list_new list_aq)"
    using list_aq_laws list_new_at swaker_new_ok [OF list_aq_laws]
    by (auto simp: list_contract_def list_rep_def list_new_def)
  have room: "room_for (Some list_limit) ([] :: nat list) (length ?calls)"
    by (simp add: room_for_def list_limit_def)
  have good: "\<forall>(e, x) \<in> set ?calls. fair e" by auto
  have snds: "map snd ?calls = map SendCall [0..<32] @ replicate (length [0, 1 :: nat]) RecvCall"
    by (simp add: comp_def del: upt.simps)
  have split: "[0..<32] = [0, 1] @ [2..<32 :: nat]"
    by (simp add: upt_conv_Cons del: upt.simps)
  have "spec_run None (map SendCall [0..<32 :: nat]) ([], False) = (map (\<lambda>_. SendAnswer (Inr ())) [0..<32 :: nat], [0..<32], False)"
    using spec_run_sends [where bound = None and ms = "[]" and xs = "[0..<32 :: nat]"] by simp
  then have "\<exists>answers. spec_run None (map snd ?calls) ([], False) = (answers, [2..<32], False)"
    unfolding snds spec_run_append Let_def
    using spec_run_recvs [where bound = None and xs = "[0, 1 :: nat]" and ms = "[2..<32]" and d = False]
    unfolding split [symmetric] by (simp only: prod.case) blast
  then obtain answers where "spec_run None (map snd ?calls) ([], False) = (answers, [2..<32], False)" by blast
  from unbounded.run_refines [OF c good room this] show ?thesis by blast
qed

theorem unbounded_observers_witness:
  "\<exists>ch :: (nat \<times> nat list, nat, nat) lchan. list_rep [2..<32] False ch \<and> list_len ch = Done 30
     \<and> \<not> list_is_empty ch"
proof -
  obtain ch :: "(nat \<times> nat list, nat, nat) lchan" where "list_rep [2..<32] False ch"
    using ex_list_run by (auto simp: list_contract_def)
  with unbounded_observers [OF this] show ?thesis by auto
qed

theorem unbounded_drop_exact_witness:
  "\<exists>ch ch' :: (nat \<times> nat list, nat, nat) lchan. list_rep [2..<32] False ch \<and> list_drop ch = Done ([2..<32], ch')"
proof -
  obtain ch :: "(nat \<times> nat list, nat, nat) lchan" where "list_rep [2..<32] False ch"
    using ex_list_run by (auto simp: list_contract_def)
  with unbounded_drop_exact [OF this] show ?thesis by blast
qed

theorem unbounded_poll_witness:
  "\<exists>ch ch' :: (nat \<times> nat list, nat, nat) lchan.
     list_poll list_aq (\<lambda>_. [False]) (Some 5) ch = Done (Inr (Ready (Some 2)), ch') \<and> list_rep [3..<32] False ch'"
proof -
  obtain ch :: "(nat \<times> nat list, nat, nat) lchan" where
    "list_contract list_aq snd fst [2..<32] False ch" using ex_list_run by blast
  then have "list_rep [2..<32] False ch" "sw_ok snd fst (lc_receivers ch)"
    by (simp_all add: list_contract_def)
  from unbounded_poll [OF this(1) list_aq_laws this(2) fair_const, of 5] show ?thesis
    by (auto simp: upt_conv_Cons simp del: upt.simps split: list.splits)
qed

text \<open>
  \<open>start_send\<close> of the sink queues the item, or is an error after shutdown; the
  \<open>unreachable!\<close> of the source is not reached, because \<open>try_send\<close> never reports
  \<open>NoCapacity\<close> and \<open>send\<close> never reports \<open>Timeout\<close>.
\<close>

theorem unbounded_sink:
  assumes "list_rep ms d ch" and "fair sp" and "Suc (length ms) < 2 ^ 62"
  shows "\<exists>ch'. list_sink_start_send Q sp m ch = Done (if d then Inl SendError else Inr SinkReady, ch')
    \<and> list_rep (if d then ms else ms @ [m]) d ch'"
proof -
  obtain h bs hm where at: "list_at h bs hm ms d ch" using assms(1) by (auto simp: list_rep_def)
  show ?thesis
  proof (cases d)
    case True
    with list_try_send_closed [of h bs hm ms ch sp Q m] at assms show ?thesis
      by (simp add: list_sink_start_send_def)
  next
    case False
    with at list_try_send_room [OF _ assms(2,3), of h bs hm ch Q m] obtain bs' hm' ch' where
      "list_try_send Q sp m ch = Done (Inr (), ch')" "list_at h bs' hm' (ms @ [m]) False ch'" by metis
    with False show ?thesis by (auto simp: list_sink_start_send_def list_rep_def)
  qed
qed

theorem unbounded_sink_witness:
  "\<exists>ch ch' :: (nat \<times> nat list, nat, nat) lchan.
     list_sink_start_send list_aq (\<lambda>_. [False]) 9 ch = Done (Inr SinkReady, ch') \<and> list_rep ([2..<32] @ [9]) False ch'"
proof -
  obtain ch :: "(nat \<times> nat list, nat, nat) lchan" where "list_rep [2..<32] False ch"
    using ex_list_run by (auto simp: list_contract_def)
  from unbounded_sink [OF this fair_const, of list_aq 9] show ?thesis by auto
qed

end
