(* ===== verification/Ref_Counter.thy ===== *)
theory Ref_Counter
  imports Interleave Channel_Contract
begin

text \<open>
  The reference counter of \<open>src/counter.rs\<close>: a heap box with the channel, the numbers of
  its senders and receivers, and the flag \<open>destroy\<close>, used by any number of threads at
  once. \<open>Sender\<close> and \<open>Receiver\<close> have the same code, so a handle has a side. A thread
  holds handles, clones and drops them, calls the channel through them, and hands them to
  other threads; each atomic access is one step. A call on the channel is one step too:
  the interleavings inside a call belong to the theory of the channel. Whatever touches
  the box after it was freed is a \<open>Fault\<close>.
\<close>

section \<open>The box and the handles\<close>

datatype side = SendSide | RecvSide

text \<open>
  \<open>cb_alive\<close>: the box is allocated. The fields after it are history: the clones made and
  the handles given to \<open>mem::forget\<close> on each side, the handles on their way from one
  thread to another, the sides that are through with \<open>release\<close>, and what the calls of
  \<open>shutdown\<close> in \<open>release\<close> answered.
\<close>

record 'c counter_box =
  cb_senders :: usize
  cb_receivers :: usize
  cb_destroy :: bool
  cb_chan :: 'c
  cb_alive :: bool
  cb_made :: "side \<Rightarrow> nat"
  cb_forgotten :: "side \<Rightarrow> nat"
  cb_moving :: "side \<Rightarrow> nat"
  cb_through :: "side \<Rightarrow> bool"
  cb_answers :: "bool list"

text \<open>
  Where a thread is: in \<open>acquire\<close> with the value \<open>fetch_add\<close> returned, and in \<open>release\<close>
  after the \<open>fetch_sub\<close> that found the last handle of a side, before \<open>disconnect\<close>, before
  the \<open>swap\<close> of \<open>destroy\<close>, and before the box is dropped.
\<close>

datatype hpc = HIdle | Acquiring side usize | Disconnecting side | Swapping side | Freeing

record holder =
  hd_handles :: "side \<Rightarrow> nat"
  hd_pc :: hpc

definition no_handles :: holder where
  "no_handles = \<lparr>hd_handles = \<lambda>_. 0, hd_pc = HIdle\<rparr>"

definition counter_new :: "'c \<Rightarrow> 'c counter_box \<times> holder" where
  "counter_new chan =
     (\<lparr>cb_senders = 1, cb_receivers = 1, cb_destroy = False, cb_chan = chan, cb_alive = True,
       cb_made = \<lambda>_. 1, cb_forgotten = \<lambda>_. 0, cb_moving = \<lambda>_. 0, cb_through = \<lambda>_. False,
       cb_answers = []\<rparr>,
      \<lparr>hd_handles = \<lambda>_. 1, hd_pc = HIdle\<rparr>)"

fun cb_count :: "side \<Rightarrow> 'c counter_box \<Rightarrow> usize" where
  "cb_count SendSide b = cb_senders b"
| "cb_count RecvSide b = cb_receivers b"

fun cb_set_count :: "side \<Rightarrow> usize \<Rightarrow> 'c counter_box \<Rightarrow> 'c counter_box" where
  "cb_set_count SendSide v b = b\<lparr>cb_senders := v\<rparr>"
| "cb_set_count RecvSide v b = b\<lparr>cb_receivers := v\<rparr>"

section \<open>Steps\<close>

text \<open>Access through the raw pointer.\<close>

definition deref_box :: "'c counter_box \<Rightarrow> ('c counter_box \<Rightarrow> 'r outcome) \<Rightarrow> 'r outcome" where
  "deref_box b f = (if cb_alive b then f b else Fault)"

definition acquire_add :: "side \<Rightarrow> 'c counter_box \<Rightarrow> (usize \<times> 'c counter_box) outcome" where
  "acquire_add sd b = deref_box b (\<lambda>b.
     Done (cb_count sd b, (cb_set_count sd (cb_count sd b + 1) b)
       \<lparr>cb_made := (cb_made b)(sd := Suc (cb_made b sd))\<rparr>))"

text \<open>\<open>process::abort\<close> is a \<open>Panic\<close>.\<close>

definition acquire_check :: "usize \<Rightarrow> unit outcome" where
  "acquire_check old = (if old = - 1 then Panic else Done ())"

definition release_sub :: "side \<Rightarrow> 'c counter_box \<Rightarrow> (usize \<times> 'c counter_box) outcome" where
  "release_sub sd b = deref_box b (\<lambda>b.
     Done (cb_count sd b, cb_set_count sd (cb_count sd b - 1) b))"

definition release_disconnect ::
    "('c \<Rightarrow> (bool \<times> 'c) outcome) \<Rightarrow> 'c counter_box \<Rightarrow> 'c counter_box outcome" where
  "release_disconnect shut b = deref_box b (\<lambda>b.
     omap (\<lambda>(r, c). b\<lparr>cb_chan := c, cb_answers := cb_answers b @ [r]\<rparr>) (shut (cb_chan b)))"

definition release_swap :: "side \<Rightarrow> 'c counter_box \<Rightarrow> (bool \<times> 'c counter_box) outcome" where
  "release_swap sd b = deref_box b (\<lambda>b.
     Done (cb_destroy b, b\<lparr>cb_destroy := True, cb_through := (cb_through b)(sd := True)\<rparr>))"

definition release_free :: "'c counter_box \<Rightarrow> 'c counter_box outcome" where
  "release_free b = deref_box b (\<lambda>b. Done (b\<lparr>cb_alive := False\<rparr>))"

text \<open>\<open>deref\<close>, \<open>deref_mut\<close>, \<open>poll\<close> and \<open>start_send\<close> of a handle: a call on the channel.\<close>

definition handle_use ::
    "('u \<Rightarrow> 'c \<Rightarrow> 'c outcome) \<Rightarrow> 'u \<Rightarrow> 'c counter_box \<Rightarrow> 'c counter_box outcome" where
  "handle_use use_op u b = deref_box b (\<lambda>b. omap (\<lambda>c. b\<lparr>cb_chan := c\<rparr>) (use_op u (cb_chan b)))"

datatype 'u hinput = CallClone side | CallDrop side | CallUse side 'u | Forget side
  | Give side | Take side | Continue

definition hd_add :: "side \<Rightarrow> holder \<Rightarrow> holder" where
  "hd_add sd h = h\<lparr>hd_handles := (hd_handles h)(sd := Suc (hd_handles h sd))\<rparr>"

definition hd_sub :: "side \<Rightarrow> holder \<Rightarrow> holder" where
  "hd_sub sd h = h\<lparr>hd_handles := (hd_handles h)(sd := hd_handles h sd - 1)\<rparr>"

fun call_step ::
    "('u \<Rightarrow> 'c \<Rightarrow> 'c outcome) \<Rightarrow> 'u hinput \<Rightarrow> 'c counter_box \<Rightarrow> holder
     \<Rightarrow> ('c counter_box \<times> holder) outcome" where
  "call_step use_op (CallClone sd) b h =
     (if hd_handles h sd = 0 then Spin else
      omap (\<lambda>(old, b'). (b', h\<lparr>hd_pc := Acquiring sd old\<rparr>)) (acquire_add sd b))"
| "call_step use_op (CallDrop sd) b h =
     (if hd_handles h sd = 0 then Spin else
      omap (\<lambda>(old, b'). (b', (hd_sub sd h)\<lparr>hd_pc := if old = 1 then Disconnecting sd else HIdle\<rparr>))
        (release_sub sd b))"
| "call_step use_op (CallUse sd u) b h =
     (if hd_handles h sd = 0 then Spin else omap (\<lambda>b'. (b', h)) (handle_use use_op u b))"
| "call_step use_op (Forget sd) b h =
     (if hd_handles h sd = 0 then Spin else
      Done (b\<lparr>cb_forgotten := (cb_forgotten b)(sd := Suc (cb_forgotten b sd))\<rparr>, hd_sub sd h))"
| "call_step use_op (Give sd) b h =
     (if hd_handles h sd = 0 then Spin else
      Done (b\<lparr>cb_moving := (cb_moving b)(sd := Suc (cb_moving b sd))\<rparr>, hd_sub sd h))"
| "call_step use_op (Take sd) b h =
     (if cb_moving b sd = 0 then Spin else
      Done (b\<lparr>cb_moving := (cb_moving b)(sd := cb_moving b sd - 1)\<rparr>, hd_add sd h))"
| "call_step use_op Continue b h = Spin"

fun counter_step ::
    "('c \<Rightarrow> (bool \<times> 'c) outcome) \<Rightarrow> ('u \<Rightarrow> 'c \<Rightarrow> 'c outcome)
     \<Rightarrow> ('u hinput, 'c counter_box, holder) thread_step" where
  "counter_step shut use_op inp i b h =
     (case hd_pc h of
        HIdle \<Rightarrow> call_step use_op inp b h
      | Acquiring sd old \<Rightarrow>
          omap (\<lambda>_. (b, (hd_add sd h)\<lparr>hd_pc := HIdle\<rparr>)) (acquire_check old)
      | Disconnecting sd \<Rightarrow> omap (\<lambda>b'. (b', h\<lparr>hd_pc := Swapping sd\<rparr>)) (release_disconnect shut b)
      | Swapping sd \<Rightarrow>
          omap (\<lambda>(old, b'). (b', h\<lparr>hd_pc := if old then Freeing else HIdle\<rparr>)) (release_swap sd b)
      | Freeing \<Rightarrow> omap (\<lambda>b'. (b', h\<lparr>hd_pc := HIdle\<rparr>)) (release_free b))"

section \<open>Counting\<close>

lemma all_side: "(\<forall>sd. P sd) \<longleftrightarrow> P SendSide \<and> P RecvSide"
  by (metis side.exhaust)

text \<open>What a thread contributes: handles it holds or is about to hold, releases it is in.\<close>

definition live :: "side \<Rightarrow> holder \<Rightarrow> nat" where
  "live sd h = hd_handles h sd + (case hd_pc h of Acquiring sd' _ \<Rightarrow> of_bool (sd' = sd) | _ \<Rightarrow> 0)"

definition telling :: "side \<Rightarrow> holder \<Rightarrow> nat" where
  "telling sd h = of_bool (hd_pc h = Disconnecting sd)"

definition swapping :: "side \<Rightarrow> holder \<Rightarrow> nat" where
  "swapping sd h = of_bool (hd_pc h = Swapping sd)"

definition freeing :: "holder \<Rightarrow> nat" where
  "freeing h = of_bool (hd_pc h = Freeing)"

text \<open>All handles of a side that exist, also those that are forgotten or in transit.\<close>

definition owned :: "side \<Rightarrow> 'c counter_box \<times> holder list \<Rightarrow> nat" where
  "owned sd c = tally (live sd) (snd c) + cb_moving (fst c) sd + cb_forgotten (fst c) sd"

text \<open>Fewer handles have ever been made than the counters can count.\<close>

definition few :: "'c counter_box \<Rightarrow> bool" where
  "few b \<longleftrightarrow> cb_made b SendSide < 2 ^ 64 \<and> cb_made b RecvSide < 2 ^ 64"

text \<open>
  The invariant of a side: the counter counts, and from the moment there is no handle any
  more there is one thread in its release until the side is through. The invariant of
  the box: it is freed, or a thread is about to free it, exactly when both sides are
  through.
\<close>

definition side_ok :: "side \<Rightarrow> 'c counter_box \<times> holder list \<Rightarrow> bool" where
  "side_ok sd c \<longleftrightarrow>
     owned sd c \<le> cb_made (fst c) sd \<and>
     cb_count sd (fst c) = of_nat (owned sd c) \<and>
     tally (telling sd) (snd c) + tally (swapping sd) (snd c) + of_bool (cb_through (fst c) sd)
       = (of_bool (owned sd c = 0) :: nat) \<and>
     (\<forall>h \<in> set (snd c). \<forall>old. hd_pc h = Acquiring sd old \<longrightarrow> unat old < cb_made (fst c) sd)"

definition told_side :: "side \<Rightarrow> 'c counter_box \<times> holder list \<Rightarrow> bool" where
  "told_side sd c \<longleftrightarrow> owned sd c = 0 \<and> tally (telling sd) (snd c) = 0"

definition box_ok :: "'c counter_box \<times> holder list \<Rightarrow> bool" where
  "box_ok c \<longleftrightarrow>
     cb_destroy (fst c) = (cb_through (fst c) SendSide \<or> cb_through (fst c) RecvSide) \<and>
     tally freeing (snd c) + of_bool (\<not> cb_alive (fst c))
       = (of_bool (cb_through (fst c) SendSide \<and> cb_through (fst c) RecvSide) :: nat) \<and>
     length (cb_answers (fst c))
       = of_bool (told_side SendSide c) + of_bool (told_side RecvSide c)"

definition chan_ok :: "('m list \<Rightarrow> bool \<Rightarrow> 'c \<Rightarrow> bool) \<Rightarrow> 'c counter_box \<times> holder list \<Rightarrow> bool" where
  "chan_ok rep c \<longleftrightarrow>
     (\<exists>ms d. rep ms d (cb_chan (fst c)) \<and> (\<forall>sd. told_side sd c \<longrightarrow> d))"

definition box_inv :: "('m list \<Rightarrow> bool \<Rightarrow> 'c \<Rightarrow> bool) \<Rightarrow> 'c counter_box \<times> holder list \<Rightarrow> bool" where
  "box_inv rep c \<longleftrightarrow>
     (few (fst c) \<longrightarrow> side_ok SendSide c \<and> side_ok RecvSide c \<and> box_ok c \<and> chan_ok rep c)"

definition box_start :: "('m list \<Rightarrow> bool \<Rightarrow> 'c \<Rightarrow> bool) \<Rightarrow> 'c counter_box \<times> holder list \<Rightarrow> bool" where
  "box_start rep c \<longleftrightarrow>
     (\<exists>chan ms n. rep ms False chan \<and> c = (fst (counter_new chan), snd (counter_new chan) # replicate n no_handles))"

lemma box_start_inv:
  assumes "box_start rep c"
  shows "box_inv rep c"
proof -
  obtain chan ms n where rep: "rep ms False chan"
    and c: "c = (fst (counter_new chan), snd (counter_new chan) # replicate n no_handles)"
    using assms by (auto simp: box_start_def)
  have t: "tally (live sd) (snd c) = 1" "tally (telling sd) (snd c) = 0"
    "tally (swapping sd) (snd c) = 0" "tally freeing (snd c) = 0" for sd
    by (simp_all add: c counter_new_def live_def telling_def swapping_def freeing_def no_handles_def)
  have f: "cb_count sd (fst c) = 1" "cb_made (fst c) = (\<lambda>_. 1)" "cb_moving (fst c) = (\<lambda>_. 0)"
    "cb_forgotten (fst c) = (\<lambda>_. 0)" "cb_through (fst c) = (\<lambda>_. False)" "\<not> cb_destroy (fst c)"
    "cb_alive (fst c)" "cb_answers (fst c) = []" "cb_chan (fst c) = chan" for sd
    by (cases sd) (simp_all add: c counter_new_def)
  have o: "owned sd c = 1" for sd by (simp add: owned_def t f)
  have "\<forall>h \<in> set (snd c). hd_pc h = HIdle" by (auto simp: c counter_new_def no_handles_def)
  then have "side_ok sd c" for sd by (auto simp: side_ok_def o t f)
  moreover have "box_ok c" by (simp add: box_ok_def told_side_def o t f)
  moreover have "chan_ok rep c" using rep by (auto simp: chan_ok_def told_side_def o f)
  ultimately show ?thesis by (simp add: box_inv_def)
qed

lemma side_ok_alive:
  assumes "box_ok c" "side_ok sd c" "\<not> cb_through (fst c) sd"
  shows "cb_alive (fst c)"
  using assms by (cases sd) (auto simp: box_ok_def)

lemma held_alive:
  assumes "box_ok (b, ps)" "side_ok sd (b, ps)" "i < length ps" "hd_handles (ps ! i) sd > 0"
  shows "cb_alive b"
proof -
  have "live sd (ps ! i) \<le> tally (live sd) ps" using assms(3) by (rule tally_ge)
  then have "owned sd (b, ps) > 0" using assms(4) by (simp add: owned_def live_def)
  with side_ok_alive [OF assms(1,2)] assms(2) show ?thesis by (auto simp: side_ok_def)
qed

lemma closing_alive:
  assumes "box_ok (b, ps)" "side_ok sd (b, ps)" "i < length ps"
    "hd_pc (ps ! i) = Disconnecting sd \<or> hd_pc (ps ! i) = Swapping sd"
  shows "cb_alive b" "\<not> cb_through b sd"
proof -
  have "telling sd (ps ! i) \<le> tally (telling sd) ps" "swapping sd (ps ! i) \<le> tally (swapping sd) ps"
    using assms(3) by (rule tally_ge)+
  then have "\<not> cb_through b sd" using assms(2,4)
    by (auto simp: side_ok_def telling_def swapping_def split: split_of_bool_asm)
  with side_ok_alive [OF assms(1,2)] show "cb_alive b" "\<not> cb_through b sd" by simp_all
qed

lemma freeing_alive:
  assumes "box_ok (b, ps)" "i < length ps" "hd_pc (ps ! i) = Freeing"
  shows "cb_alive b"
proof -
  have "freeing (ps ! i) \<le> tally freeing ps" using assms(2) by (rule tally_ge)
  with assms(1,3) show ?thesis by (auto simp: box_ok_def freeing_def split: split_of_bool_asm)
qed

section \<open>What a step changes\<close>

lemma owned_step:
  "i < length ps \<Longrightarrow> owned sd (b', ps[i := h']) + live sd (ps ! i) + cb_moving b sd + cb_forgotten b sd
     = owned sd (b, ps) + live sd h' + cb_moving b' sd + cb_forgotten b' sd"
  using tally_update [of i ps "live sd" h'] by (simp add: owned_def)

text \<open>A step that makes \<open>up\<close> handles of a side and gives back \<open>dn\<close> of them.\<close>

lemma side_ok_step:
  assumes ok: "side_ok sd (b, ps)" and i: "i < length ps"
    and bal: "owned sd (b', ps[i := h']) + dn = owned sd (b, ps) + up"
    and cnt: "cb_count sd b' = cb_count sd b + of_nat up - of_nat dn"
    and made: "cb_made b' sd = cb_made b sd + up"
    and rel: "telling sd h' + swapping sd h' + of_bool (cb_through b' sd) + of_bool (owned sd (b, ps) = 0)
      = telling sd (ps ! i) + swapping sd (ps ! i) + of_bool (cb_through b sd)
        + of_bool (owned sd (b', ps[i := h']) = 0)"
    and acq: "\<And>old. hd_pc h' = Acquiring sd old \<Longrightarrow> unat old < cb_made b' sd"
  shows "side_ok sd (b', ps[i := h'])"
proof -
  have "of_nat (owned sd (b', ps[i := h'])) + of_nat dn = (of_nat (owned sd (b, ps)) + of_nat up :: usize)"
    using bal by (metis of_nat_add)
  then have "cb_count sd b' = of_nat (owned sd (b', ps[i := h']))"
    using cnt ok unfolding side_ok_def fst_conv by (metis add_diff_cancel_right')
  moreover have "owned sd (b', ps[i := h']) \<le> cb_made b' sd"
    using bal made ok by (simp add: side_ok_def)
  moreover have "\<forall>h \<in> set (ps[i := h']). \<forall>old. hd_pc h = Acquiring sd old \<longrightarrow> unat old < cb_made b' sd"
    using ok acq made set_update_subset_insert [of ps i h'] by (fastforce simp: side_ok_def)
  moreover have "tally (telling sd) (ps[i := h']) + tally (swapping sd) (ps[i := h'])
      + of_bool (cb_through b' sd) = (of_bool (owned sd (b', ps[i := h']) = 0) :: nat)"
    using rel ok tally_update [OF i, of "telling sd" h'] tally_update [OF i, of "swapping sd" h']
    by (simp add: side_ok_def)
  ultimately show ?thesis by (simp add: side_ok_def)
qed

lemma told_side_same:
  assumes "i < length ps" "telling sd h' = telling sd (ps ! i)"
    "owned sd (b', ps[i := h']) = owned sd (b, ps)"
  shows "told_side sd (b', ps[i := h']) = told_side sd (b, ps)"
  using tally_update [OF assms(1), of "telling sd" h'] assms(2,3) by (simp add: told_side_def)

lemma told_side_held: "owned sd c > 0 \<Longrightarrow> \<not> told_side sd c"
  by (simp add: told_side_def)

lemma told_side_telling:
  "i < length ps \<Longrightarrow> hd_pc (ps ! i) = Disconnecting sd \<Longrightarrow> \<not> told_side sd (b, ps)"
  using tally_ge [of i ps "telling sd"] by (auto simp: told_side_def telling_def)

lemma box_ok_step:
  assumes "box_ok (b, ps)" "i < length ps"
    and "cb_destroy b' = cb_destroy b" "cb_through b' = cb_through b" "cb_alive b' = cb_alive b"
    "cb_answers b' = cb_answers b" "freeing h' = freeing (ps ! i)"
    "\<And>sd. told_side sd (b', ps[i := h']) = told_side sd (b, ps)"
  shows "box_ok (b', ps[i := h'])"
  using assms(1,3-) tally_update [OF assms(2), of freeing h'] by (simp add: box_ok_def)

lemma chan_ok_step:
  assumes "chan_ok rep (b, ps)" "cb_chan b' = cb_chan b"
    "\<And>sd. told_side sd (b', ps[i := h']) = told_side sd (b, ps)"
  shows "chan_ok rep (b', ps[i := h'])"
  using assms by (simp add: chan_ok_def)

definition inv0 :: "('m list \<Rightarrow> bool \<Rightarrow> 'c \<Rightarrow> bool) \<Rightarrow> 'c counter_box \<times> holder list \<Rightarrow> bool" where
  "inv0 rep c \<longleftrightarrow> (\<forall>sd. side_ok sd c) \<and> box_ok c \<and> chan_ok rep c"

lemma box_inv_inv0: "box_inv rep c \<longleftrightarrow> (few (fst c) \<longrightarrow> inv0 rep c)"
  by (simp add: box_inv_def inv0_def all_side)

lemma inv0_side: "inv0 rep c \<Longrightarrow> side_ok sd c"
  by (simp add: inv0_def)

lemmas holder_tallies = live_def telling_def swapping_def freeing_def hd_add_def hd_sub_def

lemma cb_count_set [simp]: "cb_count sd (cb_set_count sd' v b) = (if sd = sd' then v else cb_count sd b)"
  "cb_destroy (cb_set_count sd' v b) = cb_destroy b" "cb_chan (cb_set_count sd' v b) = cb_chan b"
  "cb_alive (cb_set_count sd' v b) = cb_alive b" "cb_made (cb_set_count sd' v b) = cb_made b"
  "cb_forgotten (cb_set_count sd' v b) = cb_forgotten b" "cb_moving (cb_set_count sd' v b) = cb_moving b"
  "cb_through (cb_set_count sd' v b) = cb_through b" "cb_answers (cb_set_count sd' v b) = cb_answers b"
  by (cases sd; cases sd'; simp)+

lemma cb_count_upd [simp]:
  "cb_count sd (b\<lparr>cb_made := x\<rparr>) = cb_count sd b" "cb_count sd (b\<lparr>cb_forgotten := x\<rparr>) = cb_count sd b"
  "cb_count sd (b\<lparr>cb_moving := x\<rparr>) = cb_count sd b" "cb_count sd (b\<lparr>cb_chan := y\<rparr>) = cb_count sd b"
  "cb_count sd (b\<lparr>cb_answers := z\<rparr>) = cb_count sd b" "cb_count sd (b\<lparr>cb_destroy := d\<rparr>) = cb_count sd b"
  "cb_count sd (b\<lparr>cb_through := t\<rparr>) = cb_count sd b" "cb_count sd (b\<lparr>cb_alive := a\<rparr>) = cb_count sd b"
  by (cases sd; simp)+

lemma owned_held: "i < length ps \<Longrightarrow> hd_handles (ps ! i) sd > 0 \<Longrightarrow> owned sd (b, ps) > 0"
  using tally_ge [of i ps "live sd"] by (simp add: owned_def live_def)

lemma clone_inv:
  assumes inv: "inv0 rep (b, ps)" and i: "i < length ps" and pc: "hd_pc (ps ! i) = HIdle"
    and held: "hd_handles (ps ! i) sd > 0" and step: "acquire_add sd b = Done (old, b')"
    and h': "h' = (ps ! i)\<lparr>hd_pc := Acquiring sd old\<rparr>"
  shows "inv0 rep (b', ps[i := h'])"
proof -
  have alive: "cb_alive b"
    using held_alive [OF _ inv0_side [OF inv] i held] inv by (simp add: inv0_def)
  have b': "b' = (cb_set_count sd (cb_count sd b + 1) b)\<lparr>cb_made := (cb_made b)(sd := Suc (cb_made b sd))\<rparr>"
    and old: "old = cb_count sd b"
    using step alive by (auto simp: acquire_add_def deref_box_def)
  have own: "owned s (b', ps[i := h']) = owned s (b, ps) + (if s = sd then 1 else 0)" for s
    using owned_step [OF i, of s b' h' b] pc h' by (auto simp: live_def b')
  have pos: "owned sd (b, ps) > 0" using owned_held [OF i held] .
  have "unat old < cb_made b' sd"
    using inv0_side [OF inv, of sd] by (simp add: old b' side_ok_def le_less_trans [OF mod_less_eq_dividend])
  then have "side_ok s (b', ps[i := h'])" for s
    using own [of s] pos pc
    by (intro side_ok_step [OF inv0_side [OF inv, of s] i, of b' h' 0 "if s = sd then 1 else 0"])
      (auto simp: b' h' holder_tallies)
  moreover have told: "told_side s (b', ps[i := h']) = told_side s (b, ps)" for s
    using own [of s] pos pc
    by (cases "s = sd") (auto simp: told_side_held intro!: told_side_same [OF i] simp: h' telling_def)
  moreover have "box_ok (b', ps[i := h'])"
    by (rule box_ok_step [OF _ i _ _ _ _ _ told]) (use inv pc in \<open>auto simp: inv0_def b' h' freeing_def\<close>)
  moreover have "chan_ok rep (b', ps[i := h'])"
    by (rule chan_ok_step [OF _ _ told]) (use inv in \<open>auto simp: inv0_def b'\<close>)
  ultimately show ?thesis by (simp add: inv0_def)
qed

lemma drop_inv:
  assumes inv: "inv0 rep (b, ps)" and i: "i < length ps" and pc: "hd_pc (ps ! i) = HIdle"
    and held: "hd_handles (ps ! i) sd > 0" and step: "release_sub sd b = Done (old, b')"
    and h': "h' = (hd_sub sd (ps ! i))\<lparr>hd_pc := if old = 1 then Disconnecting sd else HIdle\<rparr>"
    and few: "few b"
  shows "inv0 rep (b', ps[i := h'])"
proof -
  have alive: "cb_alive b"
    using held_alive [OF _ inv0_side [OF inv] i held] inv by (simp add: inv0_def)
  have b': "b' = cb_set_count sd (cb_count sd b - 1) b" and old: "old = cb_count sd b"
    using step alive by (auto simp: release_sub_def deref_box_def)
  have own: "owned s (b', ps[i := h']) + (if s = sd then 1 else 0) = owned s (b, ps)" for s
    using owned_step [OF i, of s b' h' b] pc h' held by (auto simp: live_def b' hd_sub_def)
  have pos: "owned sd (b, ps) > 0" using owned_held [OF i held] .
  have "owned sd (b, ps) < 2 ^ 64" "cb_count sd b = of_nat (owned sd (b, ps))"
    using inv0_side [OF inv, of sd] few by (cases sd; simp add: side_ok_def few_def)+
  then have last: "old = 1 \<longleftrightarrow> owned sd (b, ps) = 1"
    by (simp add: old word_unat_eq_iff)
  have "side_ok s (b', ps[i := h'])" for s
    using own [of s] pos pc last inv0_side [OF inv, of s]
    by (intro side_ok_step [OF inv0_side [OF inv, of s] i, of b' h' "if s = sd then 1 else 0" 0])
      (auto simp: b' h' holder_tallies side_ok_def split: split_of_bool_asm)
  moreover have told: "told_side s (b', ps[i := h']) = told_side s (b, ps)" for s
  proof (cases "s = sd")
    case True
    have "\<not> told_side sd (b', ps[i := h'])"
    proof (cases "old = 1")
      case True
      then show ?thesis using told_side_telling [of i "ps[i := h']" sd b'] i h' by simp
    next
      case False
      then show ?thesis using last own [of sd] pos by (intro told_side_held) simp
    qed
    with True pos show ?thesis by (simp add: told_side_held)
  next
    case False
    with own [of s] pc show ?thesis by (intro told_side_same [OF i]) (auto simp: h' telling_def)
  qed
  moreover have "box_ok (b', ps[i := h'])"
    by (rule box_ok_step [OF _ i _ _ _ _ _ told]) (use inv pc in \<open>auto simp: inv0_def b' h' freeing_def\<close>)
  moreover have "chan_ok rep (b', ps[i := h'])"
    by (rule chan_ok_step [OF _ _ told]) (use inv in \<open>auto simp: inv0_def b'\<close>)
  ultimately show ?thesis by (simp add: inv0_def)
qed

text \<open>Steps that move handles about without making or giving back any.\<close>

lemma move_inv:
  assumes inv: "inv0 rep (b, ps)" and i: "i < length ps"
    and bal: "\<And>s. live s h' + cb_moving b' s + cb_forgotten b' s
      = live s (ps ! i) + cb_moving b s + cb_forgotten b s"
    and same: "b' = b\<lparr>cb_moving := m, cb_forgotten := g\<rparr>"
    and pc: "\<And>s. hd_pc (ps ! i) \<noteq> Disconnecting s \<and> hd_pc (ps ! i) \<noteq> Swapping s"
      "hd_pc (ps ! i) \<noteq> Freeing" "hd_pc h' = HIdle"
  shows "inv0 rep (b', ps[i := h'])"
proof -
  have own: "owned s (b', ps[i := h']) = owned s (b, ps)" for s
    using owned_step [OF i, of s b' h' b] bal [of s] by simp
  have "side_ok s (b', ps[i := h'])" for s
    using own [of s] pc
    by (intro side_ok_step [OF inv0_side [OF inv, of s] i, of b' h' 0 0])
      (auto simp: same telling_def swapping_def)
  moreover have told: "told_side s (b', ps[i := h']) = told_side s (b, ps)" for s
    using own [of s] pc by (intro told_side_same [OF i]) (auto simp: telling_def)
  moreover have "box_ok (b', ps[i := h'])"
    by (rule box_ok_step [OF _ i _ _ _ _ _ told]) (use inv pc in \<open>auto simp: inv0_def same freeing_def\<close>)
  moreover have "chan_ok rep (b', ps[i := h'])"
    by (rule chan_ok_step [OF _ _ told]) (use inv in \<open>auto simp: inv0_def same\<close>)
  ultimately show ?thesis by (simp add: inv0_def)
qed

lemma swap_inv:
  assumes inv: "inv0 rep (b, ps)" and i: "i < length ps" and pc: "hd_pc (ps ! i) = Swapping sd"
    and step: "release_swap sd b = Done (old, b')"
    and h': "h' = (ps ! i)\<lparr>hd_pc := if old then Freeing else HIdle\<rparr>"
  shows "inv0 rep (b', ps[i := h'])"
proof -
  have "cb_alive b" "\<not> cb_through b sd"
    using closing_alive [OF _ inv0_side [OF inv] i] pc inv by (auto simp: inv0_def)
  then have b': "b' = b\<lparr>cb_destroy := True, cb_through := (cb_through b)(sd := True)\<rparr>"
    and old: "old = cb_destroy b" and out: "\<not> cb_through b sd"
    using step by (auto simp: release_swap_def deref_box_def)
  have own: "owned s (b', ps[i := h']) = owned s (b, ps)" for s
    using owned_step [OF i, of s b' h' b] pc by (auto simp: h' b' live_def)
  have "side_ok s (b', ps[i := h'])" for s
    using own [of s] pc out
    by (intro side_ok_step [OF inv0_side [OF inv, of s] i, of b' h' 0 0])
      (auto simp: b' h' telling_def swapping_def split: if_splits)
  moreover have told: "told_side s (b', ps[i := h']) = told_side s (b, ps)" for s
    using own [of s] pc by (intro told_side_same [OF i]) (auto simp: telling_def h')
  moreover have "box_ok (b', ps[i := h'])"
    using inv pc out tally_update [OF i, of freeing h'] told
    by (cases sd) (auto simp: inv0_def box_ok_def b' h' old freeing_def split: split_of_bool_asm)
  moreover have "chan_ok rep (b', ps[i := h'])"
    by (rule chan_ok_step [OF _ _ told]) (use inv in \<open>auto simp: inv0_def b'\<close>)
  ultimately show ?thesis by (simp add: inv0_def)
qed

lemma free_inv:
  assumes inv: "inv0 rep (b, ps)" and i: "i < length ps" and pc: "hd_pc (ps ! i) = Freeing"
    and step: "release_free b = Done b'" and h': "h' = (ps ! i)\<lparr>hd_pc := HIdle\<rparr>"
  shows "inv0 rep (b', ps[i := h'])"
proof -
  have "cb_alive b" using freeing_alive [OF _ i pc] inv by (auto simp: inv0_def)
  then have b': "b' = b\<lparr>cb_alive := False\<rparr>" using step by (auto simp: release_free_def deref_box_def)
  have own: "owned s (b', ps[i := h']) = owned s (b, ps)" for s
    using owned_step [OF i, of s b' h' b] pc by (auto simp: h' b' live_def)
  have "side_ok s (b', ps[i := h'])" for s
    using own [of s] pc
    by (intro side_ok_step [OF inv0_side [OF inv, of s] i, of b' h' 0 0])
      (auto simp: b' h' telling_def swapping_def)
  moreover have told: "told_side s (b', ps[i := h']) = told_side s (b, ps)" for s
    using own [of s] pc by (intro told_side_same [OF i]) (auto simp: telling_def h')
  moreover have "box_ok (b', ps[i := h'])"
    using inv pc tally_update [OF i, of freeing h'] told \<open>cb_alive b\<close>
    by (auto simp: inv0_def box_ok_def b' h' freeing_def)
  moreover have "chan_ok rep (b', ps[i := h'])"
    by (rule chan_ok_step [OF _ _ told]) (use inv in \<open>auto simp: inv0_def b'\<close>)
  ultimately show ?thesis by (simp add: inv0_def)
qed

section \<open>The contract of a counted channel\<close>

text \<open>
  What the counter requires of the channel: \<open>shutdown\<close> as in the trait, and calls that
  keep its representation, never undo a shutdown and never go wrong.
\<close>

locale counted = shutdownable rep shut is_shut
  for rep :: "'m list \<Rightarrow> bool \<Rightarrow> 'c \<Rightarrow> bool" and shut is_shut +
  fixes use_op :: "'u \<Rightarrow> 'c \<Rightarrow> 'c outcome"
  assumes use_rep: "rep ms d c \<Longrightarrow> use_op u c = Done c' \<Longrightarrow> \<exists>ms' d'. rep ms' d' c' \<and> (d \<longrightarrow> d')"
    and use_safe: "rep ms d c \<Longrightarrow> use_op u c \<noteq> Fault \<and> use_op u c \<noteq> Panic"
begin

lemma use_inv:
  assumes inv: "inv0 rep (b, ps)" and i: "i < length ps" and held: "hd_handles (ps ! i) sd > 0"
    and step: "handle_use use_op u b = Done b'"
  shows "inv0 rep (b', ps[i := ps ! i])"
proof -
  have "cb_alive b" using held_alive [OF _ inv0_side [OF inv] i held] inv by (simp add: inv0_def)
  then obtain c where c: "use_op u (cb_chan b) = Done c" and b': "b' = b\<lparr>cb_chan := c\<rparr>"
    using step by (auto simp: handle_use_def deref_box_def omap_eq_Done)
  have own: "owned s (b', ps[i := ps ! i]) = owned s (b, ps)" for s by (simp add: owned_def b')
  have "side_ok s (b', ps[i := ps ! i])" for s
    using own [of s] inv0_side [OF inv, of s] by (simp add: side_ok_def b')
  moreover have told: "told_side s (b', ps[i := ps ! i]) = told_side s (b, ps)" for s
    using own [of s] by (intro told_side_same [OF i]) auto
  moreover have "box_ok (b', ps[i := ps ! i])"
    by (rule box_ok_step [OF _ i _ _ _ _ _ told]) (use inv in \<open>auto simp: inv0_def b'\<close>)
  moreover have "chan_ok rep (b', ps[i := ps ! i])"
    using inv use_rep [OF _ c] told by (fastforce simp: inv0_def chan_ok_def b')
  ultimately show ?thesis by (simp add: inv0_def)
qed

lemma disconnect_inv:
  assumes inv: "inv0 rep (b, ps)" and i: "i < length ps" and pc: "hd_pc (ps ! i) = Disconnecting sd"
    and step: "release_disconnect shut b = Done b'" and h': "h' = (ps ! i)\<lparr>hd_pc := Swapping sd\<rparr>"
  shows "inv0 rep (b', ps[i := h'])"
proof -
  have alive: "cb_alive b" and out: "\<not> cb_through b sd"
    using closing_alive [OF _ inv0_side [OF inv] i] pc inv by (auto simp: inv0_def)
  obtain ms d where rep: "rep ms d (cb_chan b)" using inv by (auto simp: inv0_def chan_ok_def)
  obtain c where c: "shut (cb_chan b) = Done (\<not> d, c)" "rep ms True c" using shut_rep [OF rep] by blast
  then have b': "b' = b\<lparr>cb_chan := c, cb_answers := cb_answers b @ [\<not> d]\<rparr>"
    using step alive by (auto simp: release_disconnect_def deref_box_def)
  have own: "owned s (b', ps[i := h']) = owned s (b, ps)" for s
    using owned_step [OF i, of s b' h' b] pc by (auto simp: h' b' live_def)
  have "side_ok s (b', ps[i := h'])" for s
    using own [of s] pc
    by (intro side_ok_step [OF inv0_side [OF inv, of s] i, of b' h' 0 0])
      (auto simp: b' h' telling_def swapping_def)
  moreover have other: "told_side s (b', ps[i := h']) = told_side s (b, ps)" if "s \<noteq> sd" for s
    using own [of s] pc that by (intro told_side_same [OF i]) (auto simp: telling_def h')
  moreover have "told_side sd (b', ps[i := h'])" "\<not> told_side sd (b, ps)"
    using own [of sd] pc inv0_side [OF inv, of sd] tally_update [OF i, of "telling sd" h']
      tally_ge [OF i, of "telling sd"]
    by (auto simp: told_side_def side_ok_def telling_def h' split: split_of_bool_asm)
  moreover from this have "box_ok (b', ps[i := h'])"
    using inv pc other tally_update [OF i, of freeing h']
    by (cases sd) (auto simp: inv0_def box_ok_def b' h' freeing_def)
  moreover have "chan_ok rep (b', ps[i := h'])" using c(2) by (auto simp: chan_ok_def b')
  ultimately show ?thesis by (simp add: inv0_def)
qed

lemma acquired_inv:
  assumes inv: "inv0 rep (b, ps)" and i: "i < length ps" and pc: "hd_pc (ps ! i) = Acquiring sd old"
  shows "inv0 rep (b, ps[i := (hd_add sd (ps ! i))\<lparr>hd_pc := HIdle\<rparr>])"
  using pc by (intro move_inv [OF inv i, where m = "cb_moving b" and g = "cb_forgotten b"])
    (auto simp: live_def hd_add_def)

lemma call_inv:
  assumes inv: "inv0 rep (b, ps)" and few: "few b" and i: "i < length ps" and pc: "hd_pc (ps ! i) = HIdle"
    and step: "call_step use_op inp b (ps ! i) = Done (b', h')"
  shows "inv0 rep (b', ps[i := h'])"
proof (cases inp)
  case (CallClone sd)
  with step show ?thesis
    by (auto simp: omap_eq_Done split: if_splits intro: clone_inv [OF inv i pc])
next
  case (CallDrop sd)
  with step show ?thesis
    by (auto simp: omap_eq_Done split: if_splits intro: drop_inv [OF inv i pc _ _ _ few])
next
  case (CallUse sd u)
  with step obtain "hd_handles (ps ! i) sd > 0" "handle_use use_op u b = Done b'" "h' = ps ! i"
    by (auto simp: omap_eq_Done split: if_splits)
  with use_inv [OF inv i] show ?thesis by simp
next
  case (Forget sd)
  with step pc show ?thesis
    by (intro move_inv [OF inv i, where m = "cb_moving b" and g = "cb_forgotten b'"])
      (auto simp: live_def hd_sub_def split: if_splits)
next
  case (Give sd)
  with step pc show ?thesis
    by (intro move_inv [OF inv i, where m = "cb_moving b'" and g = "cb_forgotten b"])
      (auto simp: live_def hd_sub_def split: if_splits)
next
  case (Take sd)
  with step pc show ?thesis
    by (intro move_inv [OF inv i, where m = "cb_moving b'" and g = "cb_forgotten b"])
      (auto simp: live_def hd_add_def split: if_splits)
next
  case Continue
  with step show ?thesis by simp
qed

lemma call_made_mono: "call_step use_op inp b h = Done (b', h') \<Longrightarrow> few b' \<Longrightarrow> few b"
  by (cases inp)
    (auto simp: few_def deref_box_def acquire_add_def release_sub_def handle_use_def omap_eq_Done
      split: if_splits)

lemma made_mono: "counter_step shut use_op inp i b h = Done (b', h') \<Longrightarrow> few b' \<Longrightarrow> few b"
  by (cases "hd_pc h")
    (auto simp: few_def deref_box_def release_disconnect_def release_swap_def release_free_def
      omap_eq_Done dest: call_made_mono [unfolded few_def] split: if_splits)

lemma counter_step_inv:
  assumes inv: "inv0 rep (b, ps)" and few: "few b" and i: "i < length ps"
    and step: "counter_step shut use_op inp i b (ps ! i) = Done (b', h')"
  shows "inv0 rep (b', ps[i := h'])"
proof (cases "hd_pc (ps ! i)")
  case HIdle
  with step show ?thesis by (auto intro: call_inv [OF inv few i])
next
  case (Acquiring sd old)
  with step show ?thesis by (auto simp: omap_eq_Done intro: acquired_inv [OF inv i])
next
  case (Disconnecting sd)
  with step show ?thesis by (auto simp: omap_eq_Done intro: disconnect_inv [OF inv i])
next
  case (Swapping sd)
  with step show ?thesis by (auto simp: omap_eq_Done intro: swap_inv [OF inv i])
next
  case Freeing
  with step show ?thesis by (auto simp: omap_eq_Done intro: free_inv [OF inv i])
qed

end

text \<open>Every counted channel is a system of interleaved threads with this invariant.\<close>

sublocale counted \<subseteq> box: interleaving "counter_step shut use_op" "box_start rep" "box_inv rep"
proof unfold_locales
  fix c
  show "box_start rep c \<Longrightarrow> box_inv rep c" by (rule box_start_inv)
next
  fix b b' ps i inp h'
  assume inv: "box_inv rep (b, ps)" and i: "i < length ps"
    and step: "counter_step shut use_op inp i b (ps ! i) = Done (b', h')"
  show "box_inv rep (b', ps[i := h'])"
    unfolding box_inv_inv0 fst_conv
  proof
    assume "few b'"
    with made_mono [OF step] have "few b" .
    with inv counter_step_inv [OF _ this i step] show "inv0 rep (b', ps[i := h'])"
      by (simp add: box_inv_inv0)
  qed
qed

context counted
begin

lemma reachable_inv0:
  assumes "rep ms False chan" "few b"
    "reachable (counter_step shut use_op)
      (fst (counter_new chan), snd (counter_new chan) # replicate n no_handles) (b, ps)"
  shows "inv0 rep (b, ps)"
proof -
  have "box_inv rep (b, ps)"
    using assms(3) by (rule box.reachable_Inv) (use assms(1) in \<open>auto simp: box_start_def\<close>)
  with assms(2) show ?thesis by (simp add: box_inv_inv0)
qed

text \<open>No access to the box after it was freed, no second free, no panic and no abort.\<close>

lemma box_safe:
  assumes inv: "inv0 rep (b, ps)" and few: "few b" and i: "i < length ps"
  shows "counter_step shut use_op inp i b (ps ! i) \<noteq> Fault
    \<and> counter_step shut use_op inp i b (ps ! i) \<noteq> Panic"
proof -
  have box: "box_ok (b, ps)" using inv by (simp add: inv0_def)
  note alive = held_alive [OF box inv0_side [OF inv] i] closing_alive(1) [OF box inv0_side [OF inv] i]
    freeing_alive [OF box i]
  obtain ms d where rep: "rep ms d (cb_chan b)" using inv by (auto simp: inv0_def chan_ok_def)
  obtain c where c: "shut (cb_chan b) = Done (\<not> d, c)" using shut_rep [OF rep] by blast
  have no_abort: "old \<noteq> - 1" if "hd_pc (ps ! i) = Acquiring sd old" for sd old
  proof -
    have "unat old < cb_made b sd" using inv0_side [OF inv, of sd] i that by (auto simp: side_ok_def)
    then have "unat old < 2 ^ 64 - 1" using few by (cases sd) (auto simp: few_def)
    then show ?thesis by (auto simp: unsigned_minus_1_eq_mask mask_eq_exp_minus_1)
  qed
  show ?thesis
  proof (cases "hd_pc (ps ! i)")
    case HIdle
    then show ?thesis
      using alive(1) use_safe [OF rep]
      by (cases inp) (auto simp: deref_box_def acquire_add_def release_sub_def handle_use_def)
  qed (use alive c no_abort in \<open>auto simp: deref_box_def acquire_check_def release_disconnect_def
      release_swap_def release_free_def\<close>)
qed

text \<open>
  The box is freed exactly when every handle has been dropped and no thread is inside
  \<open>release\<close>; by then each side has shut the channel down once.
\<close>

lemma box_freed_iff:
  assumes inv: "inv0 rep (b, ps)" and idle: "\<forall>h \<in> set ps. hd_pc h = HIdle"
  shows "\<not> cb_alive b \<longleftrightarrow> owned SendSide (b, ps) = 0 \<and> owned RecvSide (b, ps) = 0"
    and "owned sd (b, ps) = 0 \<Longrightarrow> is_shut (cb_chan b)"
    and "length (cb_answers b) = of_bool (owned SendSide (b, ps) = 0) + of_bool (owned RecvSide (b, ps) = 0)"
proof -
  have zero: "tally (telling s) ps = 0" "tally (swapping s) ps = 0" "tally freeing ps = 0" for s
    using idle by (auto simp: tally_eq_0 telling_def swapping_def freeing_def)
  then have eq: "of_bool (cb_through b s) = (of_bool (owned s (b, ps) = 0) :: nat)" for s
    using inv0_side [OF inv, of s] by (simp add: side_ok_def)
  have th: "cb_through b s \<longleftrightarrow> owned s (b, ps) = 0" for s
    using eq [of s] by (simp only: of_bool_eq_iff)
  have box: "box_ok (b, ps)" using inv by (simp add: inv0_def)
  then show "\<not> cb_alive b \<longleftrightarrow> owned SendSide (b, ps) = 0 \<and> owned RecvSide (b, ps) = 0"
    using zero th by (auto simp: box_ok_def split: split_of_bool_asm)
  show "length (cb_answers b)
      = of_bool (owned SendSide (b, ps) = 0) + of_bool (owned RecvSide (b, ps) = 0)"
    using box zero by (simp add: box_ok_def told_side_def)
  show "owned sd (b, ps) = 0 \<Longrightarrow> is_shut (cb_chan b)"
    using inv zero is_shut_rep by (auto simp: inv0_def chan_ok_def told_side_def)
qed

end

section \<open>First-in first-out channels are counted channels\<close>

text \<open>
  The calls a handle makes. A call whose oracle is not fair does not return, nor does one
  that asks for more memory than there is.
\<close>

definition call_use ::
    "('c \<Rightarrow> bool) \<Rightarrow> ('e \<Rightarrow> bool) \<Rightarrow> ('e \<Rightarrow> 'm \<Rightarrow> 'c \<Rightarrow> (('m try_send_error + unit) \<times> 'c) outcome)
     \<Rightarrow> ('e \<Rightarrow> 'c \<Rightarrow> ((try_recv_error + 'm) \<times> 'c) outcome) \<Rightarrow> ('c \<Rightarrow> (bool \<times> 'c) outcome)
     \<Rightarrow> 'e \<times> 'm call \<Rightarrow> 'c \<Rightarrow> 'c outcome" where
  "call_use fits good snd_op rcv_op shut_op u c =
     (if good (fst u) \<and> (is_send (snd u) \<longrightarrow> fits c) then omap snd (impl_call snd_op rcv_op shut_op (fst u) (snd u) c) else Spin)"

lemma spec_call_keeps_shut: "spec_call bound x (ms, d) = (a, ms', d') \<Longrightarrow> d \<Longrightarrow> d'"
  by (cases x) (auto simp: Let_def split: prod.splits)

context fifo_channel
begin

lemma fifo_counted: "counted rep shut is_shut (call_use fits good snd_op rcv_op shut)"
proof unfold_locales
  fix ms d c and u :: "'e \<times> 'm call" and c'
  assume rep: "rep ms d c"
  obtain a ms' d' where spec: "spec_call bound (snd u) (ms, d) = (a, ms', d')" by (metis prod_cases3)
  have call: "\<exists>c2. impl_call snd_op rcv_op shut (fst u) (snd u) c = Done (a, c2) \<and> rep ms' d' c2"
    if "good (fst u)" "is_send (snd u) \<longrightarrow> fits c"
    using call_refines [OF rep that(1) _ spec] that(2) fits_rep [OF rep] by simp
  show "\<exists>ms' d'. rep ms' d' c' \<and> (d \<longrightarrow> d')"
    if "call_use fits good snd_op rcv_op shut u c = Done c'"
    using that call spec_call_keeps_shut [OF spec] by (fastforce simp: call_use_def split: if_splits)
  show "call_use fits good snd_op rcv_op shut u c \<noteq> Fault \<and> call_use fits good snd_op rcv_op shut u c \<noteq> Panic"
    using call by (auto simp: call_use_def)
qed

end

end
