(* ===== verification/Zero_Chan.thy ===== *)
theory Zero_Chan
  imports Thread_Waker Spinlock Serial_Waker Errors
begin

text \<open>
  The zero-capacity channel of \<open>src/zero.rs\<close>: a sender and a receiver meet. The one that
  comes first queues the address of a packet on its stack in a \<open>Waker\<close> and blocks; the
  other one selects it under the lock and moves the message through the packet. Threads
  take turns step by step: each acquisition and release of the lock, each call of an
  \<open>AtomicSerialWaker\<close>, and each access to a packet or a context outside the lock is a
  step; what a thread does while it holds the lock is one step, because other threads
  can see nothing of it but contexts of waiting threads, which these only read.
\<close>

section \<open>Packets and channels\<close>

record 'm packet =
  pk_on_stack :: bool
  pk_ready :: bool
  pk_msg :: "'m option"

definition empty_on_stack :: "'m packet" where
  "empty_on_stack = \<lparr>pk_on_stack = True, pk_ready = False, pk_msg = None\<rparr>"

definition empty_on_heap :: "'m packet" where
  "empty_on_heap = \<lparr>pk_on_stack = False, pk_ready = False, pk_msg = None\<rparr>"

definition message_on_stack :: "'m \<Rightarrow> 'm packet" where
  "message_on_stack msg = \<lparr>pk_on_stack = True, pk_ready = False, pk_msg = Some msg\<rparr>"

text \<open>\<open>wait_ready\<close> spins on a flag that another thread sets.\<close>

definition wait_ready :: "'m packet \<Rightarrow> unit outcome" where
  "wait_ready pk = (if pk_ready pk then Done () else Spin)"

record zero_inner =
  zi_senders :: waker
  zi_receivers :: waker
  zi_disconnected :: bool

text \<open>\<open>to_me\<close> and \<open>from_me\<close> of the source are the counters of the two task wakers.\<close>

record ('q, 't) zchan =
  zc_inner :: "zero_inner spinlock"
  zc_senders :: "('q, 't) swaker"
  zc_receivers :: "('q, 't) swaker"
  zc_first :: bool

definition zero_new :: "('q, 't) aq_ops \<Rightarrow> ('q, 't) zchan" where
  "zero_new Q =
     \<lparr>zc_inner = spinlock_new \<lparr>zi_senders = waker_new, zi_receivers = waker_new, zi_disconnected = False\<rparr>,
      zc_senders = swaker_new Q, zc_receivers = swaker_new Q, zc_first = True\<rparr>"

definition zero_len :: "('q, 't) zchan \<Rightarrow> usize" where
  "zero_len ch = 0"

definition zero_capacity :: "('q, 't) zchan \<Rightarrow> usize option" where
  "zero_capacity ch = Some 0"

definition zero_is_empty :: "('q, 't) zchan \<Rightarrow> bool" where
  "zero_is_empty ch = True"

definition zero_is_full :: "('q, 't) zchan \<Rightarrow> bool" where
  "zero_is_full ch = True"

section \<open>Calls and answers\<close>

text \<open>The four transfers, the other operations, and what they answer.\<close>

datatype 'm xfer = XTrySend 'm | XSend 'm | XTryRecv | XRecv

datatype 'm zop = Xfer "'m xfer" | OpShutdown | OpIsShutdown

datatype 'm zresult =
    TrySent "'m try_send_error + unit"
  | Sent "'m send_timeout_error + unit"
  | TryReceived "try_recv_error + 'm"
  | Received "recv_timeout_error + 'm"
  | ShutdownSaid bool
  | IsShutdownSaid bool

fun x_msg :: "'m xfer \<Rightarrow> 'm option" where
  "x_msg (XTrySend m) = Some m"
| "x_msg (XSend m) = Some m"
| "x_msg XTryRecv = None"
| "x_msg XRecv = None"

definition sending :: "'m xfer \<Rightarrow> bool" where
  "sending x \<longleftrightarrow> x_msg x \<noteq> None"

fun x_try :: "'m xfer \<Rightarrow> bool" where
  "x_try (XTrySend m) = True"
| "x_try (XSend m) = False"
| "x_try XTryRecv = True"
| "x_try XRecv = False"

text \<open>The answer of a transfer on a disconnected channel, and of one that would block.\<close>

fun x_closed :: "'m xfer \<Rightarrow> 'm zresult" where
  "x_closed (XTrySend m) = TrySent (Inl \<lparr>tse_kind = Closed, tse_value = m\<rparr>)"
| "x_closed (XSend m) = Sent (Inl (SendDisconnected m))"
| "x_closed XTryRecv = TryReceived (Inl TryRecvDisconnected)"
| "x_closed XRecv = Received (Inl RecvDisconnected)"

fun x_would_block :: "'m xfer \<Rightarrow> 'm zresult" where
  "x_would_block (XTrySend m) = TrySent (Inl \<lparr>tse_kind = NoCapacity, tse_value = m\<rparr>)"
| "x_would_block (XSend m) = Sent (Inl (SendTimeout m))"
| "x_would_block XTryRecv = TryReceived (Inl TryRecvEmpty)"
| "x_would_block XRecv = Received (Inl RecvTimeout)"

text \<open>The answers of a send that was accepted and of a receive that got a message.\<close>

fun x_sent :: "'m xfer \<Rightarrow> 'm zresult" where
  "x_sent (XSend m) = Sent (Inr ())"
| "x_sent _ = TrySent (Inr ())"

fun x_got :: "'m xfer \<Rightarrow> 'm \<Rightarrow> 'm zresult" where
  "x_got XRecv m = Received (Inr m)"
| "x_got _ m = TryReceived (Inr m)"

text \<open>
  Who called an operation: the user, or \<open>poll\<close> and \<open>start_send\<close> of the traits
  \<open>Stream\<close> and \<open>Sink\<close>, for the task \<open>t\<close>.
\<close>

datatype 't kont = KReturn | KPollTry 't | KPollRecv | KSinkTry 't | KSinkSend

datatype 'm zanswer =
    Plain "'m zresult"
  | Polled "unit + 'm option async"
  | Sunk "send_error + 'm async_sink"

datatype ('m, 't) zcall = CallOp "'m zop" | CallPoll 't | CallSink 't 'm

fun first_op :: "('m, 't) zcall \<Rightarrow> 'm zop \<times> 't kont" where
  "first_op (CallOp op) = (op, KReturn)"
| "first_op (CallPoll t) = (Xfer XTryRecv, KPollTry t)"
| "first_op (CallSink t item) = (Xfer (XTrySend item), KSinkTry t)"

text \<open>What \<open>poll_complete\<close> of the sink answers.\<close>

definition zero_poll_complete :: "('q, 't) zchan \<Rightarrow> (send_error + unit async)" where
  "zero_poll_complete ch = Inr (Ready ())"

section \<open>Threads\<close>

text \<open>
  A blocked call: its operation, the addresses of its packet and of its local \<open>zero\<close>, its
  context, and whether this is the thread's cached one.
\<close>

record zblocked =
  zb_oper :: operation
  zb_packet :: usize
  zb_local :: usize
  zb_cx :: nat
  zb_cached :: bool

text \<open>
  Where a thread is. \<open>ZLock\<close>: spinning on the lock at the start of an operation; \<open>ZCrit\<close>:
  it has the guard; \<open>ZLeave\<close>: the guard is dropped at the return. \<open>ZPaired\<close> to \<open>ZMark\<close>:
  \<open>drop(inner)\<close>, then \<open>read\<close> or \<open>write\<close> of the packet of thread \<open>j\<close> (a history
  variable). \<open>ZBlocked\<close> to \<open>ZEnd\<close>: inside the closure of \<open>Context::with\<close>. \<open>ZFin\<close>: an
  operation has returned; \<open>ZPollFirst\<close> to \<open>ZSinkReg\<close>: inside \<open>poll\<close> and \<open>start_send\<close>;
  \<open>ZRet\<close>: the call has returned.
\<close>

datatype ('m, 't) zpc =
    ZIdle
  | ZLock "'m zop" "'t kont"
  | ZCrit "'m zop" "'t kont"
  | ZLeave "'t kont" "'m zresult"
  | ZPaired "'m xfer" "'t kont" usize nat
  | ZWake "'m xfer" "'t kont" usize nat
  | ZMove "'m xfer" "'t kont" usize nat
  | ZMark "'m xfer" "'t kont" usize nat "'m zresult"
  | ZBlocked "'m xfer" "'t kont" zblocked
  | ZUnlock "'m xfer" "'t kont" zblocked
  | ZWait "'m xfer" "'t kont" zblocked
  | ZReady "'m xfer" "'t kont" zblocked
  | ZRelock "'m xfer" "'t kont" zblocked
  | ZUnreg "'m xfer" "'t kont" zblocked
  | ZUnregDrop "'m xfer" "'t kont" zblocked
  | ZTakeMsg "'m xfer" "'t kont" zblocked
  | ZEnd "'m xfer" "'t kont" zblocked "'m zresult"
  | ZFin "'t kont" "'m zresult"
  | ZPollFirst 't
  | ZPollUpdate 't
  | ZPollReg 't
  | ZSinkReg 't 'm
  | ZRet "'m zanswer"

text \<open>
  History of a blocked call: still queued, told of the disconnection, its entry removed by
  itself, selected by thread \<open>j\<close> that makes the transfer \<open>y\<close>, its packet read or written
  by \<open>j\<close>, marked ready by \<open>j\<close>, its message taken out by itself.
\<close>

datatype 'm stage = SQueued | SDisc | SGone | SPaired nat "'m xfer" | SMoved nat "'m xfer"
  | SOver "'m xfer" | STaken

record 'm role =
  ro_x :: "'m xfer"
  ro_b :: zblocked
  ro_stage :: "'m stage"

text \<open>
  The channel, the contexts, the live packets and the live \<open>zero\<close> variables of blocked
  calls by address, and the history: who has the guard, the blocked calls, the messages
  given to sends, got from receives, and given back or dropped by failed sends.
\<close>

record ('q, 't, 'm) zsys =
  z_chan :: "('q, 't) zchan"
  z_store :: ctx_store
  z_packets :: "usize \<Rightarrow> 'm packet option"
  z_locals :: "usize list"
  z_holder :: "nat option"
  z_role :: "nat \<Rightarrow> 'm role option"
  z_given :: "'m list"
  z_got :: "'m list"
  z_failed :: "'m list"

definition zsys_new :: "('q, 't) aq_ops \<Rightarrow> ctx_store \<Rightarrow> ('q, 't, 'm) zsys" where
  "zsys_new Q st = \<lparr>z_chan = zero_new Q, z_store = st, z_packets = \<lambda>_. None, z_locals = [],
     z_holder = None, z_role = \<lambda>_. None, z_given = [], z_got = [], z_failed = []\<rparr>"

section \<open>The lock and what it protects\<close>

definition z_inner :: "('q, 't, 'm) zsys \<Rightarrow> zero_inner" where
  "z_inner s = guard_deref (zc_inner (z_chan s))"

definition z_set_inner :: "zero_inner \<Rightarrow> ('q, 't, 'm) zsys \<Rightarrow> ('q, 't, 'm) zsys" where
  "z_set_inner v s =
     s\<lparr>z_chan := (z_chan s)\<lparr>zc_inner := guard_deref_mut v (zc_inner (z_chan s))\<rparr>\<rparr>"

definition z_lock :: "nat \<Rightarrow> ('q, 't, 'm) zsys \<Rightarrow> bool \<times> ('q, 't, 'm) zsys" where
  "z_lock i s =
     (let (old, l) = swap_flag (zc_inner (z_chan s)) in
      (old, s\<lparr>z_chan := (z_chan s)\<lparr>zc_inner := l\<rparr>, z_holder := if old then z_holder s else Some i\<rparr>))"

definition z_unlock :: "('q, 't, 'm) zsys \<Rightarrow> ('q, 't, 'm) zsys" where
  "z_unlock s =
     s\<lparr>z_chan := (z_chan s)\<lparr>zc_inner := guard_drop (zc_inner (z_chan s))\<rparr>, z_holder := None\<rparr>"

text \<open>The queue of the threads that block in a send (\<open>True\<close>) or in a receive.\<close>

fun z_queue :: "bool \<Rightarrow> zero_inner \<Rightarrow> waker" where
  "z_queue True v = zi_senders v"
| "z_queue False v = zi_receivers v"

fun z_set_queue :: "bool \<Rightarrow> waker \<Rightarrow> zero_inner \<Rightarrow> zero_inner" where
  "z_set_queue True w v = v\<lparr>zi_senders := w\<rparr>"
| "z_set_queue False w v = v\<lparr>zi_receivers := w\<rparr>"

text \<open>\<open>inner.receivers.try_select()\<close> of a send, \<open>inner.senders.try_select()\<close> of a receive.\<close>

definition zero_select ::
    "nat \<Rightarrow> 'm xfer \<Rightarrow> ('q, 't, 'm) zsys \<Rightarrow> (entry option \<times> ('q, 't, 'm) zsys) outcome" where
  "zero_select i x s =
     obind (waker_try_select i (z_queue (\<not> sending x) (z_inner s)) (z_store s)) (\<lambda>(e, w, st).
     Done (e, (z_set_inner (z_set_queue (\<not> sending x) w (z_inner s)) s)\<lparr>z_store := st\<rparr>))"

text \<open>The thread of an entry, for the history.\<close>

definition z_owner :: "entry \<Rightarrow> ('q, 't, 'm) zsys \<Rightarrow> nat" where
  "z_owner e s = (case cs_mem (z_store s) (e_cx e) of None \<Rightarrow> 0 | Some cx \<Rightarrow> in_thread cx)"

definition z_set_stage :: "nat \<Rightarrow> 'm stage \<Rightarrow> ('q, 't, 'm) zsys \<Rightarrow> ('q, 't, 'm) zsys" where
  "z_set_stage j st s =
     s\<lparr>z_role := (z_role s)(j := map_option (\<lambda>r. r\<lparr>ro_stage := st\<rparr>) (z_role s j))\<rparr>"

text \<open>
  A local variable: not null, aligned to eight bytes, and apart from the other live ones.
  This is what the language promises of the addresses of live variables.
\<close>

definition fresh_local :: "usize \<Rightarrow> ('q, 't, 'm) zsys \<Rightarrow> bool" where
  "fresh_local a s \<longleftrightarrow> a \<noteq> 0 \<and> unat a mod 8 = 0 \<and> a \<notin> set (z_locals s)"

definition fresh_packet :: "usize \<Rightarrow> ('q, 't, 'm) zsys \<Rightarrow> bool" where
  "fresh_packet a s \<longleftrightarrow> a \<noteq> 0 \<and> unat a mod 8 = 0 \<and> z_packets s a = None"

definition x_packet :: "'m xfer \<Rightarrow> 'm packet" where
  "x_packet x = (case x_msg x of Some m \<Rightarrow> message_on_stack m | None \<Rightarrow> empty_on_stack)"

text \<open>
  The start of the closure of \<open>_send\<close> and \<open>recv\<close>: the context, the operation, the packet
  and the entry. \<open>a\<close> and \<open>p\<close> are the addresses of \<open>zero\<close> and of the packet.
\<close>

definition zero_block ::
    "nat \<Rightarrow> usize \<Rightarrow> usize \<Rightarrow> 'm xfer \<Rightarrow> 't kont \<Rightarrow> ('q, 't, 'm) zsys
     \<Rightarrow> (('q, 't, 'm) zsys \<times> ('m, 't) zpc) outcome" where
  "zero_block i a p x k s =
     (if \<not> fresh_local a s \<or> \<not> fresh_packet p s then Spin else
      obind (hook a) (\<lambda>oper.
      let (c, cached, st) = ctx_enter i (z_store s);
          b = \<lparr>zb_oper = oper, zb_packet = p, zb_local = a, zb_cx = c, zb_cached = cached\<rparr>;
          v = z_inner s;
          v1 = z_set_queue (sending x) (register_with_packet oper p c (z_queue (sending x) v)) v in
      Done ((z_set_inner v1 s)
              \<lparr>z_store := st, z_packets := (z_packets s)(p := Some (x_packet x)),
               z_locals := a # z_locals s,
               z_role := (z_role s)(i := Some \<lparr>ro_x = x, ro_b = b, ro_stage = SQueued\<rparr>)\<rparr>,
            ZBlocked x k b)))"

text \<open>What \<open>try_send\<close>, \<open>_send\<close>, \<open>try_recv\<close> and \<open>recv\<close> do with the guard.\<close>

definition zero_meet ::
    "nat \<Rightarrow> usize \<Rightarrow> usize \<Rightarrow> 'm xfer \<Rightarrow> 't kont \<Rightarrow> ('q, 't, 'm) zsys
     \<Rightarrow> (('q, 't, 'm) zsys \<times> ('m, 't) zpc) outcome" where
  "zero_meet i a p x k s =
     obind (zero_select i x s) (\<lambda>(e, s1).
     case e of
       Some e \<Rightarrow>
         Done (z_set_stage (z_owner e s1) (SPaired i x) s1, ZPaired x k (e_packet e) (z_owner e s1))
     | None \<Rightarrow>
         if zi_disconnected (z_inner s1) then Done (s1, ZLeave k (x_closed x))
         else if x_try x then Done (s1, ZLeave k (x_would_block x))
         else zero_block i a p x k s1)"

text \<open>\<open>shutdown\<close> with the guard. Every queued call is told.\<close>

definition zero_shutdown ::
    "'t kont \<Rightarrow> ('q, 't, 'm) zsys \<Rightarrow> (('q, 't, 'm) zsys \<times> ('m, 't) zpc) outcome" where
  "zero_shutdown k s =
     (let v = z_inner s in
      if \<not> zi_disconnected v then
        obind (waker_disconnect (zi_senders v) (z_store s)) (\<lambda>st1.
        obind (waker_disconnect (zi_receivers v) st1) (\<lambda>st2.
        Done ((z_set_inner (v\<lparr>zi_disconnected := True\<rparr>) s)
                \<lparr>z_store := st2,
                 z_role := (\<lambda>j. map_option (\<lambda>r. if ro_stage r = SQueued then r\<lparr>ro_stage := SDisc\<rparr> else r)
                                  (z_role s j))\<rparr>,
              ZLeave k (ShutdownSaid True))))
      else Done (s, ZLeave k (ShutdownSaid False)))"

definition zero_is_shutdown ::
    "'t kont \<Rightarrow> ('q, 't, 'm) zsys \<Rightarrow> (('q, 't, 'm) zsys \<times> ('m, 't) zpc) outcome" where
  "zero_is_shutdown k s = Done (s, ZLeave k (IsShutdownSaid (zi_disconnected (z_inner s))))"

section \<open>Reading and writing a packet\<close>

definition z_deref ::
    "usize \<Rightarrow> ('q, 't, 'm) zsys \<Rightarrow> ('m packet \<Rightarrow> 'r outcome) \<Rightarrow> 'r outcome" where
  "z_deref p s f = (case z_packets s p of None \<Rightarrow> Fault | Some pk \<Rightarrow> f pk)"

definition z_put :: "usize \<Rightarrow> 'm packet option \<Rightarrow> ('q, 't, 'm) zsys \<Rightarrow> ('q, 't, 'm) zsys" where
  "z_put p pk s = s\<lparr>z_packets := (z_packets s)(p := pk)\<rparr>"

text \<open>A send wakes a task that waits to receive, and a receive one that waits to send.\<close>

definition z_wake ::
    "('q, 't) aq_ops \<Rightarrow> 'm xfer \<Rightarrow> ('q, 't, 'm) zsys \<Rightarrow> ('q, 't, 'm) zsys" where
  "z_wake Q x s =
     (if sending x then s\<lparr>z_chan := (z_chan s)\<lparr>zc_receivers := wake Q (zc_receivers (z_chan s))\<rparr>\<rparr>
      else s\<lparr>z_chan := (z_chan s)\<lparr>zc_senders := wake Q (zc_senders (z_chan s))\<rparr>\<rparr>)"

text \<open>
  The start of \<open>write\<close> and \<open>read\<close>: with no packet, \<open>write\<close> gives the message back, on
  which its caller panics, and \<open>read\<close> reports the disconnection.
\<close>

definition zero_wake ::
    "('q, 't) aq_ops \<Rightarrow> 'm xfer \<Rightarrow> 't kont \<Rightarrow> usize \<Rightarrow> nat \<Rightarrow> ('q, 't, 'm) zsys
     \<Rightarrow> (('q, 't, 'm) zsys \<times> ('m, 't) zpc) outcome" where
  "zero_wake Q x k p j s =
     (if p = 0 then (if sending x then Panic else Done (s, ZFin k (x_closed x)))
      else Done (z_wake Q x s, ZMove x k p j))"

definition zero_move ::
    "nat \<Rightarrow> 'm xfer \<Rightarrow> 't kont \<Rightarrow> usize \<Rightarrow> nat \<Rightarrow> ('q, 't, 'm) zsys
     \<Rightarrow> (('q, 't, 'm) zsys \<times> ('m, 't) zpc) outcome" where
  "zero_move i x k p j s = z_deref p s (\<lambda>pk.
     case x_msg x of
       Some m \<Rightarrow>
         Done (z_set_stage j (SMoved i x) (z_put p (Some (pk\<lparr>pk_msg := Some m\<rparr>)) s),
           ZMark x k p j (x_sent x))
     | None \<Rightarrow>
         if pk_on_stack pk then
           (case pk_msg pk of
              None \<Rightarrow> Panic
            | Some m \<Rightarrow>
                Done (z_set_stage j (SMoved i x) (z_put p (Some (pk\<lparr>pk_msg := None\<rparr>)) s),
                  ZMark x k p j (x_got x m)))
         else
           obind (wait_ready pk) (\<lambda>_.
           case pk_msg pk of
              None \<Rightarrow> Panic
            | Some m \<Rightarrow> Done (z_put p None s, ZFin k (x_got x m))))"

definition zero_mark ::
    "'m xfer \<Rightarrow> 't kont \<Rightarrow> usize \<Rightarrow> nat \<Rightarrow> 'm zresult \<Rightarrow> ('q, 't, 'm) zsys
     \<Rightarrow> (('q, 't, 'm) zsys \<times> ('m, 't) zpc) outcome" where
  "zero_mark x k p j r s = z_deref p s (\<lambda>pk.
     Done (z_set_stage j (SOver x) (z_put p (Some (pk\<lparr>pk_ready := True\<rparr>)) s), ZFin k r))"

section \<open>A blocked call\<close>

text \<open>A turn of \<open>cx.wait()\<close> and the choice of what it returned.\<close>

definition zero_wait ::
    "'m xfer \<Rightarrow> 't kont \<Rightarrow> zblocked \<Rightarrow> ('q, 't, 'm) zsys
     \<Rightarrow> (('q, 't, 'm) zsys \<times> ('m, 't) zpc) outcome" where
  "zero_wait x k b s =
     (case cs_mem (z_store s) (zb_cx b) of
        None \<Rightarrow> Fault
      | Some cx \<Rightarrow>
          (case ctx_selected cx of
             Waiting \<Rightarrow> Spin
           | Aborted \<Rightarrow> Panic
           | Disconnected \<Rightarrow> Done (s, ZRelock x k b)
           | Operation _ \<Rightarrow> Done (s, ZReady x k b)))"

text \<open>\<open>packet.wait_ready()\<close>; a send is then over, a receive takes the message.\<close>

definition zero_ready ::
    "'m xfer \<Rightarrow> 't kont \<Rightarrow> zblocked \<Rightarrow> ('q, 't, 'm) zsys
     \<Rightarrow> (('q, 't, 'm) zsys \<times> ('m, 't) zpc) outcome" where
  "zero_ready x k b s = z_deref (zb_packet b) s (\<lambda>pk.
     obind (wait_ready pk) (\<lambda>_.
     Done (s, if sending x then ZEnd x k b (x_sent x) else ZTakeMsg x k b)))"

text \<open>\<open>self.inner.lock().senders.unregister(oper).unwrap()\<close>, or of \<open>receivers\<close>.\<close>

definition zero_unregister ::
    "nat \<Rightarrow> 'm xfer \<Rightarrow> 't kont \<Rightarrow> zblocked \<Rightarrow> ('q, 't, 'm) zsys
     \<Rightarrow> (('q, 't, 'm) zsys \<times> ('m, 't) zpc) outcome" where
  "zero_unregister i x k b s =
     (case unregister (zb_oper b) (z_queue (sending x) (z_inner s)) of
        (None, _) \<Rightarrow> Panic
      | (Some _, w) \<Rightarrow>
          Done (z_set_stage i SGone (z_set_inner (z_set_queue (sending x) w (z_inner s)) s),
            ZUnregDrop x k b))"

text \<open>\<open>packet.msg.get().replace(None).unwrap()\<close>: taken back by a send, or received.\<close>

definition zero_take_msg ::
    "nat \<Rightarrow> 'm xfer \<Rightarrow> 't kont \<Rightarrow> zblocked \<Rightarrow> ('q, 't, 'm) zsys
     \<Rightarrow> (('q, 't, 'm) zsys \<times> ('m, 't) zpc) outcome" where
  "zero_take_msg i x k b s = z_deref (zb_packet b) s (\<lambda>pk.
     case pk_msg pk of
       None \<Rightarrow> Panic
     | Some m \<Rightarrow>
         Done (z_set_stage i STaken (z_put (zb_packet b) (Some (pk\<lparr>pk_msg := None\<rparr>)) s),
           ZEnd x k b (if sending x then Sent (Inl (SendDisconnected m)) else x_got x m)))"

text \<open>The end of the closure and of the call: the packet and \<open>zero\<close> go out of scope.\<close>

definition zero_end ::
    "nat \<Rightarrow> zblocked \<Rightarrow> ('q, 't, 'm) zsys \<Rightarrow> ('q, 't, 'm) zsys" where
  "zero_end i b s =
     s\<lparr>z_store := ctx_leave i (zb_cx b) (zb_cached b) (z_store s),
       z_packets := (z_packets s)(zb_packet b := None),
       z_locals := removeAll (zb_local b) (z_locals s),
       z_role := (z_role s)(i := None)\<rparr>"

section \<open>The stream and the sink\<close>

text \<open>
  What follows the return of an operation, with the messages that a receive got and that
  a failed send gave back or dropped. A result of another operation than the one that
  was called does not occur.
\<close>

fun zero_return :: "'t kont \<Rightarrow> 'm zresult \<Rightarrow> ('m, 't) zpc outcome" where
  "zero_return KReturn r = Done (ZRet (Plain r))"
| "zero_return (KPollTry t) (TryReceived r) =
     Done (case r of
         Inr m \<Rightarrow> ZRet (Polled (Inr (Ready (Some m))))
       | Inl TryRecvEmpty \<Rightarrow> ZPollFirst t
       | Inl TryRecvDisconnected \<Rightarrow> ZRet (Polled (Inr (Ready None))))"
| "zero_return KPollRecv (Received r) =
     Done (case r of
         Inr m \<Rightarrow> ZRet (Polled (Inr (Ready (Some m))))
       | Inl RecvTimeout \<Rightarrow> ZRet (Polled (Inr NotReady))
       | Inl RecvDisconnected \<Rightarrow> ZRet (Polled (Inr (Ready None))))"
| "zero_return (KSinkTry t) (TrySent r) =
     (case r of
        Inr _ \<Rightarrow> Done (ZRet (Sunk (Inr SinkReady)))
      | Inl e \<Rightarrow>
          if is_closed e then Done (ZRet (Sunk (Inl SendError)))
          else if is_full e then Done (ZSinkReg t (into_inner e))
          else Panic)"
| "zero_return KSinkSend (Sent r) =
     Done (case r of
         Inr _ \<Rightarrow> ZRet (Sunk (Inr SinkReady))
       | Inl _ \<Rightarrow> ZRet (Sunk (Inl SendError)))"
| "zero_return _ _ = Panic"

fun msgs_got :: "'m zresult \<Rightarrow> 'm list" where
  "msgs_got (TryReceived (Inr m)) = [m]"
| "msgs_got (Received (Inr m)) = [m]"
| "msgs_got _ = []"

fun msgs_back :: "'m zresult \<Rightarrow> 'm list" where
  "msgs_back (TrySent (Inl e)) = [tse_value e]"
| "msgs_back (Sent (Inl (SendDisconnected m))) = [m]"
| "msgs_back (Sent (Inl (SendTimeout m))) = [m]"
| "msgs_back _ = []"

definition zero_fin ::
    "'t kont \<Rightarrow> 'm zresult \<Rightarrow> ('q, 't, 'm) zsys \<Rightarrow> (('q, 't, 'm) zsys \<times> ('m, 't) zpc) outcome" where
  "zero_fin k r s = obind (zero_return k r) (\<lambda>pc.
     Done (s\<lparr>z_got := z_got s @ msgs_got r,
             z_failed := z_failed s @ (case pc of ZSinkReg _ _ \<Rightarrow> [] | _ \<Rightarrow> msgs_back r)\<rparr>, pc))"

definition zero_poll_first ::
    "'t \<Rightarrow> ('q, 't, 'm) zsys \<Rightarrow> (('q, 't, 'm) zsys \<times> ('m, 't) zpc) outcome" where
  "zero_poll_first t s =
     (if zc_first (z_chan s) then Done (s\<lparr>z_chan := (z_chan s)\<lparr>zc_first := False\<rparr>\<rparr>, ZPollReg t)
      else Done (s, ZPollUpdate t))"

definition zero_poll_update ::
    "bool list \<Rightarrow> 't \<Rightarrow> ('q, 't, 'm) zsys \<Rightarrow> (('q, 't, 'm) zsys \<times> ('m, 't) zpc) outcome" where
  "zero_poll_update ws t s =
     (let w = zc_receivers (z_chan s) in
      obind (positive_update ws (w_from_me w)) (\<lambda>(hit, n).
      Done (s\<lparr>z_chan := (z_chan s)\<lparr>zc_receivers := w\<lparr>w_from_me := n\<rparr>\<rparr>\<rparr>,
            if hit then ZPollReg t else ZRet (Polled (Inr NotReady)))))"

definition zero_poll_register ::
    "('q, 't) aq_ops \<Rightarrow> bool list \<Rightarrow> 't \<Rightarrow> ('q, 't, 'm) zsys
     \<Rightarrow> (('q, 't, 'm) zsys \<times> ('m, 't) zpc) outcome" where
  "zero_poll_register Q ws t s =
     obind (register Q ws (Some t) (zc_receivers (z_chan s))) (\<lambda>w.
     Done (s\<lparr>z_chan := (z_chan s)\<lparr>zc_receivers := w\<rparr>\<rparr>, ZLock (Xfer XRecv) KPollRecv))"

definition zero_sink_register ::
    "('q, 't) aq_ops \<Rightarrow> bool list \<Rightarrow> 't \<Rightarrow> 'm \<Rightarrow> ('q, 't, 'm) zsys
     \<Rightarrow> (('q, 't, 'm) zsys \<times> ('m, 't) zpc) outcome" where
  "zero_sink_register Q ws t item s =
     obind (register Q ws (Some t) (zc_senders (z_chan s))) (\<lambda>w.
     Done (s\<lparr>z_chan := (z_chan s)\<lparr>zc_senders := w\<rparr>\<rparr>, ZLock (Xfer (XSend item)) KSinkSend))"

section \<open>Steps\<close>

text \<open>
  A thread starts a call, takes its answer, or goes on; then the environment chooses the
  spurious failures of the step and the addresses of new local variables.
\<close>

datatype ('m, 't) zinput = ZCall "('m, 't) zcall" | ZTake | ZGo "bool list" usize usize

definition op_msgs :: "'m zop \<Rightarrow> 'm list" where
  "op_msgs op = (case op of Xfer x \<Rightarrow> (case x_msg x of Some m \<Rightarrow> [m] | None \<Rightarrow> []) | _ \<Rightarrow> [])"

fun zero_go ::
    "('q, 't) aq_ops \<Rightarrow> bool list \<Rightarrow> usize \<Rightarrow> usize \<Rightarrow> nat \<Rightarrow> ('q, 't, 'm) zsys \<Rightarrow> ('m, 't) zpc
     \<Rightarrow> (('q, 't, 'm) zsys \<times> ('m, 't) zpc) outcome" where
  "zero_go Q ws a p i s (ZLock op k) =
     (let (old, s1) = z_lock i s in Done (s1, if old then ZLock op k else ZCrit op k))"
| "zero_go Q ws a p i s (ZCrit (Xfer x) k) = zero_meet i a p x k s"
| "zero_go Q ws a p i s (ZCrit OpShutdown k) = zero_shutdown k s"
| "zero_go Q ws a p i s (ZCrit OpIsShutdown k) = zero_is_shutdown k s"
| "zero_go Q ws a p i s (ZLeave k r) = Done (z_unlock s, ZFin k r)"
| "zero_go Q ws a p i s (ZPaired x k q j) = Done (z_unlock s, ZWake x k q j)"
| "zero_go Q ws a p i s (ZWake x k q j) = zero_wake Q x k q j s"
| "zero_go Q ws a p i s (ZMove x k q j) = zero_move i x k q j s"
| "zero_go Q ws a p i s (ZMark x k q j r) = zero_mark x k q j r s"
| "zero_go Q ws a p i s (ZBlocked x k b) = Done (z_wake Q x s, ZUnlock x k b)"
| "zero_go Q ws a p i s (ZUnlock x k b) = Done (z_unlock s, ZWait x k b)"
| "zero_go Q ws a p i s (ZWait x k b) = zero_wait x k b s"
| "zero_go Q ws a p i s (ZReady x k b) = zero_ready x k b s"
| "zero_go Q ws a p i s (ZRelock x k b) =
     (let (old, s1) = z_lock i s in Done (s1, if old then ZRelock x k b else ZUnreg x k b))"
| "zero_go Q ws a p i s (ZUnreg x k b) = zero_unregister i x k b s"
| "zero_go Q ws a p i s (ZUnregDrop x k b) =
     Done (z_unlock s, if sending x then ZTakeMsg x k b else ZEnd x k b (x_closed x))"
| "zero_go Q ws a p i s (ZTakeMsg x k b) = zero_take_msg i x k b s"
| "zero_go Q ws a p i s (ZEnd x k b r) = Done (zero_end i b s, ZFin k r)"
| "zero_go Q ws a p i s (ZFin k r) = zero_fin k r s"
| "zero_go Q ws a p i s (ZPollFirst t) = zero_poll_first t s"
| "zero_go Q ws a p i s (ZPollUpdate t) = zero_poll_update ws t s"
| "zero_go Q ws a p i s (ZPollReg t) = zero_poll_register Q ws t s"
| "zero_go Q ws a p i s (ZSinkReg t item) = zero_sink_register Q ws t item s"
| "zero_go Q ws a p i s ZIdle = Spin"
| "zero_go Q ws a p i s (ZRet r) = Spin"

fun zero_step ::
    "('q, 't) aq_ops \<Rightarrow> (('m, 't) zinput, ('q, 't, 'm) zsys, ('m, 't) zpc) thread_step" where
  "zero_step Q (ZCall c) i s pc =
     (if pc = ZIdle then
        (let (op, k) = first_op c in Done (s\<lparr>z_given := z_given s @ op_msgs op\<rparr>, ZLock op k))
      else Spin)"
| "zero_step Q ZTake i s pc = (case pc of ZRet r \<Rightarrow> Done (s, ZIdle) | _ \<Rightarrow> Spin)"
| "zero_step Q (ZGo ws a p) i s pc = zero_go Q ws a p i s pc"

end
