(* ===== verification/Channels.thy ===== *)
theory Channels
  imports Array_Props List_Props Ref_Counter Zero_Chan
begin

text \<open>
  The constructors of \<open>src/channel.rs\<close>: a channel inside a reference counter. Here the
  contract of the counter is discharged for the channels of the model, and what it gives
  is stated for them.
\<close>

definition bounded ::
    "('q, 't) aq_ops \<Rightarrow> nat \<Rightarrow> usize \<Rightarrow> (('q, 't, 'm) achan counter_box \<times> holder) outcome" where
  "bounded Q slot_size cap = omap counter_new (with_capacity Q slot_size cap)"

text \<open>The steps of the threads that share a bounded channel.\<close>

definition bounded_step ::
    "('q, 't) aq_ops
     \<Rightarrow> (((weak \<times> 't) \<times> 'm call) hinput, ('q, 't, 'm) achan counter_box, holder) thread_step" where
  "bounded_step Q = counter_step (array_shutdown Q)
     (call_use (\<lambda>_. True) good_env (array_snd Q) (array_rcv Q) (array_shutdown Q))"

interpretation bounded_box: counted "array_contract Q contents qcap n" "array_shutdown Q"
  array_is_shutdown "call_use (\<lambda>_. True) good_env (array_snd Q) (array_rcv Q) (array_shutdown Q)"
  for Q :: "('q, 't) aq_ops" and contents qcap n
  by (rule fifo_channel.fifo_counted) (rule bounded.fifo_channel_axioms)

lemma bounded_inv0:
  fixes Q :: "('q, 't) aq_ops" and b :: "('q, 't, 'm) achan counter_box"
  assumes "aq_laws Q contents qcap"
    and "0 < cap" and "8 \<le> slot_size" and "unat cap * slot_size \<le> 2 ^ 63 - 1"
    and "bounded Q slot_size cap = Done (b0, h0)" and "few b"
    and "reachable (bounded_step Q) (b0, h0 # replicate k no_handles) (b, ps)"
  shows "inv0 (array_contract Q contents qcap (unat cap)) (b, ps)"
proof -
  obtain ch :: "('q, 't, 'm) achan" where new: "with_capacity Q slot_size cap = Done ch"
    and c: "array_contract Q contents qcap (unat cap) [] False ch"
    using with_capacity_rep [OF assms(2-4,1)] assms(1) by (metis array_contract_def)
  have "b0 = fst (counter_new ch)" "h0 = snd (counter_new ch)"
    using assms(5) new by (auto simp: bounded_def)
  with bounded_box.reachable_inv0 [OF c assms(6), of k ps] assms(7) show ?thesis
    by (simp add: bounded_step_def)
qed

section \<open>The bounded channel in its box\<close>


text \<open>
  C13. The channel is freed exactly once and at the right time: whenever no thread is in the
  middle of cloning or dropping a handle, the box has been freed exactly when no sender and
  no receiver is left; a side without handles has shut the channel down; and the messages
  still in the channel are then the ones its \<open>drop\<close> destroys.
\<close>

theorem bounded_handles_freed:
  fixes Q :: "('q, 't) aq_ops" and b :: "('q, 't, 'm) achan counter_box"
  assumes "aq_laws Q contents qcap"
    and "0 < cap" and "8 \<le> slot_size" and "unat cap * slot_size \<le> 2 ^ 63 - 1"
    and "bounded Q slot_size cap = Done (b0, h0)" and "few b"
    and "reachable (bounded_step Q) (b0, h0 # replicate k no_handles) (b, ps)"
    and "\<forall>h \<in> set ps. hd_pc h = HIdle"
  shows "(\<not> cb_alive b \<longleftrightarrow> owned SendSide (b, ps) = 0 \<and> owned RecvSide (b, ps) = 0)
    \<and> (\<forall>sd. owned sd (b, ps) = 0 \<longrightarrow> array_is_shutdown (cb_chan b))
    \<and> (\<exists>ms d. array_rep ms d (cb_chan b) \<and> array_drop (cb_chan b) = Done ms)"
proof -
  note inv = bounded_inv0 [OF assms(1-7)]
  obtain ms d where "array_rep ms d (cb_chan b)"
    using inv by (auto simp: inv0_def chan_ok_def array_contract_def)
  with array_drop_correct bounded_box.box_freed_iff [OF inv assms(8)] show ?thesis by blast
qed

text \<open>A channel of capacity 2: its receiver is cloned, then every handle is dropped.\<close>

definition closing_schedule :: "(nat \<times> ((weak \<times> nat) \<times> nat call) hinput) list" where
  "closing_schedule = [(0, CallClone RecvSide), (0, Continue), (0, Give RecvSide), (1, Take RecvSide),
     (0, CallDrop RecvSide), (1, CallDrop RecvSide), (1, Continue), (0, CallDrop SendSide),
     (0, Continue), (1, Continue), (0, Continue), (0, Continue)]"

lemma ex_empty_new: "with_capacity list_aq 16 2 = Done ex_empty"
  by (simp add: with_capacity_def add_chk_def mul_chk_def next_power_of_two_def ex_empty_def
      bit_len.simps upt_rec Let_def)

lemma closing_run:
  "\<exists>b ps. run (bounded_step list_aq) closing_schedule
       (fst (counter_new ex_empty), snd (counter_new ex_empty) # replicate 1 no_handles) = Some (b, ps)
     \<and> \<not> cb_alive b \<and> few b \<and> length ps = 2 \<and> (\<forall>h \<in> set ps. hd_pc h = HIdle)
     \<and> cb_answers b = [True, False]"
proof -
  obtain c1 where c1: "array_shutdown list_aq ex_empty = Done (True, c1)"
    "array_contract list_aq snd fst 2 [] True c1"
    using bounded.shut_rep [of list_aq snd fst 2 "[]" False ex_empty] ex_rep(1) ex_wakers(1) list_aq_laws
    by (auto simp: array_contract_def ex_size)
  obtain c2 where c2: "array_shutdown list_aq c1 = Done (False, c2)"
    using bounded.shut_rep [OF c1(2)] by auto
  show ?thesis
    using c1(1) c2
    by (simp add: closing_schedule_def bounded_step_def counter_new_def acquire_add_def release_sub_def
        deref_box_def release_disconnect_def release_swap_def release_free_def acquire_check_def
        no_handles_def hd_add_def hd_sub_def few_def)
qed

lemma closing_reachable:
  obtains b ps where "reachable (bounded_step list_aq)
      (fst (counter_new ex_empty), snd (counter_new ex_empty) # replicate 1 no_handles) (b, ps)"
    "\<not> cb_alive b" "few b" "length ps = 2" "\<forall>h \<in> set ps. hd_pc h = HIdle"
  using closing_run run_reachable by blast

lemma ex_bounded_new:
  "bounded list_aq 16 2 = Done (fst (counter_new ex_empty), snd (counter_new ex_empty))"
  by (simp add: bounded_def ex_empty_new)


theorem bounded_handles_freed_witness:
  "\<exists>(b :: (nat \<times> nat list, nat, nat) achan counter_box) ps. \<not> cb_alive b
     \<and> owned SendSide (b, ps) = 0 \<and> owned RecvSide (b, ps) = 0 \<and> array_is_shutdown (cb_chan b)"
proof -
  obtain b ps where r: "reachable (bounded_step list_aq)
      (fst (counter_new ex_empty), snd (counter_new ex_empty) # replicate 1 no_handles) (b, ps)"
    "\<not> cb_alive b" "few b" "length ps = 2" "\<forall>h \<in> set ps. hd_pc h = HIdle" using closing_reachable .
  with bounded_handles_freed [OF list_aq_laws _ _ _ ex_bounded_new r(3,1,5)] show ?thesis by auto
qed

section \<open>The unbounded channel in its box\<close>

definition unbounded :: "('q, 't) aq_ops \<Rightarrow> ('q, 't, 'm) lchan counter_box \<times> holder" where
  "unbounded Q = counter_new (list_new Q)"

definition unbounded_step ::
    "('q, 't) aq_ops \<Rightarrow> ((weak \<times> 'm call) hinput, ('q, 't, 'm) lchan counter_box, holder) thread_step" where
  "unbounded_step Q = counter_step (list_shutdown Q)
     (call_use list_fits fair (list_snd Q) list_try_recv (list_shutdown Q))"

interpretation unbounded_box: counted "list_contract Q contents qcap" "list_shutdown Q"
  list_is_shutdown "call_use list_fits fair (list_snd Q) list_try_recv (list_shutdown Q)"
  for Q :: "('q, 't) aq_ops" and contents qcap
  by (rule fifo_channel.fifo_counted) (rule unbounded.fifo_channel_axioms)

lemma list_new_contract:
  "aq_laws Q contents qcap \<Longrightarrow> list_contract Q contents qcap [] False (list_new Q)"
  using list_new_at [of Q] swaker_new_ok [of Q contents qcap]
  by (auto simp: list_contract_def list_rep_def list_new_def)

text \<open>
  C14. The unbounded channel in its box, under every interleaving of its handles: no step
  touches freed memory, frees the box twice, panics or aborts; and whenever no thread is
  in the middle of cloning or dropping, the box has been freed exactly when no handle is
  left, a side without handles has shut the channel down, and dropping the channel
  destroys the messages left in it and frees all its blocks.
\<close>

theorem unbounded_handles:
  fixes Q :: "('q, 't) aq_ops" and b :: "('q, 't, 'm) lchan counter_box"
  assumes "aq_laws Q contents qcap" and "unbounded Q = (b0, h0)" and "few b"
    and "reachable (unbounded_step Q) (b0, h0 # replicate k no_handles) (b, ps)"
  shows "(\<forall>i < length ps. \<forall>inp. unbounded_step Q inp i b (ps ! i) \<noteq> Fault
        \<and> unbounded_step Q inp i b (ps ! i) \<noteq> Panic)
    \<and> ((\<forall>h \<in> set ps. hd_pc h = HIdle) \<longrightarrow>
        (\<not> cb_alive b \<longleftrightarrow> owned SendSide (b, ps) = 0 \<and> owned RecvSide (b, ps) = 0)
        \<and> (\<forall>sd. owned sd (b, ps) = 0 \<longrightarrow> list_is_shutdown (cb_chan b))
        \<and> (\<exists>ms d ch'. list_rep ms d (cb_chan b) \<and> list_drop (cb_chan b) = Done (ms, ch')
             \<and> lc_heap ch' = (\<lambda>_. None)))"
proof -
  have "b0 = fst (counter_new (list_new Q))"
    "h0 = snd (counter_new (list_new Q :: ('q, 't, 'm) lchan))"
    using assms(2) by (simp_all add: unbounded_def counter_new_def)
  then have inv: "inv0 (list_contract Q contents qcap) (b, ps)"
    using unbounded_box.reachable_inv0 [OF list_new_contract [OF assms(1)] assms(3), of k ps] assms(4)
    by (simp add: unbounded_step_def)
  obtain h bs hm ms d where at: "list_at h bs hm ms d (cb_chan b)"
    using inv by (auto simp: inv0_def chan_ok_def list_contract_def list_rep_def)
  have "\<exists>ms d ch'. list_rep ms d (cb_chan b) \<and> list_drop (cb_chan b) = Done (ms, ch') \<and> lc_heap ch' = (\<lambda>_. None)"
    using list_drop_correct [OF at] at unfolding list_rep_def by blast
  with unbounded_box.box_safe [OF inv assms(3)] unbounded_box.box_freed_iff [OF inv]
  show ?thesis unfolding unbounded_step_def by blast
qed

theorem unbounded_handles_witness:
  "\<exists>(b :: (nat \<times> nat list, nat, nat) lchan counter_box) ps.
     unbounded_step list_aq (CallDrop SendSide) 0 b (ps ! 0) \<noteq> Fault \<and> cb_alive b"
proof -
  obtain b h where new: "unbounded list_aq = (b :: (nat \<times> nat list, nat, nat) lchan counter_box, h)"
    by (cases "unbounded list_aq :: (nat \<times> nat list, nat, nat) lchan counter_box \<times> holder")
  have r: "reachable (unbounded_step list_aq) (b, h # replicate 0 no_handles) (b, [h])"
    using reach_start [of "unbounded_step list_aq" "(b, [h])"] by simp
  have "few b" "cb_alive b" using new by (auto simp: few_def unbounded_def counter_new_def)
  with unbounded_handles [OF list_aq_laws new _ r] show ?thesis
    by (intro exI [of _ b] exI [of _ "[h]"]) simp
qed

section \<open>The zero-capacity channel in its box\<close>

definition zero :: "('q, 't) aq_ops \<Rightarrow> ('q, 't) zchan counter_box \<times> holder" where
  "zero Q = counter_new (zero_new Q)"

end
