(* ===== verification/Zero_Inv.thy ===== *)
theory Zero_Inv
  imports Zero_Chan
begin

text \<open>
  The invariant of the zero-capacity channel: what the packet, the context and the queue
  entry of every blocked call are at each stage of the call, and where the threads are
  then. From it: no step goes wrong.
\<close>

section \<open>Blocked calls\<close>

definition entry_of :: "zblocked \<Rightarrow> entry" where
  "entry_of b = \<lparr>e_oper = zb_oper b, e_packet = zb_packet b, e_cx = zb_cx b\<rparr>"

fun waiting_stage :: "'m stage \<Rightarrow> bool" where
  "waiting_stage SQueued = True"
| "waiting_stage SDisc = True"
| "waiting_stage _ = False"

text \<open>The word in the context of a blocked call, and what its packet holds.\<close>

fun stage_word :: "usize \<Rightarrow> 'm stage \<Rightarrow> usize \<Rightarrow> bool" where
  "stage_word a SQueued w = (w = 0)"
| "stage_word a SDisc w = (w = 2)"
| "stage_word a SGone w = (w = 2)"
| "stage_word a (SPaired j y) w = (w = a)"
| "stage_word a (SMoved j y) w = (w = a)"
| "stage_word a (SOver y) w = (w = a)"
| "stage_word a STaken w = True"

definition handed :: "'m xfer \<Rightarrow> 'm xfer \<Rightarrow> 'm option" where
  "handed x y = (if sending x then None else x_msg y)"

fun stage_packet :: "'m xfer \<Rightarrow> 'm stage \<Rightarrow> 'm packet \<Rightarrow> bool" where
  "stage_packet x SQueued pk = (pk = x_packet x)"
| "stage_packet x SDisc pk = (pk = x_packet x)"
| "stage_packet x SGone pk = (pk = x_packet x)"
| "stage_packet x (SPaired j y) pk = (pk = x_packet x \<and> sending y \<noteq> sending x)"
| "stage_packet x (SMoved j y) pk =
     (pk = \<lparr>pk_on_stack = True, pk_ready = False, pk_msg = handed x y\<rparr> \<and> sending y \<noteq> sending x)"
| "stage_packet x (SOver y) pk =
     (pk = \<lparr>pk_on_stack = True, pk_ready = True, pk_msg = handed x y\<rparr> \<and> sending y \<noteq> sending x)"
| "stage_packet x STaken pk = True"

definition role_ok ::
    "(nat \<Rightarrow> inner option) \<Rightarrow> (usize \<Rightarrow> 'm packet option) \<Rightarrow> usize list \<Rightarrow> nat \<Rightarrow> 'm role \<Rightarrow> bool" where
  "role_ok mem pks locs i r \<longleftrightarrow>
     \<not> x_try (ro_x r) \<and>
     zb_oper (ro_b r) = Operation_Id (zb_local (ro_b r)) \<and> 2 < zb_local (ro_b r) \<and>
     zb_local (ro_b r) \<in> set locs \<and> zb_packet (ro_b r) \<noteq> 0 \<and>
     (\<exists>cx. mem (zb_cx (ro_b r)) = Some cx \<and> in_thread cx = i
        \<and> stage_word (zb_local (ro_b r)) (ro_stage r) (in_select cx)) \<and>
     (\<exists>pk. pks (zb_packet (ro_b r)) = Some pk \<and> stage_packet (ro_x r) (ro_stage r) pk)"

lemma role_okD:
  assumes "role_ok mem pks locs i r"
  obtains cx pk where "mem (zb_cx (ro_b r)) = Some cx" "in_thread cx = i"
    "stage_word (zb_local (ro_b r)) (ro_stage r) (in_select cx)"
    "pks (zb_packet (ro_b r)) = Some pk" "stage_packet (ro_x r) (ro_stage r) pk"
  using assms unfolding role_ok_def by blast

section \<open>The shared state\<close>

definition roles_ok :: "('q, 't, 'm) zsys \<Rightarrow> bool" where
  "roles_ok s \<longleftrightarrow> (\<forall>i r. z_role s i = Some r \<longrightarrow>
     role_ok (cs_mem (z_store s)) (z_packets s) (z_locals s) i r)"

definition roles_apart :: "('q, 't, 'm) zsys \<Rightarrow> bool" where
  "roles_apart s \<longleftrightarrow> (\<forall>i j r u. z_role s i = Some r \<longrightarrow> z_role s j = Some u \<longrightarrow> i \<noteq> j \<longrightarrow>
     zb_packet (ro_b r) \<noteq> zb_packet (ro_b u) \<and> zb_local (ro_b r) \<noteq> zb_local (ro_b u))"

definition queued :: "bool \<Rightarrow> (nat \<Rightarrow> 'm role option) \<Rightarrow> entry set" where
  "queued d roles = {entry_of (ro_b r) | i r.
     roles i = Some r \<and> sending (ro_x r) = d \<and> waiting_stage (ro_stage r)}"

definition queues_ok :: "('q, 't, 'm) zsys \<Rightarrow> bool" where
  "queues_ok s \<longleftrightarrow> (\<forall>d. distinct (z_queue d (z_inner s))
     \<and> set (z_queue d (z_inner s)) = queued d (z_role s))"

definition told_all :: "('q, 't, 'm) zsys \<Rightarrow> bool" where
  "told_all s \<longleftrightarrow> (zi_disconnected (z_inner s) \<longrightarrow>
     (\<forall>i r. z_role s i = Some r \<longrightarrow> ro_stage r \<noteq> SQueued))"

definition z_ok :: "('q, 't, 'm) zsys \<Rightarrow> bool" where
  "z_ok s \<longleftrightarrow> roles_ok s \<and> roles_apart s \<and> queues_ok s \<and> told_all s \<and> store_ok (z_store s)
     \<and> (sl_flag (zc_inner (z_chan s)) \<longleftrightarrow> z_holder s \<noteq> None)"

lemma z_okD:
  assumes "z_ok s"
  shows "roles_ok s" "roles_apart s" "queues_ok s" "told_all s" "store_ok (z_store s)"
    "sl_flag (zc_inner (z_chan s)) \<longleftrightarrow> z_holder s \<noteq> None"
  using assms by (simp_all add: z_ok_def)

section \<open>Where a thread is\<close>

fun blocked_of :: "('m, 't) zpc \<Rightarrow> ('m xfer \<times> zblocked) option" where
  "blocked_of (ZBlocked x k b) = Some (x, b)"
| "blocked_of (ZUnlock x k b) = Some (x, b)"
| "blocked_of (ZWait x k b) = Some (x, b)"
| "blocked_of (ZReady x k b) = Some (x, b)"
| "blocked_of (ZRelock x k b) = Some (x, b)"
| "blocked_of (ZUnreg x k b) = Some (x, b)"
| "blocked_of (ZUnregDrop x k b) = Some (x, b)"
| "blocked_of (ZTakeMsg x k b) = Some (x, b)"
| "blocked_of (ZEnd x k b r) = Some (x, b)"
| "blocked_of _ = None"

fun is_selected :: "'m stage \<Rightarrow> bool" where
  "is_selected (SPaired _ _) = True"
| "is_selected (SMoved _ _) = True"
| "is_selected (SOver _) = True"
| "is_selected _ = False"

fun is_over :: "'m stage \<Rightarrow> bool" where
  "is_over (SOver _) = True"
| "is_over _ = False"

text \<open>The stages a call can be in while its thread is at a point of the closure.\<close>

fun stage_at :: "('m, 't) zpc \<Rightarrow> 'm stage \<Rightarrow> bool" where
  "stage_at (ZBlocked x k b) st = (waiting_stage st \<or> is_selected st)"
| "stage_at (ZUnlock x k b) st = (waiting_stage st \<or> is_selected st)"
| "stage_at (ZWait x k b) st = (waiting_stage st \<or> is_selected st)"
| "stage_at (ZReady x k b) st = is_selected st"
| "stage_at (ZRelock x k b) st = (st = SDisc)"
| "stage_at (ZUnreg x k b) st = (st = SDisc)"
| "stage_at (ZUnregDrop x k b) st = (st = SGone)"
| "stage_at (ZTakeMsg x k b) st = (if sending x then st = SGone else is_over st)"
| "stage_at (ZEnd x k b r) st = (st = STaken \<or> (if sending x then is_over st else st = SGone))"
| "stage_at _ st = False"

fun holds :: "('m, 't) zpc \<Rightarrow> bool" where
  "holds (ZCrit op k) = True"
| "holds (ZLeave k r) = True"
| "holds (ZPaired x k p j) = True"
| "holds (ZBlocked x k b) = True"
| "holds (ZUnlock x k b) = True"
| "holds (ZUnreg x k b) = True"
| "holds (ZUnregDrop x k b) = True"
| "holds _ = False"

text \<open>The thread whose packet a thread is reading or writing, and how far it is.\<close>

fun partner_of :: "nat \<Rightarrow> ('m, 't) zpc \<Rightarrow> (usize \<times> nat \<times> 'm xfer \<times> 'm stage) option" where
  "partner_of i (ZPaired x k p j) = Some (p, j, x, SPaired i x)"
| "partner_of i (ZWake x k p j) = Some (p, j, x, SPaired i x)"
| "partner_of i (ZMove x k p j) = Some (p, j, x, SPaired i x)"
| "partner_of i (ZMark x k p j r) = Some (p, j, x, SMoved i x)"
| "partner_of i _ = None"

text \<open>\<open>names i st\<close>: a stage in which thread \<open>i\<close> still has to do something.\<close>

fun names :: "nat \<Rightarrow> 'm stage \<Rightarrow> bool" where
  "names i (SPaired j y) = (j = i)"
| "names i (SMoved j y) = (j = i)"
| "names i _ = False"

text \<open>An operation and its answer fit the caller.\<close>

fun fits_call :: "'t kont \<Rightarrow> 'm xfer \<Rightarrow> bool" where
  "fits_call KReturn x = True"
| "fits_call (KPollTry t) x = (x = XTryRecv)"
| "fits_call KPollRecv x = (x = XRecv)"
| "fits_call (KSinkTry t) x = (x_msg x \<noteq> None \<and> x_try x)"
| "fits_call KSinkSend x = (x_msg x \<noteq> None \<and> \<not> x_try x)"

fun fits_answer :: "'t kont \<Rightarrow> 'm zresult \<Rightarrow> bool" where
  "fits_answer KReturn r = True"
| "fits_answer (KPollTry t) r = (\<exists>a. r = TryReceived a)"
| "fits_answer KPollRecv r = (\<exists>a. r = Received a)"
| "fits_answer (KSinkTry t) r = (\<exists>a. r = TrySent a)"
| "fits_answer KSinkSend r = (\<exists>a. r = Sent a)"

definition fits_op :: "'t kont \<Rightarrow> 'm zop \<Rightarrow> bool" where
  "fits_op k op = (case op of Xfer x \<Rightarrow> fits_call k x | _ \<Rightarrow> k = KReturn)"

fun typed :: "('m, 't) zpc \<Rightarrow> bool" where
  "typed (ZLock op k) = fits_op k op"
| "typed (ZCrit op k) = fits_op k op"
| "typed (ZLeave k r) = fits_answer k r"
| "typed (ZPaired x k p j) = (fits_call k x \<and> p \<noteq> 0)"
| "typed (ZWake x k p j) = (fits_call k x \<and> p \<noteq> 0)"
| "typed (ZMove x k p j) = fits_call k x"
| "typed (ZMark x k p j r) = fits_answer k r"
| "typed (ZBlocked x k b) = fits_call k x"
| "typed (ZUnlock x k b) = fits_call k x"
| "typed (ZWait x k b) = fits_call k x"
| "typed (ZReady x k b) = fits_call k x"
| "typed (ZRelock x k b) = fits_call k x"
| "typed (ZUnreg x k b) = fits_call k x"
| "typed (ZUnregDrop x k b) = fits_call k x"
| "typed (ZTakeMsg x k b) = fits_call k x"
| "typed (ZEnd x k b r) = fits_answer k r"
| "typed (ZFin k r) = fits_answer k r"
| "typed _ = True"

definition role_at :: "('m, 't) zpc \<Rightarrow> 'm role option \<Rightarrow> bool" where
  "role_at pc ro \<longleftrightarrow> (case blocked_of pc of None \<Rightarrow> ro = None
     | Some (x, b) \<Rightarrow> (\<exists>st. ro = Some \<lparr>ro_x = x, ro_b = b, ro_stage = st\<rparr> \<and> stage_at pc st))"

definition partner_at :: "(nat \<Rightarrow> 'm role option) \<Rightarrow> nat \<Rightarrow> ('m, 't) zpc \<Rightarrow> bool" where
  "partner_at roles i pc \<longleftrightarrow> (case partner_of i pc of None \<Rightarrow> True
     | Some (p, j, x, st) \<Rightarrow> (\<exists>r. roles j = Some r \<and> zb_packet (ro_b r) = p \<and> ro_stage r = st))"

text \<open>Every call that is left to thread \<open>i\<close> is the one thread \<open>i\<close> works on.\<close>

definition sole_partner :: "(nat \<Rightarrow> 'm role option) \<Rightarrow> nat \<Rightarrow> ('m, 't) zpc \<Rightarrow> bool" where
  "sole_partner roles i pc \<longleftrightarrow> (\<forall>j r. roles j = Some r \<longrightarrow> names i (ro_stage r) \<longrightarrow>
     (\<exists>p x st. partner_of i pc = Some (p, j, x, st)))"

definition z_at :: "('q, 't, 'm) zsys \<Rightarrow> nat \<Rightarrow> ('m, 't) zpc \<Rightarrow> bool" where
  "z_at s i pc \<longleftrightarrow> role_at pc (z_role s i) \<and> (z_holder s = Some i \<longleftrightarrow> holds pc)
     \<and> partner_at (z_role s) i pc \<and> sole_partner (z_role s) i pc \<and> typed pc"

section \<open>What a step may do to other threads\<close>

inductive advance :: "nat \<Rightarrow> 'm stage \<Rightarrow> 'm stage \<Rightarrow> bool" for i where
  adv_same: "advance i st st"
| adv_pair: "advance i SQueued (SPaired i y)"
| adv_tell: "advance i SQueued SDisc"
| adv_move: "advance i (SPaired i y) (SMoved i y)"
| adv_mark: "advance i (SMoved i y) (SOver y)"

definition role_advance :: "nat \<Rightarrow> 'm role option \<Rightarrow> 'm role option \<Rightarrow> bool" where
  "role_advance i ro ro' \<longleftrightarrow> (case ro of None \<Rightarrow> ro' = None
     | Some r \<Rightarrow> (\<exists>st. ro' = Some (r\<lparr>ro_stage := st\<rparr>) \<and> advance i (ro_stage r) st))"

text \<open>
  \<open>z_guar i s s'\<close>: a step of thread \<open>i\<close> leaves the guard of another thread alone, advances
  the calls of other threads, and keeps those calls that are left to another thread.
\<close>

definition z_guar :: "nat \<Rightarrow> ('q, 't, 'm) zsys \<Rightarrow> ('q, 't, 'm) zsys \<Rightarrow> bool" where
  "z_guar i s s' \<longleftrightarrow> (\<forall>j. j \<noteq> i \<longrightarrow>
     (z_holder s' = Some j \<longleftrightarrow> z_holder s = Some j)
     \<and> role_advance i (z_role s j) (z_role s' j)
     \<and> (\<forall>l r. names j (ro_stage r) \<longrightarrow> (z_role s' l = Some r \<longleftrightarrow> z_role s l = Some r)))"

lemma stage_at_advance:
  assumes "stage_at pc st" "advance i st st'"
  shows "stage_at pc st'"
  using assms(2,1) by (cases rule: advance.cases) (cases pc; auto split: if_splits)+

lemma role_at_advance:
  assumes "role_at pc ro" "role_advance i ro ro'"
  shows "role_at pc ro'"
  using assms stage_at_advance
  by (fastforce simp: role_at_def role_advance_def split: option.splits)

lemma partner_of_names: "partner_of j pc = Some (p, l, x, st) \<Longrightarrow> names j st"
  by (cases pc) auto

lemma z_at_guar:
  assumes "z_guar i s s'" "j \<noteq> i" "z_at s j pc"
  shows "z_at s' j pc"
proof -
  note g = assms(1) [unfolded z_guar_def, rule_format, OF assms(2)]
  have "role_at pc (z_role s' j)"
    using role_at_advance g assms(3) unfolding z_at_def by blast
  moreover have "partner_at (z_role s') j pc"
  proof (cases "partner_of j pc")
    case (Some q)
    obtain p l x st where q: "q = (p, l, x, st)" by (cases q)
    with Some assms(3) obtain r where r: "z_role s l = Some r" "zb_packet (ro_b r) = p" "ro_stage r = st"
      unfolding z_at_def partner_at_def by auto
    have "names j (ro_stage r)" using partner_of_names Some q r(3) by metis
    with g r(1) have "z_role s' l = Some r" by blast
    with Some q r show ?thesis by (simp add: partner_at_def)
  qed (simp add: partner_at_def)
  moreover have "sole_partner (z_role s') j pc"
    using g assms(3) unfolding z_at_def sole_partner_def by blast
  ultimately show ?thesis using g assms(3) unfolding z_at_def by blast
qed

lemma role_advance_refl [simp, intro]: "role_advance i ro ro"
  by (cases ro) (auto simp: role_advance_def intro!: exI [of _ "ro_stage _"] adv_same)

lemma names_unique: "names i st \<Longrightarrow> names j st \<Longrightarrow> i = j"
  by (cases st) auto


section \<open>Steps that leave the shared state of the calls alone\<close>

definition z_good :: "('q, 't, 'm) zsys \<Rightarrow> nat \<Rightarrow> ('q, 't, 'm) zsys \<Rightarrow> ('m, 't) zpc \<Rightarrow> bool" where
  "z_good s i s' pc' \<longleftrightarrow> z_ok s' \<and> z_at s' i pc' \<and> z_guar i s s'"

lemmas z_at_defs = z_at_def role_at_def partner_at_def sole_partner_def

text \<open>The part of the state that the invariant speaks of, the lock apart.\<close>

definition calm :: "('q, 't, 'm) zsys \<Rightarrow> ('q, 't, 'm) zsys \<Rightarrow> bool" where
  "calm s s' \<longleftrightarrow> z_inner s' = z_inner s \<and> z_store s' = z_store s \<and> z_packets s' = z_packets s
     \<and> z_locals s' = z_locals s \<and> z_role s' = z_role s"

definition same_lock :: "('q, 't, 'm) zsys \<Rightarrow> ('q, 't, 'm) zsys \<Rightarrow> bool" where
  "same_lock s s' \<longleftrightarrow> sl_flag (zc_inner (z_chan s')) = sl_flag (zc_inner (z_chan s)) \<and> z_holder s' = z_holder s"

lemma calm_ok:
  assumes "calm s s'" "z_ok s" "sl_flag (zc_inner (z_chan s')) \<longleftrightarrow> z_holder s' \<noteq> None"
  shows "z_ok s'"
  using assms by (simp add: z_ok_def calm_def roles_ok_def roles_apart_def queues_ok_def told_all_def)

lemma calm_good:
  assumes "calm s s'" "same_lock s s'" "z_ok s" "z_at s i pc'"
  shows "z_good s i s' pc'"
proof -
  have "z_ok s'" using calm_ok [OF assms(1,3)] assms(2,3) by (simp add: same_lock_def z_ok_def)
  moreover have "z_at s' i pc'" using assms(1,2,4) by (simp add: z_at_defs calm_def same_lock_def)
  moreover have "z_guar i s s'" using assms(1,2) by (auto simp: z_guar_def calm_def same_lock_def)
  ultimately show ?thesis by (simp add: z_good_def)
qed

lemma calm_upd [simp]:
  "calm s (s\<lparr>z_chan := (z_chan s)\<lparr>zc_receivers := w\<rparr>\<rparr>)" "calm s (s\<lparr>z_chan := (z_chan s)\<lparr>zc_senders := w\<rparr>\<rparr>)"
  "calm s (s\<lparr>z_chan := (z_chan s)\<lparr>zc_first := f\<rparr>\<rparr>)" "calm s (s\<lparr>z_given := g\<rparr>)"
  "calm s (s\<lparr>z_got := g, z_failed := h\<rparr>)" "calm s s" "calm s (z_wake Q x s)"
  by (simp_all add: calm_def z_inner_def z_wake_def)

lemma same_lock_upd [simp]:
  "same_lock s (s\<lparr>z_chan := (z_chan s)\<lparr>zc_receivers := w\<rparr>\<rparr>)"
  "same_lock s (s\<lparr>z_chan := (z_chan s)\<lparr>zc_senders := w\<rparr>\<rparr>)"
  "same_lock s (s\<lparr>z_chan := (z_chan s)\<lparr>zc_first := f\<rparr>\<rparr>)" "same_lock s (s\<lparr>z_given := g\<rparr>)"
  "same_lock s (s\<lparr>z_got := g, z_failed := h\<rparr>)" "same_lock s s" "same_lock s (z_wake Q x s)"
  by (simp_all add: same_lock_def z_wake_def)

lemma calm_lock: "calm s (snd (z_lock i s))" "calm s (z_unlock s)"
  by (simp_all add: calm_def z_lock_def z_unlock_def z_inner_def swap_flag_def guard_drop_def guard_deref_def)

lemma z_lock_good:
  assumes ok: "z_ok s" and at: "z_at s i pc" and st: "z_lock i s = (old, s')"
    and pcs: "blocked_of pc' = blocked_of pc" "partner_of i pc = None" "partner_of i pc' = None" "typed pc'"
      "\<forall>st. stage_at pc st \<longrightarrow> stage_at pc' st" "\<not> holds pc" "holds pc'"
  shows "z_good s i s' (if old then pc else pc')"
proof -
  have s': "s' = snd (z_lock i s)" using st by simp
  have role: "role_at pc' (z_role s i)"
    using at pcs(1,5) by (auto simp: z_at_def role_at_def split: option.splits)
  show ?thesis
  proof (cases old)
    case True
    then have "same_lock s s'"
      using st z_okD(6) [OF ok] by (auto simp: z_lock_def swap_flag_def same_lock_def Let_def)
    from calm_good [OF calm_lock(1) [of s i, folded s'] this ok at] True show ?thesis by simp
  next
    case False
    then have l: "\<not> sl_flag (zc_inner (z_chan s))" "sl_flag (zc_inner (z_chan s'))" "z_holder s' = Some i"
      using st by (auto simp: z_lock_def swap_flag_def Let_def)
    then have free: "z_holder s = None" using z_okD(6) [OF ok] by simp
    have "z_ok s'" using calm_ok [OF calm_lock(1) [of s i, folded s'] ok] l by simp
    moreover have "z_at s' i pc'"
      using role at pcs l calm_lock(1) [of s i, folded s']
      by (simp add: z_at_defs calm_def)
    moreover have "z_guar i s s'"
      using l free calm_lock(1) [of s i, folded s'] by (auto simp: z_guar_def calm_def)
    ultimately show ?thesis using False by (simp add: z_good_def)
  qed
qed

lemma z_unlock_good:
  assumes ok: "z_ok s" and at: "z_at s i pc" and h: "holds pc"
    and pcs: "blocked_of pc' = blocked_of pc" "partner_of i pc' = partner_of i pc" "typed pc'"
      "\<forall>st. stage_at pc st \<longrightarrow> stage_at pc' st" "\<not> holds pc'"
  shows "z_good s i (z_unlock s) pc'"
proof -
  have l: "z_holder s = Some i" "\<not> sl_flag (zc_inner (z_chan (z_unlock s)))" "z_holder (z_unlock s) = None"
    using at h by (simp_all add: z_at_def z_unlock_def guard_drop_def)
  have role: "role_at pc' (z_role s i)"
    using at pcs(1,4) by (auto simp: z_at_def role_at_def split: option.splits)
  have "z_ok (z_unlock s)" using calm_ok [OF calm_lock(2) ok] l by simp
  moreover have "z_at (z_unlock s) i pc'"
    using role at pcs l calm_lock(2) [of s] by (simp add: z_at_defs calm_def)
  moreover have "z_guar i s (z_unlock s)"
    using l calm_lock(2) [of s] by (auto simp: z_guar_def calm_def)
  ultimately show ?thesis by (simp add: z_good_def)
qed

section \<open>Steps that change one call\<close>

lemma z_inner_simps [simp]:
  "z_inner (s\<lparr>z_store := st\<rparr>) = z_inner s" "z_inner (s\<lparr>z_packets := pks\<rparr>) = z_inner s"
  "z_inner (s\<lparr>z_locals := ls\<rparr>) = z_inner s" "z_inner (s\<lparr>z_role := ro\<rparr>) = z_inner s"
  "z_inner (z_set_inner v s) = v" "z_inner (z_set_stage j sg s) = z_inner s" "z_inner (z_put p pk s) = z_inner s"
  by (simp_all add: z_inner_def z_set_inner_def z_set_stage_def z_put_def guard_deref_def guard_deref_mut_def)

lemma z_set_inner_simps [simp]:
  "z_store (z_set_inner v s) = z_store s" "z_packets (z_set_inner v s) = z_packets s"
  "z_locals (z_set_inner v s) = z_locals s" "z_role (z_set_inner v s) = z_role s"
  "z_holder (z_set_inner v s) = z_holder s"
  "sl_flag (zc_inner (z_chan (z_set_inner v s))) = sl_flag (zc_inner (z_chan s))"
  by (simp_all add: z_set_inner_def guard_deref_mut_def)

lemma z_set_stage_simps [simp]:
  "z_store (z_set_stage j st s) = z_store s" "z_packets (z_set_stage j st s) = z_packets s"
  "z_locals (z_set_stage j st s) = z_locals s" "z_holder (z_set_stage j st s) = z_holder s"
  "z_chan (z_set_stage j st s) = z_chan s"
  "z_role (z_set_stage j st s)
     = (z_role s)(j := map_option (\<lambda>r. r\<lparr>ro_stage := st\<rparr>) (z_role s j))"
  by (simp_all add: z_set_stage_def)

lemma z_put_simps [simp]:
  "z_store (z_put p pk s) = z_store s" "z_packets (z_put p pk s) = (z_packets s)(p := pk)"
  "z_locals (z_put p pk s) = z_locals s" "z_holder (z_put p pk s) = z_holder s"
  "z_chan (z_put p pk s) = z_chan s" "z_role (z_put p pk s) = z_role s"
  by (simp_all add: z_put_def)

lemma z_set_queue_simps [simp]:
  "z_queue d (z_set_queue d w v) = w" "z_queue (\<not> d) (z_set_queue d w v) = z_queue (\<not> d) v"
  "zi_disconnected (z_set_queue d w v) = zi_disconnected v"
  by (cases d; simp)+

lemma role_ok_frame:
  assumes "role_ok mem pks locs i r" "mem' (zb_cx (ro_b r)) = mem (zb_cx (ro_b r))"
    "pks' (zb_packet (ro_b r)) = pks (zb_packet (ro_b r))" "zb_local (ro_b r) \<in> set locs'"
  shows "role_ok mem' pks' locs' i r"
  using assms by (simp add: role_ok_def)

text \<open>Contexts of different calls are different.\<close>

lemma roles_cx:
  assumes "roles_ok s" "z_role s i = Some r" "z_role s j = Some u" "zb_cx (ro_b r) = zb_cx (ro_b u)"
  shows "i = j"
proof -
  have "role_ok (cs_mem (z_store s)) (z_packets s) (z_locals s) i r"
    "role_ok (cs_mem (z_store s)) (z_packets s) (z_locals s) j u"
    using assms(1-3) by (simp_all add: roles_ok_def)
  with assms(4) show ?thesis by (auto simp: role_ok_def)
qed

lemma roles_update:
  assumes ok: "roles_ok s" "roles_apart s" and j: "z_role s j = Some r"
    and role: "z_role s' = (z_role s)(j \<mapsto> r\<lparr>ro_stage := st\<rparr>)" and locs: "z_locals s' = z_locals s"
    and mem: "\<And>c. c \<noteq> zb_cx (ro_b r) \<Longrightarrow> cs_mem (z_store s') c = cs_mem (z_store s) c"
    and pks: "\<And>p. p \<noteq> zb_packet (ro_b r) \<Longrightarrow> z_packets s' p = z_packets s p"
    and new: "role_ok (cs_mem (z_store s')) (z_packets s') (z_locals s) j (r\<lparr>ro_stage := st\<rparr>)"
  shows "roles_ok s' \<and> roles_apart s'"
proof
  have "role_ok (cs_mem (z_store s')) (z_packets s') (z_locals s) l u" if "z_role s' l = Some u" for l u
  proof (cases "l = j")
    case True
    with that new role show ?thesis by simp
  next
    case False
    with that role have u: "z_role s l = Some u" by simp
    have "zb_cx (ro_b u) \<noteq> zb_cx (ro_b r)" using roles_cx [OF ok(1) u j] False by blast
    moreover have "zb_packet (ro_b u) \<noteq> zb_packet (ro_b r)"
      using ok(2) u j False unfolding roles_apart_def by blast
    moreover have o: "role_ok (cs_mem (z_store s)) (z_packets s) (z_locals s) l u"
      using ok(1) u by (simp add: roles_ok_def)
    ultimately show ?thesis by (intro role_ok_frame [OF o]) (use o mem pks in \<open>auto simp: role_ok_def\<close>)
  qed
  then show "roles_ok s'" by (simp add: roles_ok_def locs)
  show "roles_apart s'" using ok(2) j by (fastforce simp: roles_apart_def role)
qed

end
