(* ===== verification/Zero_Steps.thy ===== *)
theory Zero_Steps
  imports Zero_Inv
begin

text \<open>
  Every step of the zero-capacity channel keeps the invariant, and none goes wrong.
\<close>

section \<open>Changing the stage of one call\<close>

lemma entry_of_simps [simp]:
  "e_oper (entry_of b) = zb_oper b" "e_packet (entry_of b) = zb_packet b" "e_cx (entry_of b) = zb_cx b"
  by (simp_all add: entry_of_def)

lemma queuedI:
  "roles j = Some r \<Longrightarrow> sending (ro_x r) = d \<Longrightarrow> waiting_stage (ro_stage r) \<Longrightarrow> entry_of (ro_b r) \<in> queued d roles"
  by (auto simp: queued_def)

lemma queuedE:
  assumes "e \<in> queued d roles"
  obtains j r where "roles j = Some r" "sending (ro_x r) = d" "waiting_stage (ro_stage r)" "e = entry_of (ro_b r)"
  using assms by (auto simp: queued_def)

lemma queued_update:
  assumes j: "roles j = Some r" and st: "\<not> waiting_stage st"
    and inj: "\<And>l u. roles l = Some u \<Longrightarrow> zb_cx (ro_b u) = zb_cx (ro_b r) \<Longrightarrow> l = j"
  shows "queued d (roles(j \<mapsto> r\<lparr>ro_stage := st\<rparr>)) = queued d roles - {entry_of (ro_b r)}"
proof (rule set_eqI)
  fix e
  show "e \<in> queued d (roles(j \<mapsto> r\<lparr>ro_stage := st\<rparr>)) \<longleftrightarrow> e \<in> queued d roles - {entry_of (ro_b r)}"
  proof
    assume "e \<in> queued d (roles(j \<mapsto> r\<lparr>ro_stage := st\<rparr>))"
    then obtain l u where u: "(roles(j \<mapsto> r\<lparr>ro_stage := st\<rparr>)) l = Some u" "sending (ro_x u) = d"
      "waiting_stage (ro_stage u)" "e = entry_of (ro_b u)" by (rule queuedE)
    with st have "l \<noteq> j" by auto
    with u have l: "roles l = Some u" by simp
    have "entry_of (ro_b u) \<noteq> entry_of (ro_b r)" using inj [OF l] \<open>l \<noteq> j\<close> by (auto simp: entry_of_def)
    with l u show "e \<in> queued d roles - {entry_of (ro_b r)}" by (auto intro: queuedI)
  next
    assume e: "e \<in> queued d roles - {entry_of (ro_b r)}"
    then obtain l u where u: "roles l = Some u" "sending (ro_x u) = d"
      "waiting_stage (ro_stage u)" "e = entry_of (ro_b u)" by (auto elim: queuedE)
    with e j have "l \<noteq> j" by auto
    with u show "e \<in> queued d (roles(j \<mapsto> r\<lparr>ro_stage := st\<rparr>))"
      by (auto intro!: queuedI [of _ l u])
  qed
qed

lemma stage_change_ok:
  assumes ok: "z_ok s" and j: "z_role s j = Some r"
    and role: "z_role s' = (z_role s)(j \<mapsto> r\<lparr>ro_stage := st\<rparr>)" and locs: "z_locals s' = z_locals s"
    and mem: "\<And>c. c \<noteq> zb_cx (ro_b r) \<Longrightarrow> cs_mem (z_store s') c = cs_mem (z_store s) c"
    and pks: "\<And>p. p \<noteq> zb_packet (ro_b r) \<Longrightarrow> z_packets s' p = z_packets s p"
    and new: "role_ok (cs_mem (z_store s')) (z_packets s') (z_locals s) j (r\<lparr>ro_stage := st\<rparr>)"
    and st: "\<not> waiting_stage st"
    and queues: "\<And>d. distinct (z_queue d (z_inner s'))"
      "\<And>d. set (z_queue d (z_inner s')) = set (z_queue d (z_inner s)) - {entry_of (ro_b r)}"
    and rest: "zi_disconnected (z_inner s') = zi_disconnected (z_inner s)" "store_ok (z_store s')"
      "same_lock s s'"
  shows "z_ok s'"
proof -
  note D = z_okD [OF ok]
  have "roles_ok s' \<and> roles_apart s'"
    by (rule roles_update [OF D(1,2) j role locs mem pks new])
  moreover have "queues_ok s'"
    using queues queued_update [of "z_role s" j r st, OF j st] roles_cx [OF D(1) _ j] D(3)
    by (simp add: queues_ok_def role)
  moreover have "told_all s'"
    using D(4) st rest(1) by (auto simp: told_all_def role)
  ultimately show ?thesis using rest D(6) by (simp add: z_ok_def same_lock_def)
qed

lemma stage_change_guar:
  assumes "z_role s j = Some r" "z_role s' = (z_role s)(j \<mapsto> r\<lparr>ro_stage := st\<rparr>)" "z_holder s' = z_holder s"
    and "j \<noteq> i \<Longrightarrow> advance i (ro_stage r) st"
    and "\<And>l. l \<noteq> i \<Longrightarrow> \<not> names l (ro_stage r) \<and> \<not> names l st"
  shows "z_guar i s s'"
  unfolding z_guar_def
proof (intro allI impI conjI)
  fix l assume l: "l \<noteq> i"
  show "role_advance i (z_role s l) (z_role s' l)"
    using assms(1,2,4) l by (cases "l = j") (auto simp: role_advance_def [of _ "Some r"])
  show "z_role s' n = Some u \<longleftrightarrow> z_role s n = Some u" if "names l (ro_stage u)" for n u
    using assms(1,2,5) l that by auto
qed (simp_all add: assms(3))

text \<open>A call that is not queued has no entry.\<close>

lemma not_waiting_queue:
  assumes ok: "z_ok s" and j: "z_role s j = Some r" and st: "\<not> waiting_stage (ro_stage r)"
  shows "entry_of (ro_b r) \<notin> set (z_queue d (z_inner s))"
proof
  assume "entry_of (ro_b r) \<in> set (z_queue d (z_inner s))"
  then have "entry_of (ro_b r) \<in> queued d (z_role s)" using z_okD(3) [OF ok] by (simp add: queues_ok_def)
  then obtain l u where "z_role s l = Some u" "waiting_stage (ro_stage u)" "entry_of (ro_b r) = entry_of (ro_b u)"
    by (rule queuedE)
  moreover from this have "l = j" using roles_cx [OF z_okD(1) [OF ok] _ j] by (simp add: entry_of_def)
  ultimately show False using j st by simp
qed

text \<open>The usual case: neither the queues nor the contexts change.\<close>

lemma packet_change_ok:
  assumes ok: "z_ok s" and j: "z_role s j = Some r"
    and s': "s' = z_set_stage j st (z_put (zb_packet (ro_b r)) (Some pk) s)"
    and new: "stage_packet (ro_x r) st pk"
      "\<And>w. stage_word (zb_local (ro_b r)) (ro_stage r) w \<Longrightarrow> stage_word (zb_local (ro_b r)) st w"
    and st: "\<not> waiting_stage st" "\<not> waiting_stage (ro_stage r)"
  shows "z_ok s'"
proof (rule stage_change_ok [OF ok j, where st = st])
  have "role_ok (cs_mem (z_store s)) (z_packets s) (z_locals s) j r"
    using z_okD(1) [OF ok] j by (simp add: roles_ok_def)
  with new show "role_ok (cs_mem (z_store s')) (z_packets s') (z_locals s) j (r\<lparr>ro_stage := st\<rparr>)"
    by (auto simp: role_ok_def s')
  show "set (z_queue d (z_inner s')) = set (z_queue d (z_inner s)) - {entry_of (ro_b r)}" for d
    using not_waiting_queue [OF ok j st(2)] by (simp add: s')
  show "distinct (z_queue d (z_inner s'))" for d
    using z_okD(3) [OF ok] by (simp add: s' queues_ok_def)
qed (use j st z_okD(5) [OF ok] in \<open>simp_all add: s' same_lock_def\<close>)

section \<open>Meeting\<close>

lemma queue_entry:
  assumes "z_ok s" "e \<in> set (z_queue d (z_inner s))"
  obtains j r where "z_role s j = Some r" "sending (ro_x r) = d" "waiting_stage (ro_stage r)" "e = entry_of (ro_b r)"
  using assms queuedE [of e d "z_role s"] by (metis queues_ok_def z_okD(3))

lemma queue_entries_ok: "z_ok s \<Longrightarrow> entries_ok (z_queue d (z_inner s)) (z_store s)"
  unfolding entries_ok_def
proof
  fix e assume ok: "z_ok s" and "e \<in> set (z_queue d (z_inner s))"
  then obtain j r where "z_role s j = Some r" "e = entry_of (ro_b r)" by (rule queue_entry)
  with z_okD(1) [OF ok] show "cs_mem (z_store s) (e_cx e) \<noteq> None"
    by (auto simp: roles_ok_def role_ok_def)
qed

lemma selectable_iff:
  assumes ok: "z_ok s" and i: "z_role s i = None" and j: "z_role s j = Some r" and w: "waiting_stage (ro_stage r)"
  shows "selectable i (z_store s) (entry_of (ro_b r)) \<longleftrightarrow> ro_stage r = SQueued"
proof -
  have "role_ok (cs_mem (z_store s)) (z_packets s) (z_locals s) j r"
    using z_okD(1) [OF ok] j by (simp add: roles_ok_def)
  then obtain cx where cx: "cs_mem (z_store s) (zb_cx (ro_b r)) = Some cx" "in_thread cx = j"
    "stage_word (zb_local (ro_b r)) (ro_stage r) (in_select cx)" by (rule role_okD)
  moreover have "j \<noteq> i" using i j by auto
  ultimately show ?thesis using w by (cases "ro_stage r") (auto simp: selectable_def)
qed

lemma z_set_queue_same [simp]: "z_set_queue d (z_queue d v) v = v"
  by (cases d) simp_all

lemma z_set_inner_same [simp]: "z_set_inner (z_inner s) s = s"
  by (simp add: z_set_inner_def z_inner_def guard_deref_def guard_deref_mut_def)

lemma zero_select_none:
  assumes ok: "z_ok s" and i: "z_role s i = None"
    and none: "\<forall>j r. z_role s j = Some r \<longrightarrow> sending (ro_x r) \<noteq> sending x \<longrightarrow> ro_stage r \<noteq> SQueued"
  shows "zero_select i x s = Done (None, s)"
proof -
  let ?w = "z_queue (\<not> sending x) (z_inner s)"
  have "\<forall>e \<in> set ?w. \<not> selectable i (z_store s) e"
  proof
    fix e assume "e \<in> set ?w"
    then obtain j r where "z_role s j = Some r" "sending (ro_x r) = (\<not> sending x)"
      "waiting_stage (ro_stage r)" "e = entry_of (ro_b r)" using queue_entry [OF ok] by metis
    with none selectable_iff [OF ok i] show "\<not> selectable i (z_store s) e" by auto
  qed
  from waker_try_select_none [OF queue_entries_ok [OF ok] this] show ?thesis
    by (simp add: zero_select_def)
qed

lemma zero_select_some:
  assumes ok: "z_ok s" and i: "z_role s i = None"
    and some: "z_role s l = Some u" "sending (ro_x u) \<noteq> sending x" "ro_stage u = SQueued"
  obtains j r pre post where "z_role s j = Some r" "sending (ro_x r) \<noteq> sending x" "ro_stage r = SQueued"
    "z_queue (\<not> sending x) (z_inner s) = pre @ entry_of (ro_b r) # post"
    "zero_select i x s = Done (Some (entry_of (ro_b r)),
       (z_set_inner (z_set_queue (\<not> sending x) (pre @ post) (z_inner s)) s)
         \<lparr>z_store := select_entry (entry_of (ro_b r)) (z_store s)\<rparr>)"
    "\<forall>e \<in> set pre. \<not> selectable i (z_store s) e"
proof -
  let ?w = "z_queue (\<not> sending x) (z_inner s)"
  have "entry_of (ro_b u) \<in> set ?w"
    using z_okD(3) [OF ok] queuedI [of "z_role s" l u] some by (simp add: queues_ok_def)
  moreover have "selectable i (z_store s) (entry_of (ro_b u))"
    using selectable_iff [OF ok i some(1)] some(3) by simp
  ultimately obtain e where "find (selectable i (z_store s)) ?w = Some e"
    by (metis find_None_iff option.exhaust)
  from find_split [OF this] obtain pre post where w: "?w = pre @ e # post"
    and e: "selectable i (z_store s) e" and pre: "\<forall>e' \<in> set pre. \<not> selectable i (z_store s) e'" by blast
  have "e \<in> set ?w" by (simp add: w)
  then obtain j r where r: "z_role s j = Some r" "sending (ro_x r) = (\<not> sending x)"
    "waiting_stage (ro_stage r)" "e = entry_of (ro_b r)" using queue_entry [OF ok] by metis
  have "ro_stage r = SQueued" using e r selectable_iff [OF ok i r(1,3)] by simp
  moreover have "waker_try_select i ?w (z_store s) = Done (Some e, pre @ post, select_entry e (z_store s))"
    using waker_try_select_some [OF _ e pre] queue_entries_ok [OF ok, of "\<not> sending x"] w by simp
  ultimately show thesis using that [of j r pre post] r w pre by (simp add: zero_select_def)
qed


lemma select_entry_ok:
  assumes "store_ok st" "cs_mem st (e_cx e) = Some cx"
  shows "store_ok (select_entry e st)"
    "cs_mem (select_entry e st) = (cs_mem st)(e_cx e \<mapsto>
       ctx_store_packet (e_packet e) (cx\<lparr>in_select := selected_into (Operation (e_oper e))\<rparr>))"
proof -
  show "cs_mem (select_entry e st) = (cs_mem st)(e_cx e \<mapsto>
       ctx_store_packet (e_packet e) (cx\<lparr>in_select := selected_into (Operation (e_oper e))\<rparr>))"
    using assms(2) by (simp add: select_entry_def)
  have "\<exists>cx'. cs_mem (select_entry e st) c = Some cx' \<and> in_thread cx' = t" if "cs_cell st t = TlsLive (Some c)" for t c
    using store_okD [OF assms(1) that] assms(2) by (auto simp: select_entry_def)
  moreover have "e_cx e < cs_next st" using store_ok_less [OF assms] .
  ultimately show "store_ok (select_entry e st)"
    using assms by (auto simp: store_ok_def select_entry_def)
qed

lemma pair_good:
  assumes ok: "z_ok s" and at: "z_at s i (ZCrit (Xfer x) k)" and j: "z_role s j = Some r"
    and side: "sending (ro_x r) \<noteq> sending x" and st: "ro_stage r = SQueued"
    and w: "z_queue (\<not> sending x) (z_inner s) = pre @ entry_of (ro_b r) # post"
    and s1: "s1 = (z_set_inner (z_set_queue (\<not> sending x) (pre @ post) (z_inner s)) s)
         \<lparr>z_store := select_entry (entry_of (ro_b r)) (z_store s)\<rparr>"
  shows "z_owner (entry_of (ro_b r)) s1 = j"
    "z_good s i (z_set_stage j (SPaired i x) s1) (ZPaired x k (zb_packet (ro_b r)) j)"
proof -
  let ?e = "entry_of (ro_b r)" and ?s' = "z_set_stage j (SPaired i x) s1"
  have i: "z_role s i = None" and ij: "j \<noteq> i" using at j by (auto simp: z_at_def role_at_def)
  have o: "role_ok (cs_mem (z_store s)) (z_packets s) (z_locals s) j r"
    using z_okD(1) [OF ok] j by (simp add: roles_ok_def)
  then obtain cx pk where cx: "cs_mem (z_store s) (zb_cx (ro_b r)) = Some cx" "in_thread cx = j"
    and pk: "z_packets s (zb_packet (ro_b r)) = Some pk" "pk = x_packet (ro_x r)"
    using st by (auto elim: role_okD)
  have cxe: "cs_mem (z_store s) (e_cx ?e) = Some cx" using cx by simp
  note sel = select_entry_ok [OF z_okD(5) [OF ok] cxe]
  show own: "z_owner ?e s1 = j" using sel(2) cx by (simp add: z_owner_def s1)
  have role: "z_role ?s' = (z_role s)(j \<mapsto> r\<lparr>ro_stage := SPaired i x\<rparr>)"
    using j by (simp add: s1)
  have q: "z_queue d (z_inner s1) = (if d = sending x then z_queue d (z_inner s) else pre @ post)" for d
    using z_set_queue_simps(1,2) [of "\<not> sending x" "pre @ post" "z_inner s"]
    by (cases d; cases "sending x") (auto simp: s1)
  have dist: "distinct (z_queue d (z_inner s))" for d
    using z_okD(3) [OF ok] by (simp add: queues_ok_def)
  have "?e \<notin> set (z_queue (sending x) (z_inner s))"
  proof
    assume "?e \<in> set (z_queue (sending x) (z_inner s))"
    then obtain l u where "z_role s l = Some u" "sending (ro_x u) = sending x" "?e = entry_of (ro_b u)"
      using queue_entry [OF ok] by metis
    moreover from this have "l = j" using roles_cx [OF z_okD(1) [OF ok] _ j] by (simp add: entry_of_def)
    ultimately show False using j side by simp
  qed
  then have sets: "set (z_queue d (z_inner ?s')) = set (z_queue d (z_inner s)) - {?e}" for d
    using dist [of "\<not> sending x"] w q [of d] by (cases "d = sending x") auto
  have "z_ok ?s'"
  proof (rule stage_change_ok [OF ok j role])
    show "role_ok (cs_mem (z_store ?s')) (z_packets ?s') (z_locals s) j (r\<lparr>ro_stage := SPaired i x\<rparr>)"
      using o sel(2) cx pk side by (auto simp: s1 role_ok_def)
    show "distinct (z_queue d (z_inner ?s'))" for d
      using dist [of d] dist [of "\<not> sending x"] w q [of d] by (cases "d = sending x") auto
  qed (use sets sel in \<open>simp_all add: s1 same_lock_def\<close>)
  moreover have "z_guar i s ?s'"
    by (rule stage_change_guar [OF j role]) (use st ij in \<open>auto simp: s1 intro: adv_pair\<close>)
  moreover have "z_at ?s' i (ZPaired x k (zb_packet (ro_b r)) j)"
  proof -
    have "sole_partner (z_role ?s') i (ZPaired x k (zb_packet (ro_b r)) j)"
      using at role by (auto simp: z_at_defs)
    moreover have "zb_packet (ro_b r) \<noteq> 0" using o by (simp add: role_ok_def)
    ultimately show ?thesis
      using at role ij i by (simp add: z_at_def role_at_def partner_at_def fits_op_def s1)
  qed
  ultimately show "z_good s i ?s' (ZPaired x k (zb_packet (ro_b r)) j)" by (simp add: z_good_def)
qed

section \<open>Blocking\<close>

lemma fresh_local_hook:
  assumes "fresh_local a s"
  shows "hook a = Done (Operation_Id a)" "2 < a"
proof -
  have "unat a \<noteq> 0" "unat a mod 8 = 0" using assms by (simp_all add: fresh_local_def unat_eq_0)
  then have "8 \<le> unat a" by presburger
  then show "2 < a" by (simp add: word_less_nat_alt)
  then show "hook a = Done (Operation_Id a)" by (simp add: hook_def)
qed

lemma queued_new:
  assumes "roles i = None"
  shows "queued d (roles(i \<mapsto> \<lparr>ro_x = x, ro_b = b, ro_stage = SQueued\<rparr>))
    = (if d = sending x then insert (entry_of b) (queued d roles) else queued d roles)"
proof (rule set_eqI)
  fix e
  let ?r = "\<lparr>ro_x = x, ro_b = b, ro_stage = SQueued\<rparr>"
  have "e \<in> queued d (roles(i \<mapsto> ?r)) \<longleftrightarrow> (e = entry_of b \<and> sending x = d) \<or> e \<in> queued d roles"
  proof
    assume "e \<in> queued d (roles(i \<mapsto> ?r))"
    then obtain l u where "(roles(i \<mapsto> ?r)) l = Some u" "sending (ro_x u) = d"
      "waiting_stage (ro_stage u)" "e = entry_of (ro_b u)" by (rule queuedE)
    then show "(e = entry_of b \<and> sending x = d) \<or> e \<in> queued d roles"
      by (cases "l = i") (auto intro: queuedI)
  next
    assume "(e = entry_of b \<and> sending x = d) \<or> e \<in> queued d roles"
    then show "e \<in> queued d (roles(i \<mapsto> ?r))"
    proof
      assume "e = entry_of b \<and> sending x = d"
      then show ?thesis using queuedI [of "roles(i \<mapsto> ?r)" i ?r d] by simp
    next
      assume "e \<in> queued d roles"
      then obtain l u where u: "roles l = Some u" "sending (ro_x u) = d"
        "waiting_stage (ro_stage u)" "e = entry_of (ro_b u)" by (rule queuedE)
      with assms have "l \<noteq> i" by auto
      with u show ?thesis using queuedI [of "roles(i \<mapsto> ?r)" l u d] by simp
    qed
  qed
  then show "e \<in> queued d (roles(i \<mapsto> ?r)) \<longleftrightarrow> e \<in> (if d = sending x then insert (entry_of b) (queued d roles) else queued d roles)"
    by auto
qed

lemma block_good:
  assumes ok: "z_ok s" and at: "z_at s i (ZCrit (Xfer x) k)" and blocks: "\<not> x_try x"
    and open_chan: "\<not> zi_disconnected (z_inner s)"
    and st: "zero_block i a p x k s = Done (s', pc')"
  shows "z_good s i s' pc'"
    "\<exists>b. pc' = ZBlocked x k b \<and> z_role s' = (z_role s)(i \<mapsto> \<lparr>ro_x = x, ro_b = b, ro_stage = SQueued\<rparr>)
       \<and> z_inner s' = z_set_queue (sending x) (z_queue (sending x) (z_inner s) @ [entry_of b]) (z_inner s)
       \<and> z_packets s' = (z_packets s)(zb_packet b \<mapsto> x_packet x)"
proof -
  have fresh: "fresh_local a s" "fresh_packet p s" using st by (auto simp: zero_block_def split: if_splits)
  obtain c cached sto where en: "ctx_enter i (z_store s) = (c, cached, sto)" by (metis prod_cases3)
  note ctx = ctx_enter_ok [OF z_okD(5) [OF ok] en]
  define b where "b = \<lparr>zb_oper = Operation_Id a, zb_packet = p, zb_local = a, zb_cx = c, zb_cached = cached\<rparr>"
  let ?r = "\<lparr>ro_x = x, ro_b = b, ro_stage = SQueued\<rparr>"
  have i: "z_role s i = None" using at by (simp add: z_at_def role_at_def)
  have res: "pc' = ZBlocked x k b"
    "z_inner s' = z_set_queue (sending x) (z_queue (sending x) (z_inner s) @ [entry_of b]) (z_inner s)"
    "z_store s' = sto" "z_packets s' = (z_packets s)(p \<mapsto> x_packet x)" "z_locals s' = a # z_locals s"
    "z_role s' = (z_role s)(i \<mapsto> ?r)" "z_holder s' = z_holder s"
    "sl_flag (zc_inner (z_chan s')) = sl_flag (zc_inner (z_chan s))"
    using st fresh en
    by (auto simp: zero_block_def fresh_local_hook Let_def b_def register_with_packet_def entry_of_def
        split: if_splits)
  then show "\<exists>b. pc' = ZBlocked x k b \<and> z_role s' = (z_role s)(i \<mapsto> \<lparr>ro_x = x, ro_b = b, ro_stage = SQueued\<rparr>)
       \<and> z_inner s' = z_set_queue (sending x) (z_queue (sending x) (z_inner s) @ [entry_of b]) (z_inner s)
       \<and> z_packets s' = (z_packets s)(zb_packet b \<mapsto> x_packet x)"
    by (auto simp: b_def)
  note D = z_okD [OF ok]
  have old: "role_ok (cs_mem (z_store s)) (z_packets s) (z_locals s) l u \<and> l \<noteq> i
      \<and> zb_packet (ro_b u) \<noteq> p \<and> zb_local (ro_b u) \<noteq> a \<and> zb_cx (ro_b u) \<noteq> c"
    if "z_role s l = Some u" for l u
  proof -
    have o: "role_ok (cs_mem (z_store s)) (z_packets s) (z_locals s) l u"
      using D(1) that by (simp add: roles_ok_def)
    moreover have "l \<noteq> i" using that i by auto
    ultimately show ?thesis using fresh ctx by (auto simp: role_ok_def fresh_local_def fresh_packet_def)
  qed
  have roles: "roles_ok s'"
    unfolding roles_ok_def
  proof (intro allI impI)
    fix l u assume u: "z_role s' l = Some u"
    show "role_ok (cs_mem (z_store s')) (z_packets s') (z_locals s') l u"
    proof (cases "l = i")
      case True
      with u have "u = ?r" by (simp add: res)
      with True blocks ctx fresh(2) fresh_local_hook [OF fresh(1)] show ?thesis
        by (simp add: role_ok_def res b_def fresh_packet_def)
    next
      case False
      with u have "z_role s l = Some u" by (simp add: res)
      note o = old [OF this]
      show ?thesis
        by (rule role_ok_frame [OF conjunct1 [OF o]]) (use o ctx in \<open>auto simp: res role_ok_def\<close>)
    qed
  qed
  have apart: "roles_apart s'"
    unfolding roles_apart_def
  proof (intro allI impI)
    fix l n u v assume "z_role s' l = Some u" "z_role s' n = Some v" "l \<noteq> n"
    then show "zb_packet (ro_b u) \<noteq> zb_packet (ro_b v) \<and> zb_local (ro_b u) \<noteq> zb_local (ro_b v)"
      using D(2) old [of l u] old [of n v] unfolding roles_apart_def
      by (cases "l = i"; cases "n = i") (auto simp: res b_def)
  qed
  have new_entry: "entry_of b \<notin> queued d (z_role s)" for d
  proof
    assume "entry_of b \<in> queued d (z_role s)"
    then obtain l u where "z_role s l = Some u" "entry_of b = entry_of (ro_b u)" by (rule queuedE)
    with old [of l u] show False by (auto simp: entry_of_def b_def)
  qed
  have queues: "queues_ok s'"
    unfolding queues_ok_def
  proof
    fix d
    have old_q: "distinct (z_queue d (z_inner s)) \<and> set (z_queue d (z_inner s)) = queued d (z_role s)"
      using D(3) by (simp add: queues_ok_def)
    show "distinct (z_queue d (z_inner s')) \<and> set (z_queue d (z_inner s')) = queued d (z_role s')"
      using old_q new_entry [of d] queued_new [of "z_role s" i d x b, OF i] z_set_queue_simps(1,2) [of "sending x"]
      by (cases "d = sending x") (auto simp: res)
  qed
  have "told_all s'" using open_chan by (simp add: told_all_def res)
  with roles apart queues D(6) ctx have "z_ok s'" by (simp add: z_ok_def res)
  moreover have "z_at s' i pc'"
    using at by (auto simp: z_at_defs res fits_op_def)
  moreover have "z_guar i s s'"
    using i by (auto simp: z_guar_def res)
  ultimately show "z_good s i s' pc'" by (simp add: z_good_def)
qed


section \<open>Shutting down\<close>

definition tell :: "'m role \<Rightarrow> 'm role" where
  "tell r = (if ro_stage r = SQueued then r\<lparr>ro_stage := SDisc\<rparr> else r)"

lemma tell_simps [simp]:
  "ro_x (tell r) = ro_x r" "ro_b (tell r) = ro_b r" "waiting_stage (ro_stage (tell r)) = waiting_stage (ro_stage r)"
  "ro_stage (tell r) \<noteq> SQueued"
  by (simp_all add: tell_def)

lemma queued_tell: "queued d (\<lambda>j. map_option tell (roles j)) = queued d roles"
proof (rule set_eqI)
  fix e
  show "e \<in> queued d (\<lambda>j. map_option tell (roles j)) \<longleftrightarrow> e \<in> queued d roles"
  proof
    assume "e \<in> queued d roles"
    then obtain j r where "roles j = Some r" "sending (ro_x r) = d" "waiting_stage (ro_stage r)" "e = entry_of (ro_b r)"
      by (rule queuedE)
    then show "e \<in> queued d (\<lambda>j. map_option tell (roles j))"
      using queuedI [of "\<lambda>j. map_option tell (roles j)" j "tell r" d] by simp
  next
    assume "e \<in> queued d (\<lambda>j. map_option tell (roles j))"
    then show "e \<in> queued d roles" by (auto elim!: queuedE intro: queuedI)
  qed
qed

lemma disconnect_store_ok:
  assumes "store_ok st" "entries_ok w st"
  obtains st' where "waker_disconnect w st = Done st'" "store_ok st'"
    "\<And>c. cs_mem st' c = (if c \<in> e_cx ` set w then map_option disconnect_ctx (cs_mem st c) else cs_mem st c)"
proof -
  obtain st' where st': "waker_disconnect w st = Done st'" "cs_next st' = cs_next st" "cs_cell st' = cs_cell st"
    "\<forall>c. cs_mem st' c = (if c \<in> e_cx ` set w then map_option disconnect_ctx (cs_mem st c) else cs_mem st c)"
    using waker_disconnect_spec [OF assms(2)] by blast
  then have "store_ok st'"
    using assms(1) by (fastforce simp: store_ok_def)
  with st' that show thesis by blast
qed

lemma shutdown_shape:
  assumes ok: "z_ok s" and open_chan: "\<not> zi_disconnected (z_inner s)"
  obtains s' where "zero_shutdown k s = Done (s', ZLeave k (ShutdownSaid True))"
    "z_role s' = (\<lambda>j. map_option tell (z_role s j))" "z_packets s' = z_packets s" "z_locals s' = z_locals s"
    "z_inner s' = (z_inner s)\<lparr>zi_disconnected := True\<rparr>" "same_lock s s'" "store_ok (z_store s')"
    "\<forall>c. cs_mem (z_store s') c =
       (if \<exists>d. c \<in> e_cx ` set (z_queue d (z_inner s)) then map_option disconnect_ctx (cs_mem (z_store s) c)
        else cs_mem (z_store s) c)"
proof -
  let ?v = "z_inner s"
  have e: "entries_ok (zi_senders ?v) (z_store s)" "entries_ok (zi_receivers ?v) (z_store s)"
    using queue_entries_ok [OF ok, of True] queue_entries_ok [OF ok, of False] by simp_all
  obtain st1 where st1: "waker_disconnect (zi_senders ?v) (z_store s) = Done st1" "store_ok st1"
    "\<And>c. cs_mem st1 c = (if c \<in> e_cx ` set (zi_senders ?v) then map_option disconnect_ctx (cs_mem (z_store s) c)
       else cs_mem (z_store s) c)"
    using disconnect_store_ok [OF z_okD(5) [OF ok] e(1)] by metis
  have "entries_ok (zi_receivers ?v) st1" using e(2) st1(3) by (auto simp: entries_ok_def)
  from disconnect_store_ok [OF st1(2) this] obtain st2 where
    st2: "waker_disconnect (zi_receivers ?v) st1 = Done st2" "store_ok st2"
    "\<And>c. cs_mem st2 c = (if c \<in> e_cx ` set (zi_receivers ?v) then map_option disconnect_ctx (cs_mem st1 c)
       else cs_mem st1 c)" by metis
  have ex: "(\<exists>d. c \<in> e_cx ` set (z_queue d ?v)) \<longleftrightarrow> c \<in> e_cx ` set (zi_senders ?v) \<or> c \<in> e_cx ` set (zi_receivers ?v)" for c
    by (metis (full_types) z_queue.simps)
  have mem: "cs_mem st2 c = (if \<exists>d. c \<in> e_cx ` set (z_queue d ?v) then map_option disconnect_ctx (cs_mem (z_store s) c)
        else cs_mem (z_store s) c)" for c
    unfolding ex st2(3) st1(3) by (simp add: option.map_comp comp_def)
  show thesis
    by (rule that [of "(z_set_inner (?v\<lparr>zi_disconnected := True\<rparr>) s)
        \<lparr>z_store := st2, z_role := (\<lambda>j. map_option tell (z_role s j))\<rparr>"])
      (use st1(1) st2(1,2) mem open_chan in \<open>simp_all add: zero_shutdown_def Let_def tell_def [abs_def] same_lock_def\<close>)
qed

lemma shutdown_good:
  assumes ok: "z_ok s" and at: "z_at s i (ZCrit OpShutdown k)" and open_chan: "\<not> zi_disconnected (z_inner s)"
  obtains s' where "zero_shutdown k s = Done (s', ZLeave k (ShutdownSaid True))"
    "z_good s i s' (ZLeave k (ShutdownSaid True))"
    "z_role s' = (\<lambda>j. map_option tell (z_role s j))" "z_packets s' = z_packets s"
    "zi_disconnected (z_inner s')"
proof -
  obtain s' where s': "zero_shutdown k s = Done (s', ZLeave k (ShutdownSaid True))"
    "z_role s' = (\<lambda>j. map_option tell (z_role s j))" "z_packets s' = z_packets s" "z_locals s' = z_locals s"
    "z_inner s' = (z_inner s)\<lparr>zi_disconnected := True\<rparr>" "same_lock s s'" "store_ok (z_store s')"
    "\<forall>c. cs_mem (z_store s') c =
       (if \<exists>d. c \<in> e_cx ` set (z_queue d (z_inner s)) then map_option disconnect_ctx (cs_mem (z_store s) c)
        else cs_mem (z_store s) c)"
    using shutdown_shape [OF ok open_chan, of k] .
  note D = z_okD [OF ok]
  have q: "z_queue d (z_inner s') = z_queue d (z_inner s)" for d by (cases d) (simp_all add: s'(5))
  have "roles_ok s'"
    unfolding roles_ok_def
  proof (intro allI impI)
    fix l u assume "z_role s' l = Some u"
    then obtain r where r: "z_role s l = Some r" "u = tell r" by (auto simp: s'(2))
    have o: "role_ok (cs_mem (z_store s)) (z_packets s) (z_locals s) l r"
      using D(1) r(1) by (simp add: roles_ok_def)
    then obtain cx pk where cx: "cs_mem (z_store s) (zb_cx (ro_b r)) = Some cx" "in_thread cx = l"
      "stage_word (zb_local (ro_b r)) (ro_stage r) (in_select cx)"
      "z_packets s (zb_packet (ro_b r)) = Some pk" "stage_packet (ro_x r) (ro_stage r) pk" by (rule role_okD)
    have member: "\<exists>d. zb_cx (ro_b r) \<in> e_cx ` set (z_queue d (z_inner s))" if "ro_stage r = SQueued"
    proof -
      have "entry_of (ro_b r) \<in> set (z_queue (sending (ro_x r)) (z_inner s))"
        using D(3) queuedI [of "z_role s" l r "sending (ro_x r)"] r(1) that by (simp add: queues_ok_def)
      then show ?thesis by (metis entry_of_simps(3) imageI)
    qed
    have keep: "ro_stage r \<noteq> SQueued \<Longrightarrow> in_select cx \<noteq> 0 \<or> cs_mem (z_store s') (zb_cx (ro_b r)) = Some cx"
    proof -
      assume nq: "ro_stage r \<noteq> SQueued"
      show ?thesis
      proof (cases "\<exists>d. zb_cx (ro_b r) \<in> e_cx ` set (z_queue d (z_inner s))")
        case True
        then obtain d e where e: "e \<in> set (z_queue d (z_inner s))" "zb_cx (ro_b r) = e_cx e" by blast
        from queue_entry [OF ok e(1)] obtain n v where v: "z_role s n = Some v" "waiting_stage (ro_stage v)"
          "e = entry_of (ro_b v)" .
        with e(2) have "n = l" using roles_cx [OF D(1) v(1) r(1)] by simp
        then have "v = r" using v(1) r(1) by simp
        with v(2) nq cx(3) show ?thesis by (cases "ro_stage r") auto
      next
        case False
        with s'(8) cx(1) show ?thesis by simp
      qed
    qed
    have "cs_mem (z_store s') (zb_cx (ro_b r)) = Some (if ro_stage r = SQueued then disconnect_ctx cx else cx)"
    proof (cases "ro_stage r = SQueued")
      case True
      with spec [OF s'(8), of "zb_cx (ro_b r)"] cx(1) member show ?thesis by simp
    next
      case False
      with keep consider "in_select cx \<noteq> 0" | "cs_mem (z_store s') (zb_cx (ro_b r)) = Some cx" by blast
      then show ?thesis
      proof cases
        case 1
        with spec [OF s'(8), of "zb_cx (ro_b r)"] cx(1) False show ?thesis by (simp add: disconnect_ctx_def)
      qed (simp add: False)
    qed
    with o cx show "role_ok (cs_mem (z_store s')) (z_packets s') (z_locals s') l u"
      by (auto simp: role_ok_def r(2) s'(3,4) tell_def disconnect_ctx_def)
  qed
  moreover have "roles_apart s'"
    using D(2) by (fastforce simp: roles_apart_def s'(2))
  moreover have "queues_ok s'"
    using D(3) by (simp add: queues_ok_def q s'(2) queued_tell)
  moreover have "told_all s'" by (auto simp: told_all_def s'(2))
  ultimately have "z_ok s'" using s'(6,7) D(6) by (simp add: z_ok_def same_lock_def)
  moreover have "z_at s' i (ZLeave k (ShutdownSaid True))"
    using at s'(2,6) by (auto simp: z_at_defs same_lock_def fits_op_def tell_def split: if_splits)
  moreover have "z_guar i s s'"
    unfolding z_guar_def
  proof (intro allI impI conjI)
    fix l
    show "role_advance i (z_role s l) (z_role s' l)"
    proof (cases "z_role s l")
      case (Some r)
      have "tell r = r\<lparr>ro_stage := ro_stage (tell r)\<rparr>" by (simp add: tell_def)
      moreover have "advance i (ro_stage r) (ro_stage (tell r))"
        by (auto simp: tell_def intro: adv_tell adv_same)
      ultimately have "\<exists>st. tell r = r\<lparr>ro_stage := st\<rparr> \<and> advance i (ro_stage r) st" by blast
      with Some show ?thesis by (simp add: role_advance_def s'(2))
    qed (simp add: s'(2))
    show "z_role s' n = Some u \<longleftrightarrow> z_role s n = Some u" if "names l (ro_stage u)" for n u
    proof -
      have "tell r = u \<longleftrightarrow> r = u" for r
        using that by (cases "ro_stage r = SQueued") (auto simp: tell_def)
      then show ?thesis by (simp add: s'(2))
    qed
  qed (use s'(6) in \<open>simp_all add: same_lock_def\<close>)
  ultimately show thesis using that s' by (simp add: z_good_def)
qed


section \<open>The packet\<close>

lemma partnerD:
  assumes ok: "z_ok s" and at: "z_at s i pc" and p: "partner_of i pc = Some (p, j, x, st)"
  obtains r pk where "z_role s j = Some r" "j \<noteq> i" "zb_packet (ro_b r) = p" "ro_stage r = st"
    "z_packets s p = Some pk" "stage_packet (ro_x r) st pk"
proof -
  obtain r where r: "z_role s j = Some r" "zb_packet (ro_b r) = p" "ro_stage r = st"
    using at p by (auto simp: z_at_def partner_at_def)
  have "role_ok (cs_mem (z_store s)) (z_packets s) (z_locals s) j r"
    using z_okD(1) [OF ok] r(1) by (simp add: roles_ok_def)
  then obtain pk where pk: "z_packets s p = Some pk" "stage_packet (ro_x r) st pk"
    using r by (auto elim: role_okD)
  have "z_role s i = None" using at p by (cases pc) (auto simp: z_at_def role_at_def)
  with r(1) have "j \<noteq> i" by auto
  with that r pk show thesis by blast
qed

text \<open>A partner's step on the packet of the call it works on.\<close>

lemma partner_step_good:
  assumes ok: "z_ok s" and at: "z_at s i pc" and p: "partner_of i pc = Some (p, j, x, st)"
    and r: "z_role s j = Some r" and s': "s' = z_set_stage j st' (z_put p (Some pk) s)"
    and new: "stage_packet (ro_x r) st' pk" and adv: "advance i st st'"
    and st': "is_selected st'" "\<And>l. l \<noteq> i \<Longrightarrow> \<not> names l st'" "\<And>a w. stage_word a st w \<Longrightarrow> stage_word a st' w"
    and at': "typed pc'" "blocked_of pc' = None" "holds pc' = holds pc"
      "names i st' \<Longrightarrow> partner_of i pc' = Some (p, j, x, st')" "\<not> names i st' \<Longrightarrow> partner_of i pc' = None"
  shows "z_good s i s' pc'"
proof -
  obtain pk0 where j: "j \<noteq> i" "zb_packet (ro_b r) = p" "ro_stage r = st"
    using partnerD [OF ok at p] r by (metis option.inject)
  have nm: "names i st" using partner_of_names [OF p] .
  have nw: "\<not> waiting_stage st'" using st'(1) by (cases st') simp_all
  have nw': "\<not> waiting_stage (ro_stage r)" using nm j(3) by (cases st) simp_all
  have "z_ok s'"
    using packet_change_ok [OF ok r, of s' st' pk] s' new st'(3) nw nw' j by simp
  moreover have "z_guar i s s'"
  proof (rule stage_change_guar [OF r, of _ st'])
    show "\<not> names l (ro_stage r) \<and> \<not> names l st'" if "l \<noteq> i" for l
      using that st'(2) nm names_unique [of l st i] j(3) by blast
  qed (simp_all add: s' r j(3) adv)
  moreover have "z_at s' i pc'"
  proof -
    have "role_at pc' (z_role s' i)"
      using at at'(2) nm p j(1) r by (cases pc) (auto simp: z_at_def role_at_def s')
    moreover have "partner_at (z_role s') i pc'"
      using at'(4,5) r j(2) by (cases "names i st'") (simp_all add: partner_at_def s')
    moreover have "sole_partner (z_role s') i pc'"
      using at p at'(4,5) r by (auto simp: z_at_def sole_partner_def s' split: if_splits)
    ultimately show ?thesis using at at'(1,3) by (simp add: z_at_def s')
  qed
  ultimately show ?thesis by (simp add: z_good_def)
qed

lemma x_packet_simps [simp]:
  "pk_on_stack (x_packet x)" "\<not> pk_ready (x_packet x)" "pk_msg (x_packet x) = x_msg x"
  by (auto simp: x_packet_def message_on_stack_def empty_on_stack_def split: option.splits)

lemma fits_sent: "fits_call k x \<Longrightarrow> x_msg x \<noteq> None \<Longrightarrow> fits_answer k (x_sent x)"
  by (cases k; cases x) auto

lemma fits_got: "fits_call k x \<Longrightarrow> x_msg x = None \<Longrightarrow> fits_answer k (x_got x m)"
  by (cases k; cases x) auto

lemma fits_closed: "fits_call k x \<Longrightarrow> fits_answer k (x_closed x)"
  by (cases k; cases x) auto

lemma fits_would_block: "fits_call k x \<Longrightarrow> fits_answer k (x_would_block x)"
  by (cases k; cases x) auto

lemma move_good:
  assumes ok: "z_ok s" and at: "z_at s i (ZMove x k p j)"
  obtains s' r y where "z_role s j = Some y" "r = (case x_msg x of Some m \<Rightarrow> x_sent x | None \<Rightarrow> x_got x (the (x_msg (ro_x y))))"
    "x_msg x \<noteq> None \<or> x_msg (ro_x y) \<noteq> None"
    "zero_move i x k p j s = Done (s', ZMark x k p j r)" "z_good s i s' (ZMark x k p j r)"
    "\<exists>pk. s' = z_set_stage j (SMoved i x) (z_put p (Some pk) s)"
proof -
  have p: "partner_of i (ZMove x k p j) = Some (p, j, x, SPaired i x)" by simp
  obtain y pk where y: "z_role s j = Some y" "zb_packet (ro_b y) = p" "z_packets s p = Some pk"
    "pk = x_packet (ro_x y)" "sending x \<noteq> sending (ro_x y)"
    using partnerD [OF ok at p] by (metis stage_packet.simps(4))
  have tc: "fits_call k x" using at by (simp add: z_at_def)
  let ?m = "case x_msg x of Some m \<Rightarrow> Some m | None \<Rightarrow> None"
  let ?pk = "pk\<lparr>pk_msg := ?m\<rparr>"
  let ?r = "case x_msg x of Some m \<Rightarrow> x_sent x | None \<Rightarrow> x_got x (the (x_msg (ro_x y)))"
  let ?s' = "z_set_stage j (SMoved i x) (z_put p (Some ?pk) s)"
  have other: "x_msg x \<noteq> None \<or> x_msg (ro_x y) \<noteq> None" using y(5) by (auto simp: sending_def)
  have run: "zero_move i x k p j s = Done (?s', ZMark x k p j ?r)"
    using y(3,4) other by (cases "x_msg x") (auto simp: zero_move_def z_deref_def)
  have good: "z_good s i ?s' (ZMark x k p j ?r)"
  proof (rule partner_step_good [OF ok at p y(1) refl])
    show "stage_packet (ro_x y) (SMoved i x) ?pk"
      using y(4,5) by (cases "x_msg x") (auto simp: handed_def sending_def x_packet_def empty_on_stack_def message_on_stack_def split: option.splits)
    show "typed (ZMark x k p j ?r)"
      using tc fits_sent [of k x] fits_got [of k x] by (auto split: option.splits)
  qed (auto intro: adv_move)
  show thesis by (rule that [OF y(1) refl other run good]) blast+
qed

lemma mark_good:
  assumes ok: "z_ok s" and at: "z_at s i (ZMark x k p j r)"
  obtains s' where "zero_mark x k p j r s = Done (s', ZFin k r)" "z_good s i s' (ZFin k r)"
    "\<exists>pk. s' = z_set_stage j (SOver x) (z_put p (Some pk) s)"
proof -
  have p: "partner_of i (ZMark x k p j r) = Some (p, j, x, SMoved i x)" by simp
  obtain y pk where y: "z_role s j = Some y" "zb_packet (ro_b y) = p" "z_packets s p = Some pk"
    "stage_packet (ro_x y) (SMoved i x) pk"
    using partnerD [OF ok at p] by metis
  let ?s' = "z_set_stage j (SOver x) (z_put p (Some (pk\<lparr>pk_ready := True\<rparr>)) s)"
  have "z_good s i ?s' (ZFin k r)"
    by (rule partner_step_good [OF ok at p y(1) refl])
      (use y(4) at in \<open>auto simp: z_at_def intro: adv_mark\<close>)
  moreover have "zero_mark x k p j r s = Done (?s', ZFin k r)"
    using y(3) by (simp add: zero_mark_def z_deref_def)
  ultimately show thesis using that by blast
qed


section \<open>A blocked call\<close>

lemma blockedD:
  assumes ok: "z_ok s" and at: "z_at s i pc" and b: "blocked_of pc = Some (x, b)"
  obtains st cx pk where "z_role s i = Some \<lparr>ro_x = x, ro_b = b, ro_stage = st\<rparr>" "stage_at pc st"
    "cs_mem (z_store s) (zb_cx b) = Some cx" "in_thread cx = i" "stage_word (zb_local b) st (in_select cx)"
    "2 < zb_local b" "zb_oper b = Operation_Id (zb_local b)"
    "z_packets s (zb_packet b) = Some pk" "stage_packet x st pk" "\<not> x_try x"
proof -
  obtain st where st: "z_role s i = Some \<lparr>ro_x = x, ro_b = b, ro_stage = st\<rparr>" "stage_at pc st"
    using at b by (auto simp: z_at_def role_at_def)
  then have o: "role_ok (cs_mem (z_store s)) (z_packets s) (z_locals s) i \<lparr>ro_x = x, ro_b = b, ro_stage = st\<rparr>"
    using z_okD(1) [OF ok] by (simp add: roles_ok_def)
  then obtain cx pk where "cs_mem (z_store s) (zb_cx b) = Some cx" "in_thread cx = i"
    "stage_word (zb_local b) st (in_select cx)" "z_packets s (zb_packet b) = Some pk" "stage_packet x st pk"
    by (auto elim: role_okD)
  moreover have "2 < zb_local b" "zb_oper b = Operation_Id (zb_local b)" "\<not> x_try x"
    using o by (simp_all add: role_ok_def)
  ultimately show thesis using that st by blast
qed

definition good_out ::
    "('q, 't, 'm) zsys \<Rightarrow> nat \<Rightarrow> (('q, 't, 'm) zsys \<times> ('m, 't) zpc) outcome \<Rightarrow> bool" where
  "good_out s i out \<longleftrightarrow> (case out of Done (s', pc') \<Rightarrow> z_good s i s' pc' | Spin \<Rightarrow> True | _ \<Rightarrow> False)"

lemma good_out_simps [simp]:
  "good_out s i (Done (s', pc')) = z_good s i s' pc'" "good_out s i Spin" "\<not> good_out s i Panic"
  "\<not> good_out s i Fault"
  by (simp_all add: good_out_def)

text \<open>The thread moves on and nothing else changes.\<close>

lemma stay_good: "z_ok s \<Longrightarrow> z_at s i pc' \<Longrightarrow> z_good s i s pc'"
  by (rule calm_good) simp_all

lemma zero_wait_cases:
  assumes ok: "z_ok s" and at: "z_at s i (ZWait x k b)"
    and role: "z_role s i = Some \<lparr>ro_x = x, ro_b = b, ro_stage = st\<rparr>"
  shows "zero_wait x k b s =
    (if st = SQueued then Spin else Done (s, if st = SDisc then ZRelock x k b else ZReady x k b))"
    "waiting_stage st \<or> is_selected st"
proof -
  obtain st' cx pk where c: "z_role s i = Some \<lparr>ro_x = x, ro_b = b, ro_stage = st'\<rparr>"
    "stage_at (ZWait x k b) st'" "cs_mem (z_store s) (zb_cx b) = Some cx"
    "stage_word (zb_local b) st' (in_select cx)" "2 < zb_local b"
    by (rule blockedD [OF ok at, of x b]) (simp, blast)
  then have st: "st' = st" using role by simp
  show "waiting_stage st \<or> is_selected st" using c(2) st by simp
  have "zb_local b \<noteq> 0 \<and> zb_local b \<noteq> 1 \<and> zb_local b \<noteq> 2" using c(5) by (simp add: word_gt_2_iff)
  with c show "zero_wait x k b s =
    (if st = SQueued then Spin else Done (s, if st = SDisc then ZRelock x k b else ZReady x k b))"
    by (cases st) (auto simp: st zero_wait_def ctx_selected_def selected_from_def)
qed

lemma wait_good:
  assumes ok: "z_ok s" and at: "z_at s i (ZWait x k b)"
  shows "good_out s i (zero_wait x k b s)"
proof -
  obtain st where role: "z_role s i = Some \<lparr>ro_x = x, ro_b = b, ro_stage = st\<rparr>"
    by (rule blockedD [OF ok at, of x b]) (simp, blast)
  note w = zero_wait_cases [OF ok at role]
  have "z_at s i (ZRelock x k b)" if "st = SDisc" using at role that by (simp add: z_at_defs)
  moreover have "z_at s i (ZReady x k b)" if "is_selected st" using at role that by (simp add: z_at_defs)
  ultimately show ?thesis using w by (cases st) (auto intro: stay_good [OF ok])
qed

lemma is_over_iff: "is_over st \<longleftrightarrow> (\<exists>y. st = SOver y)"
  by (cases st) auto

lemma zero_ready_cases:
  assumes ok: "z_ok s" and at: "z_at s i (ZReady x k b)"
    and role: "z_role s i = Some \<lparr>ro_x = x, ro_b = b, ro_stage = st\<rparr>"
  shows "zero_ready x k b s =
    (if is_over st then Done (s, if sending x then ZEnd x k b (x_sent x) else ZTakeMsg x k b) else Spin)"
proof -
  obtain st' pk where c: "z_role s i = Some \<lparr>ro_x = x, ro_b = b, ro_stage = st'\<rparr>"
    "stage_at (ZReady x k b) st'" "z_packets s (zb_packet b) = Some pk" "stage_packet x st' pk"
    by (rule blockedD [OF ok at, of x b]) (simp, blast)
  then have st: "st' = st" using role by simp
  from c show ?thesis
    by (cases st) (auto simp: st zero_ready_def z_deref_def wait_ready_def)
qed

lemma ready_good:
  assumes ok: "z_ok s" and at: "z_at s i (ZReady x k b)"
  shows "good_out s i (zero_ready x k b s)"
proof -
  obtain st where role: "z_role s i = Some \<lparr>ro_x = x, ro_b = b, ro_stage = st\<rparr>"
    by (rule blockedD [OF ok at, of x b]) (simp, blast)
  note w = zero_ready_cases [OF ok at role]
  have tc: "fits_call k x" using at by (simp add: z_at_def)
  have "z_at s i (ZEnd x k b (x_sent x))" if "is_over st" "sending x"
    using at role that tc fits_sent [of k x] by (simp add: z_at_defs sending_def)
  moreover have "z_at s i (ZTakeMsg x k b)" if "is_over st" "\<not> sending x"
    using at role that by (simp add: z_at_defs)
  ultimately show ?thesis using w by (auto intro: stay_good [OF ok])
qed

lemma own_change_at:
  assumes at: "z_at s i pc" and role: "z_role s i = Some \<lparr>ro_x = x, ro_b = b, ro_stage = st\<rparr>"
    and role': "z_role s' = (z_role s)(i \<mapsto> \<lparr>ro_x = x, ro_b = b, ro_stage = st'\<rparr>)"
    and pcs: "blocked_of pc' = Some (x, b)" "blocked_of pc = Some (x, b)" "stage_at pc' st'" "typed pc'"
      "holds pc' = holds pc" "z_holder s' = z_holder s" "\<not> names i st'" "\<not> names i st"
  shows "z_at s' i pc'"
proof -
  have "partner_of i pc' = None" using pcs(1) by (cases pc') simp_all
  moreover have "partner_of i pc = None" using pcs(2) by (cases pc) simp_all
  ultimately show ?thesis using assms by (auto simp: z_at_defs)
qed

lemma unregister_good:
  assumes ok: "z_ok s" and at: "z_at s i (ZUnreg x k b)"
  obtains s' where "zero_unregister i x k b s = Done (s', ZUnregDrop x k b)" "z_good s i s' (ZUnregDrop x k b)"
    "z_role s' = (z_role s)(i \<mapsto> \<lparr>ro_x = x, ro_b = b, ro_stage = SGone\<rparr>)" "z_packets s' = z_packets s"
    "zi_disconnected (z_inner s') = zi_disconnected (z_inner s)"
proof -
  let ?q = "z_queue (sending x) (z_inner s)" and ?r = "\<lparr>ro_x = x, ro_b = b, ro_stage = SDisc :: 'c stage\<rparr>"
  obtain st cx pk where c: "z_role s i = Some \<lparr>ro_x = x, ro_b = b, ro_stage = st\<rparr>" "stage_at (ZUnreg x k b) st"
    "cs_mem (z_store s) (zb_cx b) = Some cx" "in_thread cx = i" "stage_word (zb_local b) st (in_select cx)"
    "2 < zb_local b" "zb_oper b = Operation_Id (zb_local b)"
    "z_packets s (zb_packet b) = Some pk" "stage_packet x st pk" "\<not> x_try x"
    by (rule blockedD [OF ok at, of x b]) (simp, blast)
  then have role: "z_role s i = Some ?r" by simp
  have o: "role_ok (cs_mem (z_store s)) (z_packets s) (z_locals s) i ?r"
    using z_okD(1) [OF ok] role by (simp add: roles_ok_def)
  have mem: "entry_of b \<in> set ?q"
    using z_okD(3) [OF ok] queuedI [of "z_role s" i ?r "sending x"] role by (simp add: queues_ok_def)
  then obtain pre post where q: "?q = pre @ entry_of b # post" by (metis split_list)
  have dist: "distinct (z_queue d (z_inner s))" for d using z_okD(3) [OF ok] by (simp add: queues_ok_def)
  have "e_oper e \<noteq> zb_oper b" if "e \<in> set pre" for e
  proof
    assume same: "e_oper e = zb_oper b"
    have "e \<in> set ?q" using that q by simp
    then obtain l u where u: "z_role s l = Some u" "e = entry_of (ro_b u)" using queue_entry [OF ok] by metis
    then have "zb_oper (ro_b u) = Operation_Id (zb_local (ro_b u))"
      using z_okD(1) [OF ok] by (simp add: roles_ok_def role_ok_def)
    with same u c(7) have "zb_local (ro_b u) = zb_local b" by simp
    then have "l = i" using z_okD(2) [OF ok] u(1) role unfolding roles_apart_def by fastforce
    then have "u = ?r" using u(1) role by simp
    then have "e = entry_of b" using u(2) by simp
    with that dist [of "sending x"] q show False by simp
  qed
  then have un: "unregister (zb_oper b) ?q = (Some (entry_of b), pre @ post)"
    using unregister_some [of "entry_of b" "zb_oper b" pre post] q by simp
  define s' where "s' = z_set_stage i SGone (z_set_inner (z_set_queue (sending x) (pre @ post) (z_inner s)) s)"
  have run: "zero_unregister i x k b s = Done (s', ZUnregDrop x k b)"
    by (simp add: zero_unregister_def un s'_def)
  have role': "z_role s' = (z_role s)(i \<mapsto> ?r\<lparr>ro_stage := SGone\<rparr>)" using role by (simp add: s'_def)
  have qs: "z_queue d (z_inner s') = (if d = sending x then pre @ post else z_queue d (z_inner s))" for d
    using z_set_queue_simps(1,2) [of "sending x" "pre @ post" "z_inner s"]
    by (cases d; cases "sending x") (auto simp: s'_def)
  have "entry_of b \<notin> set (z_queue (\<not> sending x) (z_inner s))"
  proof
    assume "entry_of b \<in> set (z_queue (\<not> sending x) (z_inner s))"
    then obtain l u where u: "z_role s l = Some u" "sending (ro_x u) = (\<not> sending x)" "entry_of b = entry_of (ro_b u)"
      using queue_entry [OF ok] by metis
    then have "l = i" using roles_cx [OF z_okD(1) [OF ok] _ role] by (simp add: entry_of_def)
    then have "u = ?r" using u(1) role by simp
    then show False using u(2) by simp
  qed
  then have sets: "set (z_queue d (z_inner s')) = set (z_queue d (z_inner s)) - {entry_of b}" for d
    using dist [of "sending x"] q qs [of d] by (cases "d = sending x") auto
  have "z_ok s'"
  proof (rule stage_change_ok [OF ok role role'])
    show "role_ok (cs_mem (z_store s')) (z_packets s') (z_locals s) i (?r\<lparr>ro_stage := SGone\<rparr>)"
      using o by (simp add: role_ok_def s'_def)
    show "distinct (z_queue d (z_inner s'))" for d
      using dist [of d] dist [of "sending x"] q qs [of d] by (cases "d = sending x") auto
  qed (use sets z_okD(5) [OF ok] in \<open>simp_all add: s'_def same_lock_def\<close>)
  moreover have "z_guar i s s'"
    by (rule stage_change_guar [OF role role']) (simp_all add: s'_def)
  moreover have "z_at s' i (ZUnregDrop x k b)"
    by (rule own_change_at [OF at role, of _ SGone]) (use role' at in \<open>simp_all add: z_at_def s'_def\<close>)
  ultimately show thesis using that [OF run] role' by (simp add: z_good_def s'_def)
qed

lemma take_msg_good:
  assumes ok: "z_ok s" and at: "z_at s i (ZTakeMsg x k b)"
    and role: "z_role s i = Some \<lparr>ro_x = x, ro_b = b, ro_stage = st\<rparr>"
  obtains s' m r where "zero_take_msg i x k b s = Done (s', ZEnd x k b r)" "z_good s i s' (ZEnd x k b r)"
    "r = (if sending x then Sent (Inl (SendDisconnected m)) else x_got x m)"
    "if sending x then st = SGone \<and> x_msg x = Some m else \<exists>y. st = SOver y \<and> x_msg y = Some m"
    "\<exists>pk. s' = z_set_stage i STaken (z_put (zb_packet b) pk s)"
proof -
  let ?r = "\<lparr>ro_x = x, ro_b = b, ro_stage = st\<rparr>"
  obtain st' pk where c: "z_role s i = Some \<lparr>ro_x = x, ro_b = b, ro_stage = st'\<rparr>" "stage_at (ZTakeMsg x k b) st'"
    "z_packets s (zb_packet b) = Some pk" "stage_packet x st' pk" "\<not> x_try x"
    by (rule blockedD [OF ok at, of x b]) (simp, blast)
  then have st: "st' = st" using role by simp
  obtain m where m: "pk_msg pk = Some m"
    "if sending x then st = SGone \<and> x_msg x = Some m else \<exists>y. st = SOver y \<and> x_msg y = Some m"
  proof (cases "sending x")
    case True
    then obtain m where "x_msg x = Some m" by (auto simp: sending_def)
    with True c(2,4) st that [of m] show thesis by simp
  next
    case False
    with c(2) st obtain y where y: "st = SOver y" by (auto simp: is_over_iff)
    with c(4) st False obtain m where "x_msg y = Some m" "pk_msg pk = Some m"
      by (auto simp: sending_def handed_def)
    with False y that [of m] show thesis by simp
  qed
  let ?a = "if sending x then Sent (Inl (SendDisconnected m)) else x_got x m"
  define s' where "s' = z_set_stage i STaken (z_put (zb_packet b) (Some (pk\<lparr>pk_msg := None\<rparr>)) s)"
  have run: "zero_take_msg i x k b s = Done (s', ZEnd x k b ?a)"
    using c(3) m(1) by (simp add: zero_take_msg_def z_deref_def s'_def)
  have nw: "\<not> waiting_stage st" "\<not> names j st" for j using m(2) by (auto split: if_splits)
  have role': "z_role s' = (z_role s)(i \<mapsto> ?r\<lparr>ro_stage := STaken\<rparr>)" using role by (simp add: s'_def)
  have "z_ok s'"
    by (rule packet_change_ok [OF ok role, of _ STaken]) (use nw in \<open>simp_all add: s'_def\<close>)
  moreover have "z_guar i s s'"
    by (rule stage_change_guar [OF role role']) (use nw in \<open>simp_all add: s'_def\<close>)
  moreover have "typed (ZEnd x k b ?a)"
    using at c(5) fits_got [of k x m] by (cases k; cases x) (auto simp: z_at_def sending_def)
  then have "z_at s' i (ZEnd x k b ?a)"
    using nw role' own_change_at [OF at role, of s' STaken "ZEnd x k b ?a"] by (simp add: s'_def)
  ultimately have "z_good s i s' (ZEnd x k b ?a)" by (simp add: z_good_def)
  with run m(2) show thesis by (intro that [of s' ?a m]) (auto simp: s'_def)
qed


section \<open>The end of a blocked call\<close>

lemma end_good:
  assumes ok: "z_ok s" and at: "z_at s i (ZEnd x k b r)"
  shows "z_good s i (zero_end i b s) (ZFin k r)"
proof -
  obtain st cx where c: "z_role s i = Some \<lparr>ro_x = x, ro_b = b, ro_stage = st\<rparr>" "stage_at (ZEnd x k b r) st"
    "cs_mem (z_store s) (zb_cx b) = Some cx" "in_thread cx = i"
    by (rule blockedD [OF ok at, of x b]) (simp, blast)
  let ?r = "\<lparr>ro_x = x, ro_b = b, ro_stage = st\<rparr>" and ?s' = "zero_end i b s"
  have nw: "\<not> waiting_stage st" "\<not> names j st" for j using c(2) by (auto simp: is_over_iff split: if_splits)
  note D = z_okD [OF ok]
  note lv = ctx_leave_ok [OF D(5) c(3,4), of "zb_cached b"]
  have s': "z_role ?s' = (z_role s)(i := None)" "z_inner ?s' = z_inner s" "z_holder ?s' = z_holder s"
    "cs_mem (z_store ?s') = cs_mem (z_store s)" "store_ok (z_store ?s')"
    "z_packets ?s' = (z_packets s)(zb_packet b := None)" "z_locals ?s' = removeAll (zb_local b) (z_locals s)"
    "z_chan ?s' = z_chan s"
    using lv by (simp_all add: zero_end_def)
  have "roles_ok ?s'"
    unfolding roles_ok_def
  proof (intro allI impI)
    fix l u assume "z_role ?s' l = Some u"
    then have u: "z_role s l = Some u" "l \<noteq> i" by (auto simp: s' split: if_splits)
    have o: "role_ok (cs_mem (z_store s)) (z_packets s) (z_locals s) l u"
      using D(1) u(1) by (simp add: roles_ok_def)
    have "zb_packet (ro_b u) \<noteq> zb_packet (ro_b ?r) \<and> zb_local (ro_b u) \<noteq> zb_local (ro_b ?r)"
      using D(2) u c(1) unfolding roles_apart_def by blast
    with o show "role_ok (cs_mem (z_store ?s')) (z_packets ?s') (z_locals ?s') l u"
      by (intro role_ok_frame [OF o]) (auto simp: s' role_ok_def)
  qed
  moreover have "roles_apart ?s'" using D(2) by (auto simp: roles_apart_def s' split: if_splits)
  moreover have "queued d (z_role ?s') = queued d (z_role s)" for d
  proof -
    have "queued d (z_role s) = queued d ((z_role s)(i \<mapsto> ?r))" using c(1) by (simp add: fun_upd_idem)
    have "e \<in> queued d (z_role ?s') \<longleftrightarrow> e \<in> queued d (z_role s)" for e
    proof
      assume "e \<in> queued d (z_role ?s')"
      then obtain l u where "z_role ?s' l = Some u" "sending (ro_x u) = d" "waiting_stage (ro_stage u)" "e = entry_of (ro_b u)"
        by (rule queuedE)
      then show "e \<in> queued d (z_role s)" by (auto simp: s' intro: queuedI split: if_splits)
    next
      assume "e \<in> queued d (z_role s)"
      then obtain l u where u: "z_role s l = Some u" "sending (ro_x u) = d" "waiting_stage (ro_stage u)" "e = entry_of (ro_b u)"
        by (rule queuedE)
      with c(1) nw(1) have "l \<noteq> i" by auto
      with u show "e \<in> queued d (z_role ?s')" using queuedI [of "z_role ?s'" l u d] by (simp add: s')
    qed
    then show ?thesis by blast
  qed
  then have "queues_ok ?s'" using D(3) by (simp add: queues_ok_def s'(2))
  moreover have "told_all ?s'" using D(4) by (auto simp: told_all_def s' split: if_splits)
  ultimately have "z_ok ?s'" using D(6) by (simp add: z_ok_def s'(3,5,8))
  moreover have "z_at ?s' i (ZFin k r)"
    using at by (auto simp: z_at_defs s' split: if_splits)
  moreover have "z_guar i s ?s'"
    unfolding z_guar_def
  proof (intro allI impI conjI)
    fix l assume "l \<noteq> i"
    then show "role_advance i (z_role s l) (z_role ?s' l)" by (simp add: s')
    show "z_role ?s' n = Some u \<longleftrightarrow> z_role s n = Some u" if "names l (ro_stage u)" for n u
      using c(1) nw(2) [of l] that by (auto simp: s')
  qed (simp_all add: s')
  ultimately show ?thesis by (simp add: z_good_def)
qed

section \<open>All steps\<close>

lemma zero_return_ok:
  assumes "fits_answer k r"
  obtains pc where "zero_return k r = Done pc" "typed pc" "blocked_of pc = None" "partner_of i pc = None"
    "\<not> holds pc"
proof -
  have "\<exists>pc. zero_return k r = Done pc \<and> typed pc \<and> blocked_of pc = None \<and> partner_of i pc = None \<and> \<not> holds pc"
    using assms
    by (cases k; cases r) (auto simp: is_full_not_closed split: sum.splits try_recv_error.splits recv_timeout_error.splits)
  with that show thesis by blast
qed

lemma fin_good:
  assumes ok: "z_ok s" and at: "z_at s i (ZFin k r)"
  obtains s' pc' where "zero_fin k r s = Done (s', pc')" "zero_return k r = Done pc'" "z_good s i s' pc'"
proof -
  obtain pc' where pc': "zero_return k r = Done pc'" "typed pc'" "blocked_of pc' = None" "partner_of i pc' = None"
    "\<not> holds pc'" using zero_return_ok [of k r i] at by (auto simp: z_at_def)
  have "z_at s i pc'" using at pc' by (simp add: z_at_defs)
  then show thesis
    by (intro that [OF _ pc'(1)]) (simp add: zero_fin_def pc'(1), rule calm_good, simp_all add: ok)
qed

lemma positive_update_loop_no_wrong:
  "positive_update_loop ws prev a \<noteq> Panic \<and> positive_update_loop ws prev a \<noteq> Fault"
proof (induction ws arbitrary: prev)
  case Nil
  then show ?case by (simp add: positive_update_loop.simps [of "[]"])
next
  case (Cons w ws)
  then show ?case by (simp add: positive_update_loop.simps [of "w # ws"])
qed

lemma register_no_wrong: "register Q ws (Some t) w \<noteq> Panic \<and> register Q ws (Some t) w \<noteq> Fault"
proof -
  have "positive_update ws n \<noteq> Panic \<and> positive_update ws n \<noteq> Fault" for n
    using positive_update_loop_no_wrong by (simp add: positive_update_def)
  then have "wk Q ws v \<noteq> Panic \<and> wk Q ws v \<noteq> Fault" for v
    by (cases "positive_update ws (w_waiting v)") (auto simp: wk_def split: option.splits if_splits)
  then show ?thesis by (simp add: register_def split: option.splits)
qed

text \<open>Steps inside \<open>poll\<close> and \<open>start_send\<close>, on the task wakers only.\<close>

lemma task_step_good:
  assumes ok: "z_ok s" and at: "z_at s i pc" and st: "zero_go Q ws a p i s pc = out"
    and pc: "pc = ZPollFirst t \<or> pc = ZPollUpdate t \<or> pc = ZPollReg t \<or> pc = ZSinkReg t m"
  shows "good_out s i out"
proof -
  have move: "z_at s i pc'" if "typed pc'" "blocked_of pc' = None" "partner_of i pc' = None" "\<not> holds pc'" for pc'
    using at pc that by (auto simp: z_at_defs)
  note stay = calm_good [OF _ _ ok]
  from pc show ?thesis
  proof (elim disjE)
    assume "pc = ZPollFirst t"
    with st show ?thesis by (auto simp: zero_poll_first_def intro!: stay move)
  next
    assume "pc = ZPollUpdate t"
    with st positive_update_loop_no_wrong [of ws "w_from_me (zc_receivers (z_chan s))" "w_from_me (zc_receivers (z_chan s))"]
    show ?thesis
      by (cases "positive_update ws (w_from_me (zc_receivers (z_chan s)))")
        (auto simp: zero_poll_update_def positive_update_def Let_def intro!: stay move)
  next
    assume "pc = ZPollReg t"
    with st register_no_wrong [of Q ws t "zc_receivers (z_chan s)"] show ?thesis
      by (cases "register Q ws (Some t) (zc_receivers (z_chan s))")
        (auto simp: zero_poll_register_def fits_op_def intro!: stay move)
  next
    assume "pc = ZSinkReg t m"
    with st register_no_wrong [of Q ws t "zc_senders (z_chan s)"] show ?thesis
      by (cases "register Q ws (Some t) (zc_senders (z_chan s))")
        (auto simp: zero_sink_register_def fits_op_def intro!: stay move)
  qed
qed


text \<open>Meeting: either an undecided call of the other side is there, or not.\<close>

lemma meet_cases:
  assumes ok: "z_ok s" and at: "z_at s i (ZCrit (Xfer x) k)"
  obtains (pair) j r pre post s' where "z_role s j = Some r" "j \<noteq> i" "sending (ro_x r) \<noteq> sending x"
      "ro_stage r = SQueued" "z_queue (\<not> sending x) (z_inner s) = pre @ entry_of (ro_b r) # post"
      "\<forall>e \<in> set pre. \<not> selectable i (z_store s) e"
      "zero_meet i a p x k s = Done (s', ZPaired x k (zb_packet (ro_b r)) j)"
      "z_good s i s' (ZPaired x k (zb_packet (ro_b r)) j)"
      "z_role s' = (z_role s)(j \<mapsto> r\<lparr>ro_stage := SPaired i x\<rparr>)" "z_packets s' = z_packets s"
      "zi_disconnected (z_inner s') = zi_disconnected (z_inner s)"
  | (none) "\<And>j r. z_role s j = Some r \<Longrightarrow> sending (ro_x r) \<noteq> sending x \<Longrightarrow> ro_stage r \<noteq> SQueued"
      "zero_meet i a p x k s =
        (if zi_disconnected (z_inner s) then Done (s, ZLeave k (x_closed x))
         else if x_try x then Done (s, ZLeave k (x_would_block x)) else zero_block i a p x k s)"
proof -
  have i: "z_role s i = None" using at by (simp add: z_at_def role_at_def)
  show thesis
  proof (cases "\<exists>l u. z_role s l = Some u \<and> sending (ro_x u) \<noteq> sending x \<and> ro_stage u = SQueued")
    case True
    then obtain l u where u: "z_role s l = Some u" "sending (ro_x u) \<noteq> sending x" "ro_stage u = SQueued" by blast
    obtain j r pre post where sel: "z_role s j = Some r" "sending (ro_x r) \<noteq> sending x" "ro_stage r = SQueued"
      "z_queue (\<not> sending x) (z_inner s) = pre @ entry_of (ro_b r) # post"
      "zero_select i x s = Done (Some (entry_of (ro_b r)),
         (z_set_inner (z_set_queue (\<not> sending x) (pre @ post) (z_inner s)) s)
           \<lparr>z_store := select_entry (entry_of (ro_b r)) (z_store s)\<rparr>)"
      "\<forall>e \<in> set pre. \<not> selectable i (z_store s) e"
      by (rule zero_select_some [OF ok i u])
    define s1 where "s1 = (z_set_inner (z_set_queue (\<not> sending x) (pre @ post) (z_inner s)) s)
           \<lparr>z_store := select_entry (entry_of (ro_b r)) (z_store s)\<rparr>"
    note g = pair_good [OF ok at sel(1-4) s1_def]
    have "zero_meet i a p x k s = Done (z_set_stage j (SPaired i x) s1, ZPaired x k (zb_packet (ro_b r)) j)"
      using sel(5) g(1) by (simp add: zero_meet_def s1_def [symmetric])
    moreover have "j \<noteq> i" using i sel(1) by auto
    ultimately show thesis
      using pair [OF sel(1) _ sel(2-4,6) _ g(2)] sel(1) by (simp add: s1_def)
  next
    case False
    then have no: "\<forall>j r. z_role s j = Some r \<longrightarrow> sending (ro_x r) \<noteq> sending x \<longrightarrow> ro_stage r \<noteq> SQueued"
      by blast
    show thesis
    proof (rule none)
      show "zero_meet i a p x k s =
        (if zi_disconnected (z_inner s) then Done (s, ZLeave k (x_closed x))
         else if x_try x then Done (s, ZLeave k (x_would_block x)) else zero_block i a p x k s)"
        by (simp add: zero_meet_def zero_select_none [OF ok i no])
    qed (use no in blast)
  qed
qed

lemma zero_block_no_wrong:
  "zero_block i a p x k s \<noteq> Panic \<and> zero_block i a p x k s \<noteq> Fault"
  by (cases "ctx_enter i (z_store s)") (auto simp: zero_block_def Let_def fresh_local_hook)

lemma leave_good:
  assumes ok: "z_ok s" and at: "z_at s i (ZCrit op k)" and "fits_answer k r"
  shows "z_good s i s (ZLeave k r)"
  by (rule stay_good [OF ok]) (use at assms(3) in \<open>simp add: z_at_defs\<close>)

lemma crit_good:
  assumes ok: "z_ok s" and at: "z_at s i (ZCrit op k)"
  shows "good_out s i (zero_go Q ws a p i s (ZCrit op k))"
proof (cases op)
  case (Xfer x)
  note at' = at [unfolded Xfer]
  have tc: "fits_call k x" using at' by (simp add: z_at_def fits_op_def)
  from ok at' show ?thesis
  proof (cases rule: meet_cases [where a = a and p = p])
    case (none)
    note lv = leave_good [OF ok at'] and fa = fits_closed [OF tc] fits_would_block [OF tc]
    have "good_out s i (zero_block i a p x k s)" if "\<not> x_try x" "\<not> zi_disconnected (z_inner s)"
      using block_good(1) [OF ok at' that] zero_block_no_wrong [of i a p x k s]
      by (cases "zero_block i a p x k s") auto
    with none(2) lv fa show ?thesis by (auto simp: Xfer)
  qed (auto simp: Xfer)
next
  case OpShutdown
  note at' = at [unfolded OpShutdown]
  have k: "k = KReturn" using at' by (simp add: z_at_def fits_op_def)
  show ?thesis
  proof (cases "zi_disconnected (z_inner s)")
    case True
    with leave_good [OF ok at'] k OpShutdown show ?thesis by (simp add: zero_shutdown_def)
  next
    case False
    from shutdown_good [OF ok at' False] OpShutdown show ?thesis by (metis good_out_simps(1) zero_go.simps(3))
  qed
next
  case OpIsShutdown
  with at leave_good [OF ok at] show ?thesis by (simp add: zero_is_shutdown_def z_at_def fits_op_def)
qed

lemma go_good:
  assumes ok: "z_ok s" and at: "z_at s i pc"
  shows "good_out s i (zero_go Q ws a p i s pc)"
proof (cases pc)
  case (ZLock op k)
  obtain old s' where l: "z_lock i s = (old, s')" by fastforce
  from z_lock_good [OF ok at l, of "ZCrit op k"] at ZLock l show ?thesis by (simp add: z_at_def split: if_splits)
next
  case (ZRelock x k b)
  obtain old s' where l: "z_lock i s = (old, s')" by fastforce
  from z_lock_good [OF ok at l, of "ZUnreg x k b"] at ZRelock l show ?thesis by (simp add: z_at_def split: if_splits)
next
  case (ZCrit op k)
  with crit_good [OF ok] at show ?thesis by blast
next
  case (ZLeave k r)
  with z_unlock_good [OF ok at, of "ZFin k r"] at show ?thesis by (simp add: z_at_def)
next
  case (ZPaired x k q j)
  with z_unlock_good [OF ok at, of "ZWake x k q j"] at show ?thesis by (simp add: z_at_def)
next
  case (ZWake x k q j)
  have "z_at s i (ZMove x k q j)" using at ZWake by (simp add: z_at_defs)
  with ZWake at calm_good [OF _ _ ok this, of "z_wake Q x s"] show ?thesis by (simp add: zero_wake_def z_at_def)
next
  case (ZMove x k q j)
  with move_good [OF ok] at show ?thesis by (metis good_out_simps(1) zero_go.simps(8))
next
  case (ZMark x k q j r)
  with mark_good [OF ok] at show ?thesis by (metis good_out_simps(1) zero_go.simps(9))
next
  case (ZBlocked x k b)
  have "z_at s i (ZUnlock x k b)" using at ZBlocked by (simp add: z_at_defs)
  with ZBlocked calm_good [OF _ _ ok this, of "z_wake Q x s"] show ?thesis by simp
next
  case (ZUnlock x k b)
  with z_unlock_good [OF ok at, of "ZWait x k b"] at show ?thesis by (simp add: z_at_def)
next
  case (ZWait x k b)
  with wait_good [OF ok] at show ?thesis by simp
next
  case (ZReady x k b)
  with ready_good [OF ok] at show ?thesis by simp
next
  case (ZUnreg x k b)
  with unregister_good [OF ok] at show ?thesis by (metis good_out_simps(1) zero_go.simps(15))
next
  case (ZUnregDrop x k b)
  have "fits_call k x" using at ZUnregDrop by (simp add: z_at_def)
  with z_unlock_good [OF ok at, of "if sending x then ZTakeMsg x k b else ZEnd x k b (x_closed x)"]
    at ZUnregDrop fits_closed [of k x] show ?thesis by (simp add: z_at_def split: if_splits)
next
  case (ZTakeMsg x k b)
  obtain st where "z_role s i = Some \<lparr>ro_x = x, ro_b = b, ro_stage = st\<rparr>"
    by (rule blockedD [OF ok at, of x b]) (simp add: ZTakeMsg, blast)
  with take_msg_good [OF ok] at ZTakeMsg show ?thesis by (metis good_out_simps(1) zero_go.simps(17))
next
  case (ZEnd x k b r)
  with end_good [OF ok] at show ?thesis by simp
next
  case (ZFin k r)
  with fin_good [OF ok] at show ?thesis by (metis good_out_simps(1) zero_go.simps(19))
next
  case (ZPollFirst t)
  with task_step_good [OF ok at] show ?thesis by blast
next
  case (ZPollUpdate t)
  with task_step_good [OF ok at] show ?thesis by blast
next
  case (ZPollReg t)
  with task_step_good [OF ok at] show ?thesis by blast
next
  case (ZSinkReg t m)
  with task_step_good [OF ok at] show ?thesis by blast
qed simp_all

lemma step_good:
  assumes ok: "z_ok s" and at: "z_at s i pc"
  shows "good_out s i (zero_step Q inp i s pc)"
proof (cases inp)
  case (ZCall c)
  obtain op k where f: "first_op c = (op, k)" by fastforce
  then have "fits_op k op" by (cases c) (auto simp: fits_op_def split: zop.splits)
  then have "z_at s i (ZLock op k)" if "pc = ZIdle" using at that by (simp add: z_at_defs)
  with ZCall f calm_good [OF _ _ ok, of "s\<lparr>z_given := z_given s @ op_msgs op\<rparr>" i "ZLock op k"]
  show ?thesis by simp
next
  case ZTake
  have "z_at s i ZIdle" if "pc = ZRet r" for r using at that by (simp add: z_at_defs)
  with ZTake show ?thesis by (auto intro: stay_good [OF ok] split: zpc.splits)
next
  case (ZGo ws a p)
  with go_good [OF ok at] show ?thesis by simp
qed

interpretation zero: interference_free "zero_step Q" z_ok z_at for Q :: "('q, 't) aq_ops"
proof unfold_locales
  fix s s' :: "('q, 't, 'm) zsys" and i j inp and pc pc' q :: "('m, 't) zpc"
  assume a: "z_ok s" "z_at s i pc" "zero_step Q inp i s pc = Done (s', pc')"
  note g = step_good [OF a(1,2), of Q inp, unfolded a(3), simplified]
  then show "z_ok s' \<and> z_at s' i pc'" by (simp add: z_good_def)
  show "z_at s' j q" if "j \<noteq> i" "z_at s j q"
    using g that z_at_guar by (auto simp: z_good_def)
qed

end
