(* ===== verification/Zero_Spec.thy ===== *)
theory Zero_Spec
  imports Zero_Steps
begin

text \<open>
  What the zero-capacity channel promises, as a system in which a sender and a receiver
  meet in one step, and the proof that the channel implements it.
\<close>

section \<open>The rendezvous\<close>

text \<open>
  A call that has not had its effect yet, one that waits for a partner, one whose answer
  is decided; between two operations of a \<open>poll\<close> or a \<open>start_send\<close>; and a call that has
  returned.
\<close>

datatype ('m, 't) acall = AIdle | ADo "'m zop" "'t kont" | ABlock "'m xfer" "'t kont"
  | AFin "'t kont" "'m zresult" | APoll 't | ASink 't 'm | ARet "'m zanswer"

text \<open>The answer of a transfer \<open>x\<close> that has met the transfer \<open>y\<close>.\<close>

definition x_result :: "'m xfer \<Rightarrow> 'm xfer \<Rightarrow> 'm zresult" where
  "x_result x y = (case x_msg x of Some _ \<Rightarrow> x_sent x
     | None \<Rightarrow> (case x_msg y of Some m \<Rightarrow> x_got x m | None \<Rightarrow> x_closed x))"

definition dismiss :: "('m, 't) acall \<Rightarrow> ('m, 't) acall" where
  "dismiss a = (case a of ABlock y l \<Rightarrow> AFin l (x_closed y) | _ \<Rightarrow> a)"

lemma dismiss_idle [simp]: "dismiss AIdle = AIdle"
  by (simp add: dismiss_def)

fun resume :: "('m, 't) zpc \<Rightarrow> ('m, 't) acall" where
  "resume (ZRet r) = ARet r"
| "resume (ZPollFirst t) = APoll t"
| "resume (ZSinkReg t m) = ASink t m"
| "resume _ = AIdle"

text \<open>
  The state: whether the channel is shut down, the calls of the threads, and the messages
  given to sends, got from receives, and given back or dropped by sends that failed.
\<close>

record ('m, 't) meeting =
  me_closed :: bool
  me_calls :: "nat \<Rightarrow> ('m, 't) acall"
  me_given :: "'m list"
  me_got :: "'m list"
  me_failed :: "'m list"

definition meeting_new :: "('m, 't) meeting" where
  "meeting_new = \<lparr>me_closed = False, me_calls = \<lambda>_. AIdle, me_given = [], me_got = [], me_failed = []\<rparr>"

definition set_call :: "nat \<Rightarrow> ('m, 't) acall \<Rightarrow> ('m, 't) meeting \<Rightarrow> ('m, 't) meeting" where
  "set_call i c a = a\<lparr>me_calls := (me_calls a)(i := c)\<rparr>"

text \<open>Nobody waits on the other side.\<close>

definition nobody :: "'m xfer \<Rightarrow> ('m, 't) meeting \<Rightarrow> bool" where
  "nobody x a \<longleftrightarrow> (\<forall>j y l. me_calls a j = ABlock y l \<longrightarrow> sending y = sending x)"

text \<open>
  The steps: a call starts; two transfers meet, one of which was waiting; a transfer is
  refused, or would block, or waits, when nobody waits on the other side; the channel is
  shut down, which answers everybody who waits; and what a caller does with its answer.
\<close>

inductive rendezvous :: "('m, 't) meeting \<Rightarrow> ('m, 't) meeting \<Rightarrow> bool" where
  r_call: "me_calls a i = AIdle \<Longrightarrow> first_op c = (op, k) \<Longrightarrow>
    rendezvous a ((set_call i (ADo op k) a)\<lparr>me_given := me_given a @ op_msgs op\<rparr>)"
| r_meet: "me_calls a i = ADo (Xfer x) k \<Longrightarrow> me_calls a j = ABlock y l \<Longrightarrow> i \<noteq> j \<Longrightarrow> sending x \<noteq> sending y \<Longrightarrow>
    rendezvous a (set_call j (AFin l (x_result y x)) (set_call i (AFin k (x_result x y)) a))"
| r_closed: "me_calls a i = ADo (Xfer x) k \<Longrightarrow> me_closed a \<Longrightarrow> rendezvous a (set_call i (AFin k (x_closed x)) a)"
| r_would_block: "me_calls a i = ADo (Xfer x) k \<Longrightarrow> \<not> me_closed a \<Longrightarrow> x_try x \<Longrightarrow> nobody x a \<Longrightarrow>
    rendezvous a (set_call i (AFin k (x_would_block x)) a)"
| r_block: "me_calls a i = ADo (Xfer x) k \<Longrightarrow> \<not> me_closed a \<Longrightarrow> \<not> x_try x \<Longrightarrow> nobody x a \<Longrightarrow>
    rendezvous a (set_call i (ABlock x k) a)"
| r_shutdown: "me_calls a i = ADo OpShutdown k \<Longrightarrow> \<not> me_closed a \<Longrightarrow>
    rendezvous a (a\<lparr>me_closed := True,
      me_calls := (\<lambda>j. dismiss (me_calls a j))(i := AFin k (ShutdownSaid True))\<rparr>)"
| r_shutdown_again: "me_calls a i = ADo OpShutdown k \<Longrightarrow> me_closed a \<Longrightarrow>
    rendezvous a (set_call i (AFin k (ShutdownSaid False)) a)"
| r_is_shutdown: "me_calls a i = ADo OpIsShutdown k \<Longrightarrow>
    rendezvous a (set_call i (AFin k (IsShutdownSaid (me_closed a))) a)"
| r_return: "me_calls a i = AFin k r \<Longrightarrow> zero_return k r = Done pc \<Longrightarrow>
    rendezvous a ((set_call i (resume pc) a)\<lparr>me_got := me_got a @ msgs_got r,
      me_failed := me_failed a @ (case resume pc of ASink _ _ \<Rightarrow> [] | _ \<Rightarrow> msgs_back r)\<rparr>)"
| r_poll_wait: "me_calls a i = APoll t \<Longrightarrow> rendezvous a (set_call i (ARet (Polled (Inr NotReady))) a)"
| r_poll_recv: "me_calls a i = APoll t \<Longrightarrow> rendezvous a (set_call i (ADo (Xfer XRecv) KPollRecv) a)"
| r_sink_send: "me_calls a i = ASink t m \<Longrightarrow> rendezvous a (set_call i (ADo (Xfer (XSend m)) KSinkSend) a)"
| r_take: "me_calls a i = ARet r \<Longrightarrow> rendezvous a (set_call i AIdle a)"

section \<open>Reading the abstract state\<close>

fun stage_answer :: "'m xfer \<Rightarrow> 't kont \<Rightarrow> 'm stage \<Rightarrow> ('m, 't) acall" where
  "stage_answer x k SQueued = ABlock x k"
| "stage_answer x k (SPaired j y) = AFin k (x_result x y)"
| "stage_answer x k (SMoved j y) = AFin k (x_result x y)"
| "stage_answer x k (SOver y) = AFin k (x_result x y)"
| "stage_answer x k SDisc = AFin k (x_closed x)"
| "stage_answer x k SGone = AFin k (x_closed x)"
| "stage_answer x k STaken = AFin k (x_closed x)"

definition waits :: "'m role option \<Rightarrow> 'm xfer \<Rightarrow> 't kont \<Rightarrow> ('m, 't) acall" where
  "waits ro x k = (case ro of None \<Rightarrow> AIdle | Some r \<Rightarrow> stage_answer x k (ro_stage r))"

definition meets :: "'m role option \<Rightarrow> 'm xfer \<Rightarrow> 't kont \<Rightarrow> ('m, 't) acall" where
  "meets ro x k = (case ro of None \<Rightarrow> AIdle | Some r \<Rightarrow> AFin k (x_result x (ro_x r)))"

fun a_of :: "(nat \<Rightarrow> 'm role option) \<Rightarrow> nat \<Rightarrow> ('m, 't) zpc \<Rightarrow> ('m, 't) acall" where
  "a_of ro i ZIdle = AIdle"
| "a_of ro i (ZLock op k) = ADo op k"
| "a_of ro i (ZCrit op k) = ADo op k"
| "a_of ro i (ZLeave k r) = AFin k r"
| "a_of ro i (ZPaired x k p j) = meets (ro j) x k"
| "a_of ro i (ZWake x k p j) = meets (ro j) x k"
| "a_of ro i (ZMove x k p j) = meets (ro j) x k"
| "a_of ro i (ZMark x k p j r) = AFin k r"
| "a_of ro i (ZBlocked x k b) = waits (ro i) x k"
| "a_of ro i (ZUnlock x k b) = waits (ro i) x k"
| "a_of ro i (ZWait x k b) = waits (ro i) x k"
| "a_of ro i (ZReady x k b) = waits (ro i) x k"
| "a_of ro i (ZRelock x k b) = waits (ro i) x k"
| "a_of ro i (ZUnreg x k b) = waits (ro i) x k"
| "a_of ro i (ZUnregDrop x k b) = waits (ro i) x k"
| "a_of ro i (ZTakeMsg x k b) = waits (ro i) x k"
| "a_of ro i (ZEnd x k b r) = AFin k r"
| "a_of ro i (ZFin k r) = AFin k r"
| "a_of ro i (ZPollFirst t) = APoll t"
| "a_of ro i (ZPollUpdate t) = APoll t"
| "a_of ro i (ZPollReg t) = APoll t"
| "a_of ro i (ZSinkReg t m) = ASink t m"
| "a_of ro i (ZRet r) = ARet r"

definition z_calls :: "('q, 't, 'm) zsys \<times> ('m, 't) zpc list \<Rightarrow> nat \<Rightarrow> ('m, 't) acall" where
  "z_calls c = (\<lambda>i. if i < length (snd c) then a_of (z_role (fst c)) i (snd c ! i) else AIdle)"

definition z_abs :: "('q, 't, 'm) zsys \<times> ('m, 't) zpc list \<Rightarrow> ('m, 't) meeting" where
  "z_abs c = \<lparr>me_closed = zi_disconnected (z_inner (fst c)), me_calls = z_calls c,
     me_given = z_given (fst c), me_got = z_got (fst c), me_failed = z_failed (fst c)\<rparr>"

text \<open>
  The invariant of a configuration: only its threads have blocked calls, the guard, and
  something left to do for a blocked call.
\<close>

definition z_inv :: "('q, 't, 'm) zsys \<times> ('m, 't) zpc list \<Rightarrow> bool" where
  "z_inv c \<longleftrightarrow> assertions z_ok z_at c \<and> (\<forall>j. z_role (fst c) j \<noteq> None \<longrightarrow> j < length (snd c))
     \<and> (\<forall>j. z_holder (fst c) = Some j \<longrightarrow> j < length (snd c))
     \<and> (\<forall>j l r. z_role (fst c) l = Some r \<longrightarrow> names j (ro_stage r) \<longrightarrow> j < length (snd c))"

lemma z_invD:
  assumes "z_inv (s, ps)"
  shows "z_ok s" "i < length ps \<Longrightarrow> z_at s i (ps ! i)" "z_role s j = Some r \<Longrightarrow> j < length ps"
    "z_holder s = Some j \<Longrightarrow> j < length ps" "z_role s l = Some r \<Longrightarrow> names j (ro_stage r) \<Longrightarrow> j < length ps"
  using assms by (auto simp: z_inv_def assertions_def)

lemma z_inv_step:
  assumes inv: "z_inv (s, ps)" and i: "i < length ps" and st: "zero_step Q inp i s (ps ! i) = Done (s', pc')"
  shows "z_inv (s', ps[i := pc'])" "z_good s i s' pc'"
proof -
  have g: "good_out s i (zero_step Q inp i s (ps ! i))" using step_good z_invD(1,2) [OF inv] i by blast
  then show good: "z_good s i s' pc'" using st by simp
  have "j < length ps" if "z_role s' j \<noteq> None" for j
  proof (cases "j = i")
    case False
    then have "role_advance i (z_role s j) (z_role s' j)" using good by (simp add: z_good_def z_guar_def)
    with that obtain r where "z_role s j = Some r" by (cases "z_role s j") (auto simp: role_advance_def)
    then show ?thesis using z_invD(3) [OF inv] by blast
  qed (simp add: i)
  moreover have "j < length ps" if "z_holder s' = Some j" for j
    using that good z_invD(4) [OF inv, of j] i by (cases "j = i") (auto simp: z_good_def z_guar_def)
  moreover have "j < length ps" if "z_role s' l = Some r" "names j (ro_stage r)" for j l r
  proof (cases "j = i")
    case False
    then have "z_role s l = Some r" using good that by (simp add: z_good_def z_guar_def)
    then show ?thesis using z_invD(5) [OF inv] that(2) by blast
  qed (simp add: i)
  ultimately show "z_inv (s', ps[i := pc'])"
    using zero.assertions_step [of s ps i Q inp s' pc'] inv i st unfolding z_inv_def by auto
qed

lemma z_inv_start: "store_ok st \<Longrightarrow> z_inv (zsys_new Q st, replicate n ZIdle)"
  by (auto simp: z_inv_def assertions_def zsys_new_def z_ok_def roles_ok_def roles_apart_def queues_ok_def
      told_all_def queued_def z_at_defs z_inner_def zero_new_def guard_deref_def spinlock_new_def waker_new_def
      all_bool_eq)

section \<open>What a step does to the other calls\<close>

text \<open>A step that neither selects nor tells a queued call.\<close>

definition steady :: "nat \<Rightarrow> ('q, 't, 'm) zsys \<Rightarrow> ('q, 't, 'm) zsys \<Rightarrow> bool" where
  "steady i s s' \<longleftrightarrow> zi_disconnected (z_inner s') = zi_disconnected (z_inner s)
     \<and> (\<forall>l r. l \<noteq> i \<longrightarrow> z_role s l = Some r \<longrightarrow> ro_stage r = SQueued \<longrightarrow> z_role s' l = Some r)"

lemma waits_advance:
  assumes "role_advance i ro ro'" "\<And>r. ro = Some r \<Longrightarrow> ro_stage r = SQueued \<Longrightarrow> ro' = ro"
  shows "waits ro' x k = waits ro x k"
proof (cases ro)
  case None
  with assms(1) show ?thesis by (simp add: role_advance_def)
next
  case (Some r)
  with assms(1) obtain st where st: "ro' = Some (r\<lparr>ro_stage := st\<rparr>)" "advance i (ro_stage r) st"
    by (auto simp: role_advance_def)
  from st(2) Some st(1) assms(2) show ?thesis by (cases rule: advance.cases) (auto simp: waits_def)
qed

lemma a_of_guar:
  assumes g: "z_guar i s s'" and l: "l \<noteq> i" and at: "z_at s l q"
    and q: "\<And>r. z_role s l = Some r \<Longrightarrow> ro_stage r = SQueued \<Longrightarrow> z_role s' l = z_role s l"
  shows "a_of (z_role s') l q = a_of (z_role s) l q"
proof -
  note g' = g [unfolded z_guar_def, rule_format, OF l]
  have w: "waits (z_role s' l) x k = waits (z_role s l) x k" for x and k :: "'t kont"
    using waits_advance g' q by metis
  have m: "z_role s' j = z_role s j" if p: "partner_of l q = Some (p, j, x, st)" for p j x st
  proof -
    obtain r where "z_role s j = Some r" "ro_stage r = st" using at p by (auto simp: z_at_def partner_at_def)
    with g' partner_of_names [OF p] show ?thesis by metis
  qed
  show ?thesis using w m by (cases q) (auto simp: meets_def)
qed

lemma calls_steady:
  assumes inv: "z_inv (s, ps)" and i: "i < length ps" and g: "z_guar i s s'" and st: "steady i s s'"
  shows "z_abs (s', ps[i := pc']) = (set_call i (a_of (z_role s') i pc') (z_abs (s, ps)))
    \<lparr>me_given := z_given s', me_got := z_got s', me_failed := z_failed s'\<rparr>"
proof -
  have "a_of (z_role s') l (ps ! l) = a_of (z_role s) l (ps ! l)" if "l < length ps" "l \<noteq> i" for l
    using a_of_guar [OF g that(2) z_invD(2) [OF inv that(1)]] st that(2) by (auto simp: steady_def)
  then have "z_calls (s', ps[i := pc']) = (z_calls (s, ps))(i := a_of (z_role s') i pc')"
    using i by (auto simp: z_calls_def fun_eq_iff)
  with st show ?thesis by (simp add: z_abs_def steady_def set_call_def)
qed

text \<open>Calls that wait are the queued ones.\<close>

lemma a_of_block:
  assumes "z_at s j q" "a_of (z_role s) j q = ABlock y l"
  obtains r where "z_role s j = Some r" "ro_x r = y" "ro_stage r = SQueued"
proof -
  have "\<exists>r. z_role s j = Some r \<and> ro_x r = y \<and> ro_stage r = SQueued"
    using assms
    by (cases q) (auto simp: z_at_def role_at_def waits_def meets_def split: option.splits elim: stage_answer.elims)
  with that show thesis by blast
qed

lemma queued_a_of:
  assumes "z_at s j q" "z_role s j = Some r" "ro_stage r = SQueued"
  obtains k where "a_of (z_role s) j q = ABlock (ro_x r) k"
    "\<And>roles y i. roles j = Some (r\<lparr>ro_stage := SPaired i y\<rparr>) \<Longrightarrow> a_of roles j q = AFin k (x_result (ro_x r) y)"
    "\<And>roles. roles j = Some (r\<lparr>ro_stage := SDisc\<rparr>) \<Longrightarrow> a_of roles j q = AFin k (x_closed (ro_x r))"
  using assms that
  by (cases q) (auto simp: z_at_def role_at_def waits_def split: if_splits)


section \<open>The simulation\<close>

lemma calm_steady: "calm s s' \<Longrightarrow> steady i s s'"
  by (simp add: calm_def steady_def)

lemma z_wake_role [simp]: "z_role (z_wake Q x s) = z_role s"
  by (simp add: z_wake_def)

lemma calm_lock': "z_lock i s = (old, s') \<Longrightarrow> calm s s'"
  using calm_lock(1) [of s i] by simp

lemma calm_set_stage:
  assumes "z_role s j = Some r" "ro_stage r \<noteq> SQueued"
  shows "steady i s (z_set_stage j st (z_put p pk s))"
  using assms by (auto simp: steady_def)

text \<open>
  What thread \<open>i\<close> does to its own call in a step that leaves the others alone;
  \<open>a\<close> is any abstract state that has the right entry for thread \<open>i\<close>.
\<close>

definition own_move ::
    "nat \<Rightarrow> ('q, 't, 'm) zsys \<Rightarrow> ('m, 't) zpc \<Rightarrow> ('q, 't, 'm) zsys \<Rightarrow> ('m, 't) zpc \<Rightarrow> bool" where
  "own_move i s pc s' pc' \<longleftrightarrow> steady i s s' \<and>
     (a_of (z_role s') i pc' = a_of (z_role s) i pc \<or>
      (\<forall>a. me_calls a i = a_of (z_role s) i pc \<longrightarrow> rendezvous a (set_call i (a_of (z_role s') i pc') a)))"

lemma zero_return_resume: "zero_return k r = Done pc \<Longrightarrow> resume pc = a_of ro i pc"
  by (cases k; cases r) (auto split: sum.splits try_recv_error.splits recv_timeout_error.splits if_splits)

lemma move_own:
  assumes ok: "z_ok s" and at: "z_at s i (ZMove x k p j)"
    and st: "zero_move i x k p j s = Done (s', pc')"
  shows "own_move i s (ZMove x k p j) s' pc'"
proof -
  obtain s1 r y where y: "z_role s j = Some y" "r = (case x_msg x of Some m \<Rightarrow> x_sent x | None \<Rightarrow> x_got x (the (x_msg (ro_x y))))"
    "x_msg x \<noteq> None \<or> x_msg (ro_x y) \<noteq> None" "zero_move i x k p j s = Done (s1, ZMark x k p j r)"
    "\<exists>pk. s1 = z_set_stage j (SMoved i x) (z_put p (Some pk) s)"
    by (rule move_good [OF ok at])
  have "ro_stage y \<noteq> SQueued" using at y(1) by (auto simp: z_at_def partner_at_def)
  then have "steady i s s'" using st y(4,5) calm_set_stage [OF y(1)] by auto
  moreover have "r = x_result x (ro_x y)" using y(2,3) by (auto simp: x_result_def split: option.splits)
  ultimately show ?thesis using st y(1,4) by (auto simp: own_move_def meets_def)
qed

lemma mark_own:
  assumes ok: "z_ok s" and at: "z_at s i (ZMark x k p j r)"
    and st: "zero_mark x k p j r s = Done (s', pc')"
  shows "own_move i s (ZMark x k p j r) s' pc'"
proof -
  obtain s1 where m: "zero_mark x k p j r s = Done (s1, ZFin k r)"
    "\<exists>pk. s1 = z_set_stage j (SOver x) (z_put p (Some pk) s)"
    by (rule mark_good [OF ok at])
  obtain y where y: "z_role s j = Some y" "ro_stage y \<noteq> SQueued" using at by (auto simp: z_at_def partner_at_def)
  then have "steady i s s'" using st m calm_set_stage [OF y] by auto
  with st m show ?thesis by (auto simp: own_move_def)
qed

lemma ready_own:
  assumes ok: "z_ok s" and at: "z_at s i (ZReady x k b)"
    and st: "zero_ready x k b s = Done (s', pc')"
  shows "own_move i s (ZReady x k b) s' pc'"
proof -
  obtain sg where role: "z_role s i = Some \<lparr>ro_x = x, ro_b = b, ro_stage = sg\<rparr>"
    by (rule blockedD [OF ok at, of x b]) (simp, blast)
  with st zero_ready_cases [OF ok at role] obtain y where y: "sg = SOver y" "s' = s"
    "pc' = (if sending x then ZEnd x k b (x_sent x) else ZTakeMsg x k b)"
    by (auto simp: is_over_iff split: if_splits)
  with role show ?thesis
    by (auto simp: own_move_def calm_steady waits_def x_result_def sending_def)
qed

lemma wait_own:
  assumes ok: "z_ok s" and at: "z_at s i (ZWait x k b)"
    and st: "zero_wait x k b s = Done (s', pc')"
  shows "own_move i s (ZWait x k b) s' pc'"
proof -
  obtain sg where role: "z_role s i = Some \<lparr>ro_x = x, ro_b = b, ro_stage = sg\<rparr>"
    by (rule blockedD [OF ok at, of x b]) (simp, blast)
  with st zero_wait_cases(1) [OF ok at role] show ?thesis
    by (auto simp: own_move_def calm_steady split: if_splits)
qed

lemma unregister_own:
  assumes ok: "z_ok s" and at: "z_at s i (ZUnreg x k b)"
    and st: "zero_unregister i x k b s = Done (s', pc')"
  shows "own_move i s (ZUnreg x k b) s' pc'"
proof -
  obtain s1 where u: "zero_unregister i x k b s = Done (s1, ZUnregDrop x k b)"
    "z_role s1 = (z_role s)(i \<mapsto> \<lparr>ro_x = x, ro_b = b, ro_stage = SGone\<rparr>)"
    "zi_disconnected (z_inner s1) = zi_disconnected (z_inner s)"
    by (rule unregister_good [OF ok at])
  have "z_role s i = Some \<lparr>ro_x = x, ro_b = b, ro_stage = SDisc\<rparr>" using at by (auto simp: z_at_def role_at_def)
  with st u show ?thesis by (auto simp: own_move_def steady_def waits_def)
qed

lemma take_msg_own:
  assumes ok: "z_ok s" and at: "z_at s i (ZTakeMsg x k b)"
    and st: "zero_take_msg i x k b s = Done (s', pc')"
  shows "own_move i s (ZTakeMsg x k b) s' pc'"
proof -
  obtain sg where role: "z_role s i = Some \<lparr>ro_x = x, ro_b = b, ro_stage = sg\<rparr>" and nt: "\<not> x_try x"
    by (rule blockedD [OF ok at, of x b]) (simp, blast)
  obtain s1 m r where t: "zero_take_msg i x k b s = Done (s1, ZEnd x k b r)"
    "r = (if sending x then Sent (Inl (SendDisconnected m)) else x_got x m)"
    "if sending x then sg = SGone \<and> x_msg x = Some m else \<exists>y. sg = SOver y \<and> x_msg y = Some m"
    "\<exists>pk. s1 = z_set_stage i STaken (z_put (zb_packet b) pk s)"
    by (rule take_msg_good [OF ok at role])
  have "steady i s s'" using st t(1,4) by (auto simp: steady_def)
  moreover have "a_of (z_role s) i (ZTakeMsg x k b) = AFin k r"
  proof (cases "sending x")
    case True
    with nt t(3) have "x_closed x = Sent (Inl (SendDisconnected m))" by (cases x) auto
    with True t(2,3) role show ?thesis by (simp add: waits_def)
  next
    case False
    with t(2,3) role show ?thesis by (auto simp: waits_def x_result_def sending_def)
  qed
  ultimately show ?thesis using st t(1) by (auto simp: own_move_def)
qed

lemma unreg_drop_own:
  assumes at: "z_at s i (ZUnregDrop x k b)"
  shows "own_move i s (ZUnregDrop x k b) (z_unlock s) (if sending x then ZTakeMsg x k b else ZEnd x k b (x_closed x))"
proof -
  have "z_role s i = Some \<lparr>ro_x = x, ro_b = b, ro_stage = SGone\<rparr>" using at by (auto simp: z_at_def role_at_def)
  then show ?thesis using calm_lock(2) [of s]
    by (auto simp: own_move_def calm_steady waits_def calm_def)
qed

lemma poll_own:
  assumes "zero_go Q ws a p i s pc = Done (s', pc')"
    and pc: "pc = ZPollFirst t \<or> pc = ZPollUpdate t \<or> pc = ZPollReg t \<or> pc = ZSinkReg t m"
  shows "own_move i s pc s' pc'"
  using assms
  by (auto simp: own_move_def zero_poll_first_def zero_poll_update_def zero_poll_register_def zero_sink_register_def
      Let_def outcome_simps calm_steady intro!: r_poll_wait r_poll_recv r_sink_send split: if_splits)

text \<open>Every step but those with the guard and the return from an operation.\<close>

lemma go_own:
  assumes ok: "z_ok s" and at: "z_at s i pc" and st: "zero_go Q ws a p i s pc = Done (s', pc')"
    and nc: "\<And>op k. pc \<noteq> ZCrit op k" "\<And>k r. pc \<noteq> ZFin k r"
  shows "own_move i s pc s' pc'"
proof (cases pc)
  case (ZLock op k)
  with st calm_lock' [of i s] show ?thesis
    by (auto simp: own_move_def calm_steady split: prod.splits if_splits)
next
  case (ZRelock x k b)
  obtain old s1 where l: "z_lock i s = (old, s1)" by fastforce
  with calm_lock' [OF l] st ZRelock show ?thesis
    by (auto simp: own_move_def calm_steady calm_def split: if_splits)
next
  case (ZCrit op k)
  with nc show ?thesis by blast
next
  case (ZLeave k r)
  with st calm_lock(2) [of s] show ?thesis by (auto simp: own_move_def calm_steady)
next
  case (ZPaired x k q j)
  with st calm_lock(2) [of s] show ?thesis by (auto simp: own_move_def calm_steady calm_def)
next
  case (ZUnlock x k b)
  with st calm_lock(2) [of s] show ?thesis by (auto simp: own_move_def calm_steady calm_def)
next
  case (ZWake x k q j)
  have "q \<noteq> 0" using at ZWake by (simp add: z_at_def)
  with st ZWake show ?thesis by (auto simp: own_move_def zero_wake_def calm_steady)
next
  case (ZBlocked x k b)
  with st show ?thesis by (auto simp: own_move_def calm_steady)
next
  case (ZMove x k q j)
  with move_own [OF ok] at st show ?thesis by simp
next
  case (ZMark x k q j r)
  with mark_own [OF ok] at st show ?thesis by simp
next
  case (ZWait x k b)
  with wait_own [OF ok] at st show ?thesis by simp
next
  case (ZReady x k b)
  with ready_own [OF ok] at st show ?thesis by simp
next
  case (ZUnreg x k b)
  with unregister_own [OF ok] at st show ?thesis by simp
next
  case (ZUnregDrop x k b)
  with unreg_drop_own at st show ?thesis by (metis outcome.inject prod.inject zero_go.simps(16))
next
  case (ZTakeMsg x k b)
  with take_msg_own [OF ok] at st show ?thesis by simp
next
  case (ZEnd x k b r)
  have "steady i s (zero_end i b s)" by (auto simp: steady_def zero_end_def z_inner_def)
  with st ZEnd show ?thesis by (auto simp: own_move_def)
next
  case (ZFin k r)
  with nc show ?thesis by blast
next
  case (ZPollFirst t)
  with poll_own [OF st] show ?thesis by simp
next
  case (ZPollUpdate t)
  with poll_own [OF st] show ?thesis by simp
next
  case (ZPollReg t)
  with poll_own [OF st] show ?thesis by simp
next
  case (ZSinkReg t m)
  with poll_own [OF st] show ?thesis by simp
qed (use st in simp_all)

definition same_history :: "('q, 't, 'm) zsys \<Rightarrow> ('q, 't, 'm) zsys \<Rightarrow> bool" where
  "same_history s s' \<longleftrightarrow> z_given s' = z_given s \<and> z_got s' = z_got s \<and> z_failed s' = z_failed s"

lemma history_simps [simp]:
  "same_history s s" "same_history s (z_unlock s)" "same_history s (z_wake Q x s)" "same_history s (zero_end i b s)"
  "same_history s (z_set_stage j st (z_put p pk s))" "same_history s (z_set_stage j st (z_set_inner v s))"
  "same_history s (z_put p pk s)"
  by (simp_all add: same_history_def z_unlock_def z_wake_def zero_end_def z_set_stage_def z_put_def z_set_inner_def)

lemma history_select: "zero_select i x s = Done (e, s1) \<Longrightarrow> same_history s s1"
  by (auto simp: zero_select_def same_history_def z_set_inner_def outcome_simps)

lemma history_block: "zero_block i a p x k s = Done (s', pc') \<Longrightarrow> same_history s s'"
  by (cases "ctx_enter i (z_store s)")
    (auto simp: zero_block_def Let_def outcome_simps same_history_def z_set_inner_def split: if_splits)

lemma history_crit:
  assumes "zero_go Q ws a p i s (ZCrit op k) = Done (s', pc')"
  shows "same_history s s'"
proof (cases op)
  case (Xfer x)
  with assms obtain e s1 where sel: "zero_select i x s = Done (e, s1)" by (auto simp: zero_meet_def outcome_simps)
  have "same_history s1 s'" using assms Xfer sel history_block [of i a p x k s1 s' pc']
    by (auto simp: zero_meet_def same_history_def z_set_stage_def split: option.splits if_splits)
  with history_select [OF sel] show ?thesis by (simp add: same_history_def)
next
  case OpShutdown
  with assms show ?thesis
    by (auto simp: zero_shutdown_def Let_def outcome_simps same_history_def z_set_inner_def split: if_splits)
next
  case OpIsShutdown
  with assms show ?thesis by (auto simp: zero_is_shutdown_def)
qed

lemma history_go:
  assumes "zero_go Q ws a p i s pc = Done (s', pc')" "\<And>k r. pc \<noteq> ZFin k r"
  shows "same_history s s'"
proof (cases pc)
  case (ZCrit op k)
  with assms(1) history_crit show ?thesis by blast
next
  case (ZLock op k)
  with assms(1) show ?thesis by (auto simp: z_lock_def same_history_def Let_def split: prod.splits)
next
  case (ZRelock x k b)
  with assms(1) show ?thesis by (auto simp: z_lock_def same_history_def Let_def split: prod.splits)
next
  case (ZMove x k q j)
  with assms(1) show ?thesis
    by (auto simp: zero_move_def z_deref_def outcome_simps split: option.splits if_splits)
next
  case (ZUnreg x k b)
  with assms(1) show ?thesis by (auto simp: zero_unregister_def split: prod.splits option.splits)
next
  case (ZFin k r)
  with assms(2) show ?thesis by blast
qed (use assms(1) in \<open>auto simp: zero_wake_def zero_mark_def zero_wait_def zero_ready_def zero_take_msg_def
      zero_poll_first_def zero_poll_update_def zero_poll_register_def zero_sink_register_def z_deref_def
      same_history_def z_set_stage_def z_put_def z_unlock_def z_wake_def zero_end_def Let_def outcome_simps
      split: option.splits if_splits selected.splits\<close>)

lemma set_call_same: "me_calls a i = c \<Longrightarrow> set_call i c a = a"
  by (simp add: set_call_def fun_upd_idem)

lemma z_abs_simps [simp]:
  "me_closed (z_abs (s, ps)) = zi_disconnected (z_inner s)" "me_calls (z_abs (s, ps)) = z_calls (s, ps)"
  "me_given (z_abs (s, ps)) = z_given s" "me_got (z_abs (s, ps)) = z_got s" "me_failed (z_abs (s, ps)) = z_failed s"
  by (simp_all add: z_abs_def)

lemma calls_at: "i < length ps \<Longrightarrow> z_calls (s, ps) i = a_of (z_role s) i (ps ! i)"
  by (simp add: z_calls_def)

lemma steady_abs:
  assumes inv: "z_inv (s, ps)" and i: "i < length ps" and g: "z_guar i s s'" and st: "steady i s s'"
    and h: "same_history s s'"
  shows "z_abs (s', ps[i := pc']) = set_call i (a_of (z_role s') i pc') (z_abs (s, ps))"
  using calls_steady [OF inv i g st] h by (simp add: same_history_def z_abs_def set_call_def)

lemma own_move_sim:
  assumes inv: "z_inv (s, ps)" and i: "i < length ps" and g: "z_guar i s s'" and h: "same_history s s'"
    and own: "own_move i s (ps ! i) s' pc'"
  shows "z_abs (s', ps[i := pc']) = z_abs (s, ps) \<or> rendezvous (z_abs (s, ps)) (z_abs (s', ps[i := pc']))"
proof -
  have f: "me_calls (z_abs (s, ps)) i = a_of (z_role s) i (ps ! i)" using calls_at [OF i] by simp
  have a: "z_abs (s', ps[i := pc']) = set_call i (a_of (z_role s') i pc') (z_abs (s, ps))"
    using steady_abs [OF inv i g _ h] own by (simp add: own_move_def)
  from own f show ?thesis unfolding a own_move_def by (metis set_call_same)
qed

lemma pair_sim:
  assumes inv: "z_inv (s, ps)" and i: "i < length ps" and pc: "ps ! i = ZCrit (Xfer x) k"
    and j: "z_role s j = Some r" "j \<noteq> i" "sending (ro_x r) \<noteq> sending x" "ro_stage r = SQueued"
    and g: "z_guar i s s'" and role: "z_role s' = (z_role s)(j \<mapsto> r\<lparr>ro_stage := SPaired i x\<rparr>)"
    and disc: "zi_disconnected (z_inner s') = zi_disconnected (z_inner s)" and h: "same_history s s'"
  shows "rendezvous (z_abs (s, ps)) (z_abs (s', ps[i := ZPaired x k (zb_packet (ro_b r)) j]))"
proof -
  have jl: "j < length ps" using z_invD(3) [OF inv j(1)] .
  obtain l where l: "a_of (z_role s) j (ps ! j) = ABlock (ro_x r) l"
    "a_of (z_role s') j (ps ! j) = AFin l (x_result (ro_x r) x)"
    using queued_a_of [OF z_invD(2) [OF inv jl] j(1,4)] role by (metis fun_upd_same)
  have other: "a_of (z_role s') n (ps ! n) = a_of (z_role s) n (ps ! n)" if "n < length ps" "n \<noteq> i" "n \<noteq> j" for n
    by (rule a_of_guar [OF g that(2) z_invD(2) [OF inv that(1)]]) (simp add: role that(3))
  have "z_calls (s', ps[i := ZPaired x k (zb_packet (ro_b r)) j])
      = (z_calls (s, ps))(i := AFin k (x_result x (ro_x r)), j := AFin l (x_result (ro_x r) x))"
    using i jl other l(2) j(2) by (auto simp: z_calls_def fun_eq_iff role meets_def)
  moreover have "z_calls (s, ps) i = ADo (Xfer x) k" "z_calls (s, ps) j = ABlock (ro_x r) l"
    using calls_at [OF i, of s] calls_at [OF jl, of s] pc l(1) by simp_all
  ultimately show ?thesis using r_meet [of "z_abs (s, ps)" i x k j "ro_x r" l] j(2,3) disc h
    by (auto simp: z_abs_def set_call_def same_history_def)
qed

lemma shutdown_sim:
  assumes inv: "z_inv (s, ps)" and i: "i < length ps" and pc: "ps ! i = ZCrit OpShutdown k"
    and disc: "\<not> zi_disconnected (z_inner s)" "zi_disconnected (z_inner s')"
    and g: "z_guar i s s'" and role: "z_role s' = (\<lambda>j. map_option tell (z_role s j))" and h: "same_history s s'"
  shows "rendezvous (z_abs (s, ps)) (z_abs (s', ps[i := ZLeave k (ShutdownSaid True)]))"
proof -
  have "a_of (z_role s') n (ps ! n) = dismiss (a_of (z_role s) n (ps ! n))" if n: "n < length ps" "n \<noteq> i" for n
  proof (cases "\<exists>r. z_role s n = Some r \<and> ro_stage r = SQueued")
    case True
    then obtain r where r: "z_role s n = Some r" "ro_stage r = SQueued" by blast
    then have "z_role s' n = Some (r\<lparr>ro_stage := SDisc\<rparr>)" by (simp add: role tell_def)
    with queued_a_of [OF z_invD(2) [OF inv n(1)] r] show ?thesis by (metis acall.simps(51) dismiss_def)
  next
    case False
    then have "a_of (z_role s') n (ps ! n) = a_of (z_role s) n (ps ! n)"
      by (intro a_of_guar [OF g n(2) z_invD(2) [OF inv n(1)]]) blast
    moreover have "a_of (z_role s) n (ps ! n) \<noteq> ABlock y l" for y l
      using a_of_block [OF z_invD(2) [OF inv n(1)]] False by metis
    ultimately show ?thesis by (cases "a_of (z_role s) n (ps ! n)") (auto simp: dismiss_def)
  qed
  then have "z_calls (s', ps[i := ZLeave k (ShutdownSaid True)])
      = (\<lambda>j. dismiss (z_calls (s, ps) j))(i := AFin k (ShutdownSaid True))"
    using i by (auto simp: z_calls_def fun_eq_iff)
  moreover have "z_calls (s, ps) i = ADo OpShutdown k" using calls_at [OF i, of s] pc by simp
  ultimately show ?thesis using r_shutdown [of "z_abs (s, ps)" i k] disc h
    by (simp add: z_abs_def same_history_def)
qed

lemma crit_sim:
  assumes inv: "z_inv (s, ps)" and i: "i < length ps" and pc: "ps ! i = ZCrit op k"
    and st: "zero_go Q ws a p i s (ZCrit op k) = Done (s', pc')" and g: "z_guar i s s'"
  shows "rendezvous (z_abs (s, ps)) (z_abs (s', ps[i := pc']))"
proof -
  have ok: "z_ok s" and at: "z_at s i (ZCrit op k)" using z_invD(1,2) [OF inv] i pc by metis+
  have f: "me_calls (z_abs (s, ps)) i = ADo op k" using calls_at [OF i, of s] pc by simp
  note h = history_crit [OF st]
  note own = steady_abs [OF inv i g _ h, of pc']
  show ?thesis
  proof (cases op)
    case (Xfer x)
    note f' = f [unfolded Xfer]
    from ok at [unfolded Xfer] show ?thesis
    proof (cases rule: meet_cases [where a = a and p = p])
      case (pair j r pre post s1)
      with st Xfer pair_sim [OF inv i, of x k j r s'] pc g h show ?thesis by simp
    next
      case (none)
      have free: "nobody x (z_abs (s, ps))"
        unfolding nobody_def
      proof (intro allI impI)
        fix j y l assume b: "me_calls (z_abs (s, ps)) j = ABlock y l"
        then have "j < length ps" by (auto simp: z_calls_def split: if_splits)
        with b a_of_block [OF z_invD(2) [OF inv, of j], of y l] obtain r where
          "z_role s j = Some r" "ro_x r = y" "ro_stage r = SQueued" by (auto simp: z_calls_def)
        with none(1) show "sending y = sending x" by blast
      qed
      consider (closed) "zi_disconnected (z_inner s)" | (refuse) "\<not> zi_disconnected (z_inner s)" "x_try x"
        | (wait) "\<not> zi_disconnected (z_inner s)" "\<not> x_try x" by blast
      then show ?thesis
      proof cases
        case closed
        with none(2) st Xfer have s': "s' = s" "pc' = ZLeave k (x_closed x)" by simp_all
        then show ?thesis using own closed r_closed [OF f'] by (simp add: calm_steady)
      next
        case refuse
        with none(2) st Xfer have s': "s' = s" "pc' = ZLeave k (x_would_block x)" by simp_all
        then show ?thesis using own refuse r_would_block [OF f' _ _ free] by (simp add: calm_steady)
      next
        case wait
        with none(2) st Xfer have "zero_block i a p x k s = Done (s', pc')" by simp
        from block_good(2) [OF ok at [unfolded Xfer] wait(2,1) this] obtain b where
          b: "pc' = ZBlocked x k b" "z_role s' = (z_role s)(i \<mapsto> \<lparr>ro_x = x, ro_b = b, ro_stage = SQueued\<rparr>)"
          "zi_disconnected (z_inner s') = zi_disconnected (z_inner s)" by auto
        have "steady i s s'" using b(2,3) by (simp add: steady_def)
        with own b wait r_block [OF f' _ _ free] show ?thesis by (simp add: waits_def)
      qed
    qed
  next
    case OpShutdown
    note f' = f [unfolded OpShutdown]
    show ?thesis
    proof (cases "zi_disconnected (z_inner s)")
      case True
      with st OpShutdown have s': "s' = s" "pc' = ZLeave k (ShutdownSaid False)" by (simp_all add: zero_shutdown_def)
      then show ?thesis using own True r_shutdown_again [OF f'] by (simp add: calm_steady)
    next
      case False
      from shutdown_good [OF ok at [unfolded OpShutdown] False] obtain s1 where
        s1: "zero_shutdown k s = Done (s1, ZLeave k (ShutdownSaid True))"
        "z_role s1 = (\<lambda>j. map_option tell (z_role s j))" "zi_disconnected (z_inner s1)" by metis
      with st OpShutdown shutdown_sim [OF inv i _ False _ g _ h] pc show ?thesis by simp
    qed
  next
    case OpIsShutdown
    with st have s': "s' = s" "pc' = ZLeave k (IsShutdownSaid (zi_disconnected (z_inner s)))"
      by (auto simp: zero_is_shutdown_def)
    then show ?thesis using own r_is_shutdown [OF f [unfolded OpIsShutdown]] by (simp add: calm_steady)
  qed
qed

lemma fin_sim:
  assumes inv: "z_inv (s, ps)" and i: "i < length ps" and pc: "ps ! i = ZFin k r"
    and st: "zero_fin k r s = Done (s', pc')" and g: "z_guar i s s'"
  shows "rendezvous (z_abs (s, ps)) (z_abs (s', ps[i := pc']))"
proof -
  have f: "me_calls (z_abs (s, ps)) i = AFin k r" using calls_at [OF i, of s] pc by simp
  have ret: "zero_return k r = Done pc'" and s': "s' = s\<lparr>z_got := z_got s @ msgs_got r,
      z_failed := z_failed s @ (case pc' of ZSinkReg _ _ \<Rightarrow> [] | _ \<Rightarrow> msgs_back r)\<rparr>"
    using st by (auto simp: zero_fin_def outcome_simps)
  have res: "a_of (z_role s) i pc' = resume pc'" using zero_return_resume [OF ret] by simp
  have "(case pc' of ZSinkReg _ _ \<Rightarrow> [] | _ \<Rightarrow> msgs_back r) = (case resume pc' of ASink _ _ \<Rightarrow> [] | _ \<Rightarrow> msgs_back r)"
    by (cases pc') simp_all
  moreover have "steady i s s'" by (rule calm_steady) (simp add: s')
  ultimately show ?thesis
    using calls_steady [OF inv i g, of pc'] r_return [OF f ret] by (simp add: res s' set_call_def z_abs_def)
qed

lemma step_sim:
  assumes inv: "z_inv (s, ps)" and i: "i < length ps" and st: "zero_step Q inp i s (ps ! i) = Done (s', pc')"
  shows "z_abs (s', ps[i := pc']) = z_abs (s, ps) \<or> rendezvous (z_abs (s, ps)) (z_abs (s', ps[i := pc']))"
proof -
  note ok = z_invD(1) [OF inv] and at = z_invD(2) [OF inv i]
  have g: "z_guar i s s'" using z_inv_step(2) [OF inv i st] by (simp add: z_good_def)
  note own = own_move_sim [OF inv i g]
  show ?thesis
  proof (cases inp)
    case (ZCall c)
    with st obtain op k where c: "ps ! i = ZIdle" "first_op c = (op, k)" "pc' = ZLock op k"
      "s' = s\<lparr>z_given := z_given s @ op_msgs op\<rparr>" by (auto split: if_splits prod.splits)
    have f: "me_calls (z_abs (s, ps)) i = AIdle" using calls_at [OF i, of s] c(1) by simp
    have "steady i s s'" by (rule calm_steady) (simp add: c(4))
    with calls_steady [OF inv i g, of pc'] r_call [OF f c(2)] c show ?thesis by (simp add: set_call_def z_abs_def)
  next
    case ZTake
    with st obtain r where r: "ps ! i = ZRet r" "s' = s" "pc' = ZIdle" by (auto split: zpc.splits)
    then have "own_move i s (ps ! i) s' pc'" by (auto simp: own_move_def calm_steady intro!: r_take)
    with own r show ?thesis by simp
  next
    case (ZGo ws a p)
    note go = st [unfolded ZGo zero_step.simps]
    consider (crit) op k where "ps ! i = ZCrit op k" | (fin) k r where "ps ! i = ZFin k r"
      | (other) "\<And>op k. ps ! i \<noteq> ZCrit op k" "\<And>k r. ps ! i \<noteq> ZFin k r" by blast
    then show ?thesis
    proof cases
      case crit
      with go crit_sim [OF inv i crit _ g, of Q ws a p pc'] show ?thesis by simp
    next
      case fin
      with go fin_sim [OF inv i fin _ g, of pc'] show ?thesis by simp
    next
      case other
      show ?thesis by (rule own [OF history_go [OF go other(2)] go_own [OF ok at go other]])
    qed
  qed
qed

interpretation zero_sim: simulation "zero_step Q" z_inv z_inv z_abs rendezvous for Q :: "('q, 't) aq_ops"
proof unfold_locales
  fix s s' :: "('q, 't, 'm) zsys" and ps i inp and pc' :: "('m, 't) zpc"
  assume a: "z_inv (s, ps)" "i < length ps" "zero_step Q inp i s (ps ! i) = Done (s', pc')"
  show "z_inv (s', ps[i := pc'])" using z_inv_step(1) [OF a] .
  show "z_abs (s', ps[i := pc']) = z_abs (s, ps) \<or> rendezvous (z_abs (s, ps)) (z_abs (s', ps[i := pc']))"
    using step_sim [OF a] .
qed

end
