(* ===== verification/Zero_Props.thy ===== *)
theory Zero_Props
  imports Zero_Spec
begin

text \<open>
  The properties of the zero-capacity channel, for any number of threads that start with
  no call.
\<close>

definition zero_start ::
    "('q, 't) aq_ops \<Rightarrow> ctx_store \<Rightarrow> nat \<Rightarrow> ('q, 't, 'm) zsys \<times> ('m, 't) zpc list" where
  "zero_start Q st n = (zsys_new Q st, replicate n ZIdle)"

lemma zero_reachable_inv:
  assumes "store_ok st" "reachable (zero_step Q) (zero_start Q st n) c"
  shows "z_inv c"
  by (rule zero_sim.reachable_Inv [OF assms(2)]) (simp add: zero_start_def z_inv_start [OF assms(1)])

section \<open>A concrete run\<close>

text \<open>Thread 0 sends 7 and blocks, thread 1 receives it, and both return.\<close>

definition empty_store :: ctx_store where
  "empty_store = \<lparr>cs_mem = \<lambda>_. None, cs_next = 0, cs_cell = \<lambda>_. TlsUninit, cs_unparked = []\<rparr>"

lemma empty_store_ok: "store_ok empty_store"
  by (simp add: store_ok_def empty_store_def)

definition meet_schedule :: "(nat \<times> (nat, nat) zinput) list" where
  "meet_schedule =
     (0, ZCall (CallOp (Xfer (XSend 7)))) # replicate 4 (0, ZGo [] 8 16)
     @ (1, ZCall (CallPoll 3)) # replicate 7 (1, ZGo [] 8 32)"

definition meet_outcome :: "(((nat, nat) zpc list \<times> nat list) option)" where
  "meet_outcome = map_option (\<lambda>(s, pcs). (pcs, z_got s))
     (run (zero_step list_aq) meet_schedule (zero_start list_aq empty_store 2))"

lemma meet_run: "case meet_outcome of None \<Rightarrow> False | Some (pcs, got) \<Rightarrow>
    got = [7] \<and> pcs ! 1 = ZRet (Polled (Inr (Ready (Some 7)))) \<and> length pcs = 2
    \<and> (case pcs ! 0 of ZWait x k b \<Rightarrow> x = XSend 7 | _ \<Rightarrow> False)"
  by code_simp

lemma meet_reachable:
  obtains s :: "(nat \<times> nat list, nat, nat) zsys" and pcs :: "(nat, nat) zpc list" and b k where "reachable (zero_step list_aq) (zero_start list_aq empty_store 2) (s, pcs)"
    "z_got s = [7]" "pcs ! 1 = ZRet (Polled (Inr (Ready (Some (7 :: nat)))))" "length pcs = 2"
    "pcs ! 0 = ZWait (XSend 7) k b"
proof -
  obtain s pcs where r: "run (zero_step list_aq) meet_schedule (zero_start list_aq empty_store 2) = Some (s, pcs)"
    using meet_run by (auto simp: meet_outcome_def split: option.splits)
  with meet_run have f: "z_got s = [7]" "pcs ! 1 = ZRet (Polled (Inr (Ready (Some 7))))" "length pcs = 2"
    "case pcs ! 0 of ZWait x k b \<Rightarrow> x = XSend 7 | _ \<Rightarrow> False"
    by (simp_all add: meet_outcome_def)
  then obtain k b where "pcs ! 0 = ZWait (XSend 7) k b" by (auto split: zpc.splits)
  with that [of s pcs] run_reachable [OF r] f(1-3) show thesis by blast
qed

section \<open>Nothing goes wrong\<close>

text \<open>
  C9. Whatever any number of threads do with a zero-capacity channel, at once and in any
  order - \<open>try_send\<close>, \<open>_send\<close>, \<open>try_recv\<close>, \<open>recv\<close>, \<open>shutdown\<close>, and \<open>poll\<close> and
  \<open>start_send\<close> of the traits - no step reads or writes a packet whose owner has left its
  stack frame, no \<open>unwrap\<close> fails, no \<open>unreachable!\<close> is reached and no \<open>assert!\<close> fails.
\<close>

theorem zero_never_wrong:
  assumes "store_ok st" and "reachable (zero_step Q) (zero_start Q st n) (s, ps)" and "i < length ps"
  shows "zero_step Q inp i s (ps ! i) \<noteq> Fault \<and> zero_step Q inp i s (ps ! i) \<noteq> Panic"
proof -
  have inv: "z_inv (s, ps)" using zero_reachable_inv [OF assms(1,2)] .
  have "good_out s i (zero_step Q inp i s (ps ! i))"
    using step_good [OF z_invD(1) [OF inv] z_invD(2) [OF inv assms(3)]] .
  then show ?thesis by (auto simp: good_out_def)
qed

theorem zero_never_wrong_witness:
  "\<exists>(s :: (nat \<times> nat list, nat, nat) zsys) (pcs :: (nat, nat) zpc list). z_got s = [7] \<and> zero_step list_aq (ZGo [] 0 0) 0 s (pcs ! 0) \<noteq> Fault"
proof -
  obtain s :: "(nat \<times> nat list, nat, nat) zsys" and pcs :: "(nat, nat) zpc list" and b k where
    r: "reachable (zero_step list_aq) (zero_start list_aq empty_store 2) (s, pcs)"
    "z_got s = [7]" "length pcs = 2" by (rule meet_reachable)
  with zero_never_wrong [OF empty_store_ok r(1), of 0 "ZGo [] 0 0"] show ?thesis
    by (intro exI [of _ s] exI [of _ pcs]) simp
qed

section \<open>The channel is a rendezvous\<close>

lemma zero_refines_rendezvous_base:
  fixes c :: "('q, 't, 'm) zsys \<times> ('m, 't) zpc list"
  assumes "store_ok st" and "reachable (zero_step Q) (zero_start Q st n) c"
  shows "rendezvous\<^sup>*\<^sup>* meeting_new (z_abs c)"
proof -
  have "z_abs (zero_start Q st n :: ('q, 't, 'm) zsys \<times> ('m, 't) zpc list) = meeting_new"
    by (auto simp: z_abs_def zero_start_def meeting_new_def zsys_new_def z_inner_def zero_new_def guard_deref_def
        spinlock_new_def z_calls_def fun_eq_iff)
  moreover have "z_inv (zero_start Q st n :: ('q, 't, 'm) zsys \<times> ('m, 't) zpc list)"
    by (simp add: zero_start_def z_inv_start [OF assms(1)])
  ultimately show ?thesis using zero_sim.reachable_refines [OF assms(2)] by simp
qed



section \<open>No message is lost or duplicated\<close>

text \<open>The messages a call still has to hand on.\<close>

fun a_msgs :: "('m, 't) acall \<Rightarrow> 'm multiset" where
  "a_msgs (ADo op k) = mset (op_msgs op)"
| "a_msgs (ABlock x k) = mset (op_msgs (Xfer x))"
| "a_msgs (AFin k r) = mset (msgs_got r) + mset (msgs_back r)"
| "a_msgs (ASink t m) = {#m#}"
| "a_msgs _ = {#}"

text \<open>All calls outside \<open>T\<close> are idle, and the messages given are where they should be.\<close>

definition conserved :: "nat set \<Rightarrow> ('m, 't) meeting \<Rightarrow> bool" where
  "conserved T a \<longleftrightarrow> finite T \<and> (\<forall>i. i \<notin> T \<longrightarrow> me_calls a i = AIdle)
     \<and> mset (me_given a) = mset (me_got a) + mset (me_failed a) + (\<Sum>i\<in>T. a_msgs (me_calls a i))"

lemma sum_upd:
  fixes g :: "'c \<Rightarrow> 'm multiset"
  assumes "finite T" "i \<in> T"
  shows "(\<Sum>l\<in>T. g ((f(i := c)) l)) + g (f i) = (\<Sum>l\<in>T. g (f l)) + g c"
proof -
  have "(\<Sum>l\<in>T. g ((f(i := c)) l)) = g c + (\<Sum>l\<in>T - {i}. g (f l))"
    using sum.remove [OF assms, of "\<lambda>l. g ((f(i := c)) l)"] by simp
  moreover have "(\<Sum>l\<in>T. g (f l)) = g (f i) + (\<Sum>l\<in>T - {i}. g (f l))"
    using sum.remove [OF assms, of "\<lambda>l. g (f l)"] by simp
  ultimately show ?thesis by (simp add: ac_simps)
qed

lemma x_msgs [simp]:
  "mset (msgs_got (x_closed x)) + mset (msgs_back (x_closed x)) = mset (op_msgs (Xfer x))"
  "mset (msgs_got (x_would_block x)) + mset (msgs_back (x_would_block x)) = mset (op_msgs (Xfer x))"
  by (cases x; simp add: op_msgs_def)+

lemma x_result_msgs:
  assumes "sending x \<noteq> sending y"
  shows "a_msgs (AFin k (x_result x y)) + a_msgs (AFin l (x_result y x)) = mset (op_msgs (Xfer x)) + mset (op_msgs (Xfer y))"
  using assms by (cases x; cases y) (auto simp: x_result_def sending_def op_msgs_def)

lemma dismiss_msgs: "a_msgs (dismiss c) = a_msgs c"
  by (cases c) (auto simp: dismiss_def)

lemma return_msgs:
  "zero_return k r = Done pc \<Longrightarrow>
     mset (msgs_back r) = a_msgs (resume pc) + mset (case resume pc of ASink _ _ \<Rightarrow> [] | _ \<Rightarrow> msgs_back r)"
  by (cases k; cases r)
    (auto simp: into_inner_def split: sum.splits try_recv_error.splits recv_timeout_error.splits if_splits)

lemma conserved_set_call:
  assumes "conserved T a" "i \<in> T" "a_msgs c = a_msgs (me_calls a i)"
  shows "conserved T (set_call i c a)"
  using assms sum_upd [of T i a_msgs "me_calls a" c] by (auto simp: conserved_def set_call_def)

lemma conserved_grow:
  assumes "conserved T a"
  shows "conserved (insert i T) a"
proof (cases "i \<in> T")
  case False
  with assms show ?thesis by (auto simp: conserved_def)
qed (use assms in \<open>simp add: insert_absorb\<close>)

lemma two_exchanges:
  fixes A :: "'a multiset"
  assumes "A + p = B + q" "B + u = C + v" "v + q = u + p"
  shows "A = C"
proof (rule multiset_eqI)
  fix x
  from assms have "count (A + p) x = count (B + q) x" "count (B + u) x = count (C + v) x"
    "count (v + q) x = count (u + p) x" by simp_all
  then show "count A x = count C x" by simp
qed

lemma pay_out:
  fixes X :: "'a multiset"
  assumes "X' + (g + b) = X + p" "b = p + q" "given = got + failed + X"
  shows "given = (got + g) + (failed + q) + X'"
proof -
  have "X = X' + (g + q)" using assms(1,2) by (simp add: ac_simps)
  with assms(3) show ?thesis by (simp add: ac_simps)
qed

lemma rendezvous_conserved:
  assumes "rendezvous a b" "conserved T a"
  shows "\<exists>U. conserved U b"
proof -
  have grow: "conserved (insert i T) a" for i using conserved_grow [OF assms(2)] .
  have keep: "\<exists>U. conserved U (set_call i c a)" if "me_calls a i = c0" "a_msgs c = a_msgs c0" for i c c0
    using conserved_set_call [OF grow [of i] insertI1, of c] that by auto
  from assms(1) show ?thesis
  proof cases
    case (r_call i c op k)
    have "conserved (insert i T) b"
      using grow [of i] sum_upd [of "insert i T" i a_msgs "me_calls a" "ADo op k"] r_call
      by (auto simp: conserved_def set_call_def)
    then show ?thesis by blast
  next
    case (r_meet i x k j y l)
    let ?U = "insert j (insert i T)" and ?f = "(me_calls a)(i := AFin k (x_result x y))"
    have c: "conserved ?U a" using conserved_grow [OF grow] .
    have "(\<Sum>n\<in>?U. a_msgs ((?f(j := AFin l (x_result y x))) n)) = (\<Sum>n\<in>?U. a_msgs (me_calls a n))"
    proof (rule two_exchanges)
      show "(\<Sum>n\<in>?U. a_msgs ((?f(j := AFin l (x_result y x))) n)) + a_msgs (?f j)
          = (\<Sum>n\<in>?U. a_msgs (?f n)) + a_msgs (AFin l (x_result y x))"
        by (rule sum_upd) (use c in \<open>simp_all add: conserved_def\<close>)
      show "(\<Sum>n\<in>?U. a_msgs (?f n)) + a_msgs (me_calls a i)
          = (\<Sum>n\<in>?U. a_msgs (me_calls a n)) + a_msgs (AFin k (x_result x y))"
        by (rule sum_upd) (use c in \<open>simp_all add: conserved_def\<close>)
      show "a_msgs (AFin k (x_result x y)) + a_msgs (AFin l (x_result y x)) = a_msgs (me_calls a i) + a_msgs (?f j)"
        using x_result_msgs [OF r_meet(5), of k l] r_meet(2-4) by (simp del: a_msgs.simps(3))
    qed
    with c have "conserved ?U b" using r_meet(1) by (auto simp: conserved_def set_call_def)
    then show ?thesis by blast
  next
    case (r_shutdown i k)
    let ?g = "\<lambda>n. dismiss (me_calls a n)"
    have c: "conserved (insert i T) a" by (rule grow)
    have "(\<Sum>n\<in>insert i T. a_msgs ((?g(i := AFin k (ShutdownSaid True))) n)) = (\<Sum>n\<in>insert i T. a_msgs (me_calls a n))"
      by (rule sum.cong) (use r_shutdown(2) in \<open>auto simp: dismiss_msgs op_msgs_def\<close>)
    with c have "conserved (insert i T) b" using r_shutdown(1) by (auto simp: conserved_def)
    then show ?thesis by blast
  next
    case (r_return i k r pc)
    have c: "conserved (insert i T) a" by (rule grow)
    have "(\<Sum>n\<in>insert i T. a_msgs (((me_calls a)(i := resume pc)) n)) + a_msgs (me_calls a i)
        = (\<Sum>n\<in>insert i T. a_msgs (me_calls a n)) + a_msgs (resume pc)"
      by (rule sum_upd) (use c in \<open>simp_all add: conserved_def\<close>)
    from this [unfolded r_return(2) a_msgs.simps] have "mset (me_given a)
        = (mset (me_got a) + mset (msgs_got r)) + (mset (me_failed a)
            + mset (case resume pc of ASink _ _ \<Rightarrow> [] | _ \<Rightarrow> msgs_back r))
          + (\<Sum>n\<in>insert i T. a_msgs (((me_calls a)(i := resume pc)) n))"
      by (rule pay_out [OF _ return_msgs [OF r_return(3)]]) (use c in \<open>simp add: conserved_def\<close>)
    with c have "conserved (insert i T) b"
      by (simp add: conserved_def set_call_def r_return(1))
    then show ?thesis by blast
  qed (auto intro!: keep simp: op_msgs_def)
qed


lemma z_calls_outside: "length ps \<le> i \<Longrightarrow> z_calls (s, ps) i = AIdle"
  by (simp add: z_calls_def)

text \<open>
  C15. No message is lost, made up or duplicated by the zero-capacity channel. At any time
  the messages that were given to sends are the ones that receives have returned, the
  ones that failed sends have given back (or the sink has dropped with its error), and
  the ones of the calls that have not returned yet, each exactly once.
\<close>

theorem zero_conserves_messages:
  fixes s :: "('q, 't, 'm) zsys"
  assumes "store_ok st" and "reachable (zero_step Q) (zero_start Q st n) (s, ps)"
  shows "mset (z_given s) = mset (z_got s) + mset (z_failed s) + (\<Sum>i<length ps. a_msgs (z_calls (s, ps) i))"
proof -
  have "\<exists>U. conserved U a" if "rendezvous\<^sup>*\<^sup>* meeting_new a" for a :: "('m, 't) meeting"
    using that
  proof (induction rule: rtranclp_induct)
    case base
    show ?case by (intro exI [of _ "{}"]) (simp add: conserved_def meeting_new_def)
  next
    case (step a b)
    then show ?case using rendezvous_conserved by blast
  qed
  then obtain U where U: "conserved U (z_abs (s, ps))"
    using zero_refines_rendezvous_base [OF assms] by blast
  have "(\<Sum>i\<in>U. a_msgs (z_calls (s, ps) i)) = (\<Sum>i\<in>U \<union> {..<length ps}. a_msgs (z_calls (s, ps) i))"
    by (rule sum.mono_neutral_left) (use U in \<open>auto simp: conserved_def\<close>)
  also have "\<dots> = (\<Sum>i<length ps. a_msgs (z_calls (s, ps) i))"
    by (rule sum.mono_neutral_right) (use U in \<open>auto simp: conserved_def z_calls_outside\<close>)
  finally show ?thesis using U by (simp add: conserved_def)
qed

theorem zero_conserves_messages_witness:
  "\<exists>(s :: (nat \<times> nat list, nat, nat) zsys) (pcs :: (nat, nat) zpc list). z_got s = [7]
     \<and> mset (z_given s) = {#7#} + mset (z_failed s) + (\<Sum>i<2. a_msgs (z_calls (s, pcs) i))"
proof -
  obtain s :: "(nat \<times> nat list, nat, nat) zsys" and pcs :: "(nat, nat) zpc list" and b k where
    r: "reachable (zero_step list_aq) (zero_start list_aq empty_store 2) (s, pcs)"
    "z_got s = [7]" "length pcs = 2" by (rule meet_reachable)
  with zero_conserves_messages [OF empty_store_ok r(1)] show ?thesis
    by (intro exI [of _ s] exI [of _ pcs]) simp
qed

section \<open>Waiting\<close>

text \<open>A thread that waits in \<open>cx.wait()\<close> and has not been told anything.\<close>

definition zero_asleep :: "('q, 't, 'm) zsys \<Rightarrow> ('m, 't) zpc \<Rightarrow> 'm xfer \<Rightarrow> bool" where
  "zero_asleep s pc x \<longleftrightarrow> (\<exists>k b. pc = ZWait x k b \<and> zero_wait x k b s = Spin)"

lemma asleep_blocked:
  assumes inv: "z_inv (s, ps)" and i: "i < length ps" and a: "zero_asleep s (ps ! i) x"
  shows "\<exists>k. me_calls (z_abs (s, ps)) i = ABlock x k"
proof -
  obtain k b where pc: "ps ! i = ZWait x k b" "zero_wait x k b s = Spin" using a by (auto simp: zero_asleep_def)
  have at: "z_at s i (ZWait x k b)" using z_invD(2) [OF inv i] pc(1) by simp
  obtain sg where role: "z_role s i = Some \<lparr>ro_x = x, ro_b = b, ro_stage = sg\<rparr>"
    by (rule blockedD [OF z_invD(1) [OF inv] at, of x b]) (simp, blast)
  with zero_wait_cases(1) [OF z_invD(1) [OF inv] at role] pc(2) have "sg = SQueued" by (simp split: if_splits)
  with role pc(1) calls_at [OF i, of s] show ?thesis by (simp add: waits_def)
qed

definition waits_on :: "('m, 't) meeting \<Rightarrow> nat \<Rightarrow> 'm xfer \<Rightarrow> bool" where
  "waits_on a i x \<longleftrightarrow> (\<exists>k. me_calls a i = ABlock x k)"

definition one_sided :: "('m, 't) meeting \<Rightarrow> bool" where
  "one_sided a \<longleftrightarrow> (me_closed a \<longrightarrow> (\<forall>i x. \<not> waits_on a i x))
     \<and> (\<forall>i j x y. waits_on a i x \<longrightarrow> waits_on a j y \<longrightarrow> sending x = sending y)"

lemma one_sided_less:
  assumes "one_sided a" "me_closed b = me_closed a" "\<And>i x. waits_on b i x \<Longrightarrow> waits_on a i x"
  shows "one_sided b"
  using assms unfolding one_sided_def by blast

lemma waits_on_set_call [simp]:
  "waits_on (set_call i c a) j x \<longleftrightarrow> (if j = i then \<exists>k. c = ABlock x k else waits_on a j x)"
  "me_closed (set_call i c a) = me_closed a"
  by (simp_all add: waits_on_def set_call_def)

lemma waits_on_history [simp]:
  "waits_on (a\<lparr>me_given := g\<rparr>) j x = waits_on a j x"
  "waits_on (a\<lparr>me_got := g, me_failed := h\<rparr>) j x = waits_on a j x"
  by (simp_all add: waits_on_def)

lemma resume_not_block: "resume pc \<noteq> ABlock x l"
  by (cases pc) simp_all

lemma rendezvous_one_sided:
  assumes "rendezvous a b" "one_sided a"
  shows "one_sided b"
  using assms(1)
proof cases
  case (r_block i x k)
  have "sending y = sending x" if "waits_on a j y" for j y
    using r_block(5) that by (auto simp: nobody_def waits_on_def)
  with r_block(1,3) assms(2) show ?thesis by (auto simp: one_sided_def)
next
  case (r_shutdown i k)
  have "\<not> waits_on b j x" for j x
    by (cases "me_calls a j") (auto simp: r_shutdown(1) waits_on_def dismiss_def)
  then show ?thesis by (simp add: one_sided_def)
next
  case (r_return i k r pc)
  show ?thesis
    by (rule one_sided_less [OF assms(2)]) (auto simp: r_return(1) resume_not_block split: if_splits)
qed (rule one_sided_less [OF assms(2)]; auto split: if_splits)+

text \<open>
  C17. Nobody waits in vain. Two threads that are blocked in the channel and have not been
  told anything wait on the same side, so a blocked send never faces a blocked receive;
  and once the channel is shut down no thread is left waiting.
\<close>

theorem zero_wait_one_sided:
  fixes s :: "('q, 't, 'm) zsys"
  assumes "store_ok st" and "reachable (zero_step Q) (zero_start Q st n) (s, ps)"
    and "i < length ps" and "zero_asleep s (ps ! i) x"
  shows "\<not> zi_disconnected (z_inner s)
    \<and> (\<forall>j < length ps. \<forall>y. zero_asleep s (ps ! j) y \<longrightarrow> sending y = sending x)"
proof -
  have inv: "z_inv (s, ps)" using zero_reachable_inv [OF assms(1,2)] .
  have "one_sided a" if "rendezvous\<^sup>*\<^sup>* meeting_new a" for a :: "('m, 't) meeting"
    using that
  proof (induction rule: rtranclp_induct)
    case base
    show ?case by (simp add: one_sided_def waits_on_def meeting_new_def)
  next
    case (step a b)
    then show ?case using rendezvous_one_sided by blast
  qed
  with zero_refines_rendezvous_base [OF assms(1,2)] have "one_sided (z_abs (s, ps))" by blast
  with asleep_blocked [OF inv] assms(3,4) show ?thesis 
    unfolding one_sided_def waits_on_def by (metis z_abs_simps(1))
qed


section \<open>No deadlock\<close>

definition moves ::
    "('q, 't) aq_ops \<Rightarrow> usize \<Rightarrow> usize \<Rightarrow> ('q, 't, 'm) zsys \<Rightarrow> nat \<Rightarrow> ('m, 't) zpc \<Rightarrow> bool" where
  "moves Q a p s i pc \<longleftrightarrow> (\<exists>s' pc'. zero_step Q (ZGo [False] a p) i s pc = Done (s', pc') \<and> pc' \<noteq> pc)"

lemma register_done: "\<exists>w'. register Q [False] (Some t) w = Done w'"
  by (auto simp: register_def wk_def positive_update_fair split: option.splits prod.splits)

lemma meet_done:
  assumes ok: "z_ok s" and at: "z_at s i (ZCrit (Xfer x) k)" and fresh: "fresh_local a s" "fresh_packet p s"
  obtains s' pc' where "zero_meet i a p x k s = Done (s', pc')" "\<And>op l. pc' \<noteq> ZCrit op l"
proof -
  obtain c cached st where en: "ctx_enter i (z_store s) = (c, cached, st)" by (metis prod_cases3)
  have block: "\<exists>s' b. zero_block i a p x k s = Done (s', ZBlocked x k b)"
    using fresh en by (auto simp: zero_block_def fresh_local_hook Let_def)
  from ok at show thesis
  proof (cases rule: meet_cases [where a = a and p = p])
    case (pair j r pre post s')
    then show thesis by (intro that [of s' "ZPaired x k (zb_packet (ro_b r)) j"]) simp_all
  next
    case none
    with block that show thesis by (cases "zi_disconnected (z_inner s)"; cases "x_try x") auto
  qed
qed

text \<open>A thread with the guard, or with a packet of another thread, can always go on.\<close>

lemma busy_moves:
  assumes ok: "z_ok s" and at: "z_at s i pc" and busy: "holds pc \<or> partner_of i pc \<noteq> None"
    and fresh: "fresh_local a s" "fresh_packet p s"
  shows "moves Q a p s i pc"
proof (cases pc)
  case (ZCrit op k)
  show ?thesis
  proof (cases op)
    case (Xfer x)
    from meet_done [OF ok at [unfolded ZCrit Xfer] fresh] obtain s' pc' where
      "zero_meet i a p x k s = Done (s', pc')" "\<And>op l. pc' \<noteq> ZCrit op l" by metis
    with ZCrit Xfer show ?thesis by (auto simp: moves_def)
  next
    case OpShutdown
    show ?thesis
    proof (cases "zi_disconnected (z_inner s)")
      case False
      from shutdown_good [OF ok at [unfolded ZCrit OpShutdown] False] obtain s' where
        "zero_shutdown k s = Done (s', ZLeave k (ShutdownSaid True))" by metis
      with ZCrit OpShutdown show ?thesis by (auto simp: moves_def)
    qed (use ZCrit OpShutdown in \<open>auto simp: moves_def zero_shutdown_def Let_def\<close>)
  next
    case OpIsShutdown
    with ZCrit show ?thesis by (auto simp: moves_def zero_is_shutdown_def)
  qed
next
  case (ZMove x k q j)
  obtain s' r where "zero_move i x k q j s = Done (s', ZMark x k q j r)"
    by (rule move_good [OF ok at [unfolded ZMove]])
  with ZMove show ?thesis by (auto simp: moves_def)
next
  case (ZMark x k q j r)
  from mark_good [OF ok at [unfolded ZMark]] obtain s' where "zero_mark x k q j r s = Done (s', ZFin k r)" .
  with ZMark show ?thesis by (auto simp: moves_def)
next
  case (ZUnreg x k b)
  from unregister_good [OF ok at [unfolded ZUnreg]] obtain s' where
    "zero_unregister i x k b s = Done (s', ZUnregDrop x k b)" .
  with ZUnreg show ?thesis by (auto simp: moves_def)
qed (use busy at in \<open>auto simp: moves_def zero_wake_def z_at_def\<close>)

lemma locked_moves:
  assumes inv: "z_inv (s, ps)" and flag: "sl_flag (zc_inner (z_chan s))"
    and fresh: "fresh_local a s" "fresh_packet p s"
  shows "\<exists>j < length ps. moves Q a p s j (ps ! j)"
proof -
  obtain h where h: "z_holder s = Some h" using z_okD(6) [OF z_invD(1) [OF inv]] flag by auto
  then have hl: "h < length ps" by (rule z_invD(4) [OF inv])
  have "holds (ps ! h)" using z_invD(2) [OF inv hl] h by (simp add: z_at_def)
  with busy_moves [OF z_invD(1) [OF inv] z_invD(2) [OF inv hl] _ fresh] hl show ?thesis by blast
qed

lemma lock_moves:
  assumes "\<not> sl_flag (zc_inner (z_chan s))" "pc = ZLock op k \<or> pc = ZRelock x l b"
  shows "moves Q a p s i pc"
  using assms by (auto simp: moves_def z_lock_def swap_flag_def)

lemma ready_moves:
  assumes inv: "z_inv (s, ps)" and i: "i < length ps" and pc: "ps ! i = ZReady x k b"
    and fresh: "fresh_local a s" "fresh_packet p s"
  shows "\<exists>j < length ps. moves Q a p s j (ps ! j)"
proof -
  note ok = z_invD(1) [OF inv]
  have at: "z_at s i (ZReady x k b)" using z_invD(2) [OF inv i] pc by simp
  then obtain sg where role: "z_role s i = Some \<lparr>ro_x = x, ro_b = b, ro_stage = sg\<rparr>" "is_selected sg"
    by (auto simp: z_at_def role_at_def)
  show ?thesis
  proof (cases "is_over sg")
    case True
    with zero_ready_cases [OF ok at role(1)] pc have "moves Q a p s i (ps ! i)"
      by (auto simp: moves_def)
    with i show ?thesis by blast
  next
    case False
    with role(2) obtain j where n: "names j sg" by (cases sg) auto
    then have jl: "j < length ps" using z_invD(5) [OF inv role(1)] by simp
    have "partner_of j (ps ! j) \<noteq> None"
      using z_invD(2) [OF inv jl] role(1) n by (fastforce simp: z_at_def sole_partner_def)
    with busy_moves [OF ok z_invD(2) [OF inv jl] _ fresh] jl show ?thesis by blast
  qed
qed

text \<open>
  C16. The channel does not deadlock. As long as some call has not returned and its thread
  is not asleep, waiting for a partner, some thread can go on - it changes its place in
  the code, not only spins - whatever the others do; in particular a thread that spins on
  the lock or on the flag \<open>ready\<close> of its packet is waiting for a thread that can move.
\<close>

theorem zero_no_deadlock:
  assumes "store_ok st" and "reachable (zero_step Q) (zero_start Q st n) (s, ps)"
    and "i < length ps" and "ps ! i \<noteq> ZIdle" and "\<forall>r. ps ! i \<noteq> ZRet r" and "\<forall>x. \<not> zero_asleep s (ps ! i) x"
    and "fresh_local a s" and "fresh_packet p s"
  shows "\<exists>j < length ps. moves Q a p s j (ps ! j)"
proof -
  have inv: "z_inv (s, ps)" using zero_reachable_inv [OF assms(1,2)] .
  note ok = z_invD(1) [OF inv] and at = z_invD(2) [OF inv assms(3)]
  have self: ?thesis if "moves Q a p s i (ps ! i)" using that assms(3) by blast
  show ?thesis
  proof (cases "holds (ps ! i) \<or> partner_of i (ps ! i) \<noteq> None")
    case True
    with busy_moves [OF ok at _ assms(7,8)] self show ?thesis by blast
  next
    case False
    show ?thesis
    proof (cases "ps ! i")
      case (ZLock op k)
      with locked_moves [OF inv _ assms(7,8)] lock_moves [of s "ps ! i" op k] self show ?thesis by blast
    next
      case (ZRelock x k b)
      with locked_moves [OF inv _ assms(7,8)] lock_moves [of s "ps ! i" _ _ x k b] self show ?thesis by blast
    next
      case (ZWait x k b)
      obtain sg where role: "z_role s i = Some \<lparr>ro_x = x, ro_b = b, ro_stage = sg\<rparr>"
        using at ZWait by (auto simp: z_at_def role_at_def)
      have "sg \<noteq> SQueued"
        using assms(6) ZWait zero_wait_cases(1) [OF ok at [unfolded ZWait] role] by (auto simp: zero_asleep_def)
      with ZWait zero_wait_cases(1) [OF ok at [unfolded ZWait] role] self show ?thesis by (auto simp: moves_def)
    next
      case (ZReady x k b)
      with ready_moves [OF inv assms(3) _ assms(7,8)] show ?thesis by blast
    next
      case (ZTakeMsg x k b)
      obtain sg where role: "z_role s i = Some \<lparr>ro_x = x, ro_b = b, ro_stage = sg\<rparr>"
        using at ZTakeMsg by (auto simp: z_at_def role_at_def)
      obtain s' m r where "zero_take_msg i x k b s = Done (s', ZEnd x k b r)"
        by (rule take_msg_good [OF ok at [unfolded ZTakeMsg] role])
      with ZTakeMsg self show ?thesis by (auto simp: moves_def)
    next
      case (ZFin k r)
      obtain pc' where "zero_return k r = Done pc'" "typed pc'" "partner_of i pc' = None"
        using zero_return_ok [of k r i] at ZFin by (auto simp: z_at_def)
      moreover from this have "pc' \<noteq> ZFin k r" by (cases k; cases r) (auto split: sum.splits try_recv_error.splits recv_timeout_error.splits if_splits)
      ultimately show ?thesis using ZFin self by (auto simp: moves_def zero_fin_def)
    next
      case (ZPollFirst t)
      with self show ?thesis by (auto simp: moves_def zero_poll_first_def)
    next
      case (ZPollUpdate t)
      with self show ?thesis by (auto simp: moves_def zero_poll_update_def Let_def positive_update_fair)
    next
      case (ZPollReg t)
      with self register_done [of Q t "zc_receivers (z_chan s)"] show ?thesis
        by (auto simp: moves_def zero_poll_register_def)
    next
      case (ZSinkReg t m)
      with self register_done [of Q t "zc_senders (z_chan s)"] show ?thesis
        by (auto simp: moves_def zero_sink_register_def)
    qed (use False assms(4,5) self in \<open>auto simp: moves_def\<close>)
  qed
qed


section \<open>Polling blocks the thread\<close>

text \<open>Task 3 polls an empty channel for the first time.\<close>

definition poll_schedule :: "(nat \<times> (nat, nat) zinput) list" where
  "poll_schedule = (0, ZCall (CallPoll 3)) # replicate 10 (0, ZGo [False] 8 16)"

definition asleep_at :: "('q, 't, 'm) zsys \<Rightarrow> ('m, 't) zpc \<Rightarrow> bool" where
  "asleep_at s pc = (case pc of ZWait x k b \<Rightarrow> (case zero_wait x k b s of Spin \<Rightarrow> True | _ \<Rightarrow> False) | _ \<Rightarrow> False)"

definition xfer_at :: "('m, 't) zpc \<Rightarrow> ('m xfer \<times> 't kont) option" where
  "xfer_at pc = (case pc of ZWait x k b \<Rightarrow> Some (x, k) | _ \<Rightarrow> None)"

definition poll_outcome :: "(bool \<times> (nat xfer \<times> nat kont) option \<times> nat list) option" where
  "poll_outcome = map_option (\<lambda>(s, pcs). (asleep_at s (pcs ! 0), xfer_at (pcs ! 0), snd (w_queue (zc_receivers (z_chan s)))))
     (run (zero_step list_aq) poll_schedule (zero_start list_aq empty_store 1))"

lemma poll_run: "poll_outcome = Some (True, Some (XRecv, KPollRecv), [3])"
  by code_simp

lemma asleep_at_iff: "asleep_at s pc \<and> xfer_at pc = Some (x, k) \<longleftrightarrow> (\<exists>b. pc = ZWait x k b \<and> zero_wait x k b s = Spin)"
  by (auto simp: asleep_at_def xfer_at_def split: zpc.splits outcome.splits)

lemma poll_reachable:
  obtains s :: "(nat \<times> nat list, nat, nat) zsys" and pcs :: "(nat, nat) zpc list" and b
  where "reachable (zero_step list_aq) (zero_start list_aq empty_store 1) (s, pcs)" "pcs ! 0 = ZWait XRecv KPollRecv b"
    "zero_wait XRecv KPollRecv b s = Spin" "snd (w_queue (zc_receivers (z_chan s))) = [3]"
proof -
  obtain s pcs where r: "run (zero_step list_aq) poll_schedule (zero_start list_aq empty_store 1) = Some (s, pcs)"
    using poll_run by (auto simp: poll_outcome_def)
  with poll_run have "asleep_at s (pcs ! 0) \<and> xfer_at (pcs ! 0) = Some (XRecv, KPollRecv)"
    "snd (w_queue (zc_receivers (z_chan s))) = [3]" by (simp_all add: poll_outcome_def)
  with that run_reachable [OF r] show thesis unfolding asleep_at_iff by blast
qed

lemma reachable_length: "reachable step c0 c \<Longrightarrow> length (snd c) = length (snd c0)"
  by (induction rule: reachable.induct) simp_all

text \<open>
  C29. \<open>poll\<close> of an empty zero-capacity channel blocks its thread. The first poll registers
  its task with the task waker and then waits in \<open>recv\<close> for a sender, instead of
  returning \<open>NotReady\<close>: nothing but a send or a shutdown by another thread ends it.
\<close>

theorem zero_poll_blocks:
  "\<exists>(s :: (nat \<times> nat list, nat, nat) zsys) (pcs :: (nat, nat) zpc list).
     run (zero_step list_aq) poll_schedule (zero_start list_aq empty_store 1) = Some (s, pcs)
   \<and> zero_asleep s (pcs ! 0) XRecv \<and> snd (w_queue (zc_receivers (z_chan s))) = [3]"
proof -
  obtain s pcs where r: "run (zero_step list_aq) poll_schedule (zero_start list_aq empty_store 1) = Some (s, pcs)"
    using poll_run by (auto simp: poll_outcome_def)
  with poll_run have "asleep_at s (pcs ! 0) \<and> xfer_at (pcs ! 0) = Some (XRecv, KPollRecv)"
    "snd (w_queue (zc_receivers (z_chan s))) = [3]" by (simp_all add: poll_outcome_def)
  with r show ?thesis unfolding asleep_at_iff zero_asleep_def by blast
qed

theorem zero_wait_one_sided_witness:
  "\<exists>(s :: (nat \<times> nat list, nat, nat) zsys) (pcs :: (nat, nat) zpc list).
     zero_asleep s (pcs ! 0) XRecv \<and> \<not> zi_disconnected (z_inner s)"
proof -
  obtain s :: "(nat \<times> nat list, nat, nat) zsys" and pcs :: "(nat, nat) zpc list" and b where
    r: "reachable (zero_step list_aq) (zero_start list_aq empty_store 1) (s, pcs)"
    "pcs ! 0 = ZWait XRecv KPollRecv b" "zero_wait XRecv KPollRecv b s = Spin" by (rule poll_reachable)
  have a: "zero_asleep s (pcs ! 0) XRecv" using r(2,3) by (auto simp: zero_asleep_def)
  have "0 < length pcs" using reachable_length [OF r(1)] by (simp add: zero_start_def)
  with zero_wait_one_sided [OF empty_store_ok r(1) _ a] a show ?thesis by blast
qed

definition meet_rest :: "bool option" where
  "meet_rest = map_option (\<lambda>(s, pcs). \<not> asleep_at s (pcs ! 0) \<and> fresh_local 64 s \<and> fresh_packet 72 s)
     (run (zero_step list_aq) meet_schedule (zero_start list_aq empty_store 2))"

lemma meet_rest_run: "meet_rest = Some True"
  by code_simp

theorem zero_no_deadlock_witness:
  "\<exists>(s :: (nat \<times> nat list, nat, nat) zsys) (pcs :: (nat, nat) zpc list). z_got s = [7]
     \<and> (\<exists>j < 2. moves list_aq 64 72 s j (pcs ! j))"
proof -
  obtain s pcs where r: "run (zero_step list_aq) meet_schedule (zero_start list_aq empty_store 2) = Some (s, pcs)"
    using meet_run by (auto simp: meet_outcome_def split: option.splits)
  with meet_run meet_rest_run have f: "z_got s = [7]" "length pcs = 2" "fresh_local 64 s" "fresh_packet 72 s"
    "\<not> asleep_at s (pcs ! 0)" "case pcs ! 0 of ZWait x k b \<Rightarrow> x = XSend 7 | _ \<Rightarrow> False"
    by (simp_all add: meet_outcome_def meet_rest_def)
  have "\<forall>x. \<not> zero_asleep s (pcs ! 0) x" using f(5) by (auto simp: zero_asleep_def asleep_at_def)
  moreover have "pcs ! 0 \<noteq> ZIdle" "\<forall>r. pcs ! 0 \<noteq> ZRet r" using f(6) by auto
  ultimately show ?thesis
    using zero_no_deadlock [OF empty_store_ok run_reachable [OF r], of 0 64 72] f by auto
qed

end
