(* ===== verification/Chan_Calls.thy ===== *)
theory Chan_Calls
  imports Channel_Contract
begin

text \<open>
  The calls of the queueing channels and their answers, as the threads of the concurrent
  models make them: the calls of \<open>src/array.rs\<close> and \<open>src/list.rs\<close> have the same names and
  types.
\<close>

text \<open>Who sends: \<open>try_send\<close> or the sink for the task \<open>t\<close>, or \<open>send\<close> with its deadline.\<close>

datatype 't sender = STry 't | SSink 't | SBlock "nat option"

datatype ('m, 't) chan_call =
  CSend "'t sender" 'm | CTryRecv | CPoll 't | CShutdown | CIsShutdown | CLen

datatype 'm chan_answer =
    AnsTrySend "'m try_send_error + unit"
  | AnsSend "'m send_timeout_error + unit"
  | AnsSink "send_error + 'm async_sink"
  | AnsTryRecv "try_recv_error + 'm"
  | AnsPoll "unit + 'm option async"
  | AnsShutdown bool
  | AnsIsShutdown bool
  | AnsLen usize

text \<open>The match of \<open>start_send\<close> of the sink on what \<open>try_send\<close> returned.\<close>

definition sink_answer :: "('m try_send_error + unit) \<Rightarrow> (send_error + 'm async_sink) outcome" where
  "sink_answer r =
     (case r of
        Inr _ \<Rightarrow> Done (Inr SinkReady)
      | Inl e \<Rightarrow>
          if is_closed e then Done (Inl SendError)
          else if is_full e then Done (Inr (SinkNotReady (into_inner e)))
          else Panic)"

text \<open>What a send answers when \<open>write\<close> has returned, and when there was no room.\<close>

definition try_written :: "'m + unit \<Rightarrow> 'm try_send_error + unit" where
  "try_written r = (case r of Inl m \<Rightarrow> Inl \<lparr>tse_kind = Closed, tse_value = m\<rparr> | Inr u \<Rightarrow> Inr u)"

fun send_answer :: "'t sender \<Rightarrow> 'm + unit \<Rightarrow> 'm chan_answer outcome" where
  "send_answer (STry t) r = Done (AnsTrySend (try_written r))"
| "send_answer (SSink t) r = omap AnsSink (sink_answer (try_written r))"
| "send_answer (SBlock dl) r =
     Done (AnsSend (case r of Inl m \<Rightarrow> Inl (SendDisconnected m) | Inr u \<Rightarrow> Inr u))"

text \<open>Who receives: \<open>try_recv\<close>, \<open>poll\<close> of the stream, or the second attempt of a poll.\<close>

datatype 't receiver = RTry | RPoll 't | RAgain 't

fun recv_answer :: "'t receiver \<Rightarrow> 'm option \<Rightarrow> 'm chan_answer" where
  "recv_answer RTry (Some m) = AnsTryRecv (Inr m)"
| "recv_answer RTry None = AnsTryRecv (Inl TryRecvDisconnected)"
| "recv_answer k r = AnsPoll (Inr (Ready r))"

end
