(* ===== verification/Array_Conc.thy ===== *)
theory Array_Conc
  imports Array_Chan Chan_Calls Interleave
begin

text \<open>
  The bounded channel of \<open>src/array.rs\<close> under concurrency: \<open>try_send\<close>, \<open>send\<close>,
  \<open>try_recv\<close>, \<open>shutdown\<close>, \<open>is_shutdown\<close>, \<open>len\<close> and the traits \<open>Stream\<close> and \<open>Sink\<close> as
  the atomic steps of a thread. Every load, store or exchange of the head, the tail or a
  stamp is a step of its own, and so are the write and the read of a message; a call of an
  \<open>AtomicSerialWaker\<close> is one step. The words, the channel and the computations on them are
  those of \<open>Array_Chan\<close>. What a thread computes from a word it has just loaded belongs to
  the step that loads it.
\<close>

unbundle bit_operations_syntax

section \<open>Threads\<close>

text \<open>
  Where a thread is. \<open>SLoad\<close>: before the load of the tail in \<open>start_send\<close>; \<open>STail\<close>: it has
  an unmarked tail; \<open>SStamp\<close>: and the stamp of its slot. \<open>SWrite\<close>, \<open>SStore\<close>, \<open>SWake\<close>:
  inside \<open>write\<close>. \<open>SReg\<close>: \<open>try_send\<close> registers; \<open>SClock\<close>: \<open>send\<close> looks at the clock.
  \<open>RLoad\<close>, \<open>RHead\<close>, \<open>RStamp\<close>, \<open>REmpty\<close>: inside \<open>start_recv\<close>, the last before the load of
  the tail; \<open>RRead\<close>, \<open>RStore\<close>, \<open>RWake\<close>: inside \<open>read\<close> or \<open>poll_read\<close>. \<open>PFirst\<close> to
  \<open>PReg\<close>: inside \<open>poll\<close>. \<open>DOr\<close> to \<open>DWakeR\<close>: inside \<open>shutdown\<close>; \<open>DIs\<close>: \<open>is_shutdown\<close>.
  \<open>LTail\<close> to \<open>LCheck\<close>: inside \<open>len\<close>. \<open>RingRet\<close>: the call has returned.
  The flag of \<open>STail\<close> and \<open>SStamp\<close>, the message of \<open>RRead\<close> and the number of \<open>LCheck\<close>
  are history variables: whether the channel was full when the tail was loaded, the
  message whose slot was reserved, the number of messages when the head was loaded.
\<close>

datatype ('m, 't) array_pc =
    RingIdle
  | SLoad "'t sender" 'm
  | STail "'t sender" 'm usize bool
  | SStamp "'t sender" 'm usize usize bool
  | SWrite "'m chan_answer" 'm nat usize
  | SStore "'m chan_answer" nat usize
  | SWake "'m chan_answer"
  | SReg 't "'m chan_answer"
  | SClock "nat option" 'm
  | RLoad "'t receiver"
  | RHead "'t receiver" usize
  | RStamp "'t receiver" usize usize
  | REmpty "'t receiver" usize
  | RRead "'t receiver" nat usize 'm
  | RStore "'t receiver" nat usize 'm
  | RWake "'m chan_answer"
  | PFirst 't
  | PUpdate 't
  | PReg 't
  | DOr
  | DWakeS
  | DWakeR
  | DIs
  | LTail
  | LHead usize
  | LCheck usize usize nat
  | RingRet "'m chan_answer"

fun first_pc :: "('m, 't) chan_call \<Rightarrow> ('m, 't) array_pc" where
  "first_pc (CSend k m) = SLoad k m"
| "first_pc CTryRecv = RLoad RTry"
| "first_pc (CPoll t) = RLoad (RPoll t)"
| "first_pc CShutdown = DOr"
| "first_pc CIsShutdown = DIs"
| "first_pc CLen = LTail"

text \<open>
  The channel, and its history: the messages whose slots were reserved by senders, oldest
  first; how many of these were taken by receivers; and the slots that threads are writing
  (\<open>True\<close>) or reading, by the position of the message in the log.
\<close>

record ('q, 't, 'm) asys =
  as_chan :: "('q, 't, 'm) achan"
  as_log :: "'m list"
  as_taken :: nat
  as_own :: "nat \<Rightarrow> (bool \<times> nat) option"

definition asys_new :: "('q, 't, 'm) achan \<Rightarrow> ('q, 't, 'm) asys" where
  "asys_new ch = \<lparr>as_chan = ch, as_log = [], as_taken = 0, as_own = \<lambda>_. None\<rparr>"

definition a_own :: "nat \<Rightarrow> (bool \<times> nat) option \<Rightarrow> ('q, 't, 'm) asys \<Rightarrow> ('q, 't, 'm) asys" where
  "a_own i v s = s\<lparr>as_own := (as_own s)(i := v)\<rparr>"

definition a_set :: "('q, 't, 'm) achan \<Rightarrow> ('q, 't, 'm) asys \<Rightarrow> ('q, 't, 'm) asys" where
  "a_set ch s = s\<lparr>as_chan := ch\<rparr>"

section \<open>Sending\<close>

text \<open>The tail has been loaded: is it marked?\<close>

definition send_loaded ::
    "'t sender \<Rightarrow> 'm \<Rightarrow> ('q, 't, 'm) asys \<Rightarrow> (('q, 't, 'm) asys \<times> ('m, 't) array_pc) outcome" where
  "send_loaded k m s =
     (let tail = ac_tail (as_chan s) in
      if tail AND ac_mark_bit (as_chan s) \<noteq> 0
      then obind (send_answer k (Inl m)) (\<lambda>a. Done (s, RingRet a))
      else Done (s, STail k m tail (length (as_log s) = as_taken s + length (ac_buffer (as_chan s)))))"

text \<open>\<open>start_send\<close> has returned \<open>false\<close>.\<close>

fun send_refused :: "'t sender \<Rightarrow> 'm \<Rightarrow> ('m, 't) array_pc outcome" where
  "send_refused (STry t) m = Done (SReg t (AnsTrySend (Inl \<lparr>tse_kind = NoCapacity, tse_value = m\<rparr>)))"
| "send_refused (SSink t) m =
     obind (sink_answer (Inl \<lparr>tse_kind = NoCapacity, tse_value = m\<rparr>)) (\<lambda>a. Done (SReg t (AnsSink a)))"
| "send_refused (SBlock dl) m = Done (SClock dl m)"

definition send_stamp ::
    "'t sender \<Rightarrow> 'm \<Rightarrow> usize \<Rightarrow> bool \<Rightarrow> ('q, 't, 'm) asys
     \<Rightarrow> (('q, 't, 'm) asys \<times> ('m, 't) array_pc) outcome" where
  "send_stamp k m tail full s =
     (let index = stamp_index (as_chan s) tail in
      if index < length (ac_buffer (as_chan s))
      then Done (s, SStamp k m tail (s_stamp (ac_buffer (as_chan s) ! index)) full)
      else Fault)"

text \<open>\<open>w\<close>: the weak exchange fails spuriously.\<close>

definition send_reserve ::
    "bool \<Rightarrow> nat \<Rightarrow> 't sender \<Rightarrow> 'm \<Rightarrow> usize \<Rightarrow> usize \<Rightarrow> ('q, 't, 'm) asys
     \<Rightarrow> (('q, 't, 'm) asys \<times> ('m, 't) array_pc) outcome" where
  "send_reserve w i k m tail stamp s =
     (let ch = as_chan s in
      if tail = stamp then
        obind (next_stamp ch tail) (\<lambda>new_tail.
        if \<not> w \<and> ac_tail ch = tail
        then obind (add_chk tail 1) (\<lambda>st.
             obind (send_answer k (Inr ())) (\<lambda>a.
             Done (a_own i (Some (True, length (as_log s)))
                     (s\<lparr>as_chan := ch\<lparr>ac_tail := new_tail\<rparr>, as_log := as_log s @ [m]\<rparr>),
                   SWrite a m (stamp_index ch tail) st)))
        else send_loaded k m s)
      else
        obind (add_chk tail 1) (\<lambda>tail1.
        if stamp + ac_one_lap ch = tail1 then
          (if ac_head ch + ac_one_lap ch = tail
           then obind (send_refused k m) (\<lambda>pc. Done (s, pc))
           else Done (s, SLoad k m))
        else send_loaded k m s))"

definition send_write ::
    "'m chan_answer \<Rightarrow> 'm \<Rightarrow> nat \<Rightarrow> usize \<Rightarrow> ('q, 't, 'm) asys
     \<Rightarrow> (('q, 't, 'm) asys \<times> ('m, 't) array_pc) outcome" where
  "send_write a m index st s =
     (let ch = as_chan s in
      if index < length (ac_buffer ch)
      then Done (a_set (ch\<lparr>ac_buffer :=
                   (ac_buffer ch)[index := (ac_buffer ch ! index)\<lparr>s_msg := Some m\<rparr>]\<rparr>) s,
                 SStore a index st)
      else Fault)"

text \<open>The release of a slot: its stamp is stored, and it is no longer the thread's.\<close>

definition a_store ::
    "nat \<Rightarrow> nat \<Rightarrow> usize \<Rightarrow> ('m, 't) array_pc \<Rightarrow> ('q, 't, 'm) asys
     \<Rightarrow> (('q, 't, 'm) asys \<times> ('m, 't) array_pc) outcome" where
  "a_store i index st pc s =
     (let ch = as_chan s in
      if index < length (ac_buffer ch)
      then Done (a_own i None (a_set (ch\<lparr>ac_buffer :=
                   (ac_buffer ch)[index := (ac_buffer ch ! index)\<lparr>s_stamp := st\<rparr>]\<rparr>) s), pc)
      else Fault)"

definition wake_receiver :: "('q, 't) aq_ops \<Rightarrow> ('q, 't, 'm) asys \<Rightarrow> ('q, 't, 'm) asys" where
  "wake_receiver Q s = a_set ((as_chan s)\<lparr>ac_receivers := wake Q (ac_receivers (as_chan s))\<rparr>) s"

definition wake_sender :: "('q, 't) aq_ops \<Rightarrow> ('q, 't, 'm) asys \<Rightarrow> ('q, 't, 'm) asys" where
  "wake_sender Q s = a_set ((as_chan s)\<lparr>ac_senders := wake Q (ac_senders (as_chan s))\<rparr>) s"

definition send_register ::
    "('q, 't) aq_ops \<Rightarrow> bool list \<Rightarrow> 't \<Rightarrow> 'm chan_answer \<Rightarrow> ('q, 't, 'm) asys
     \<Rightarrow> (('q, 't, 'm) asys \<times> ('m, 't) array_pc) outcome" where
  "send_register Q ws t a s =
     obind (register Q ws (Some t) (ac_senders (as_chan s))) (\<lambda>w.
     Done (a_set ((as_chan s)\<lparr>ac_senders := w\<rparr>) s, RingRet a))"

definition send_clock ::
    "nat \<Rightarrow> nat option \<Rightarrow> 'm \<Rightarrow> ('q, 't, 'm) asys
     \<Rightarrow> (('q, 't, 'm) asys \<times> ('m, 't) array_pc) outcome" where
  "send_clock now dl m s =
     Done (s, case dl of
         Some d \<Rightarrow> if now \<ge> d then RingRet (AnsSend (Inl (SendTimeout m))) else SLoad (SBlock dl) m
       | None \<Rightarrow> SLoad (SBlock dl) m)"

section \<open>Receiving\<close>

definition recv_stamp ::
    "'t receiver \<Rightarrow> usize \<Rightarrow> ('q, 't, 'm) asys
     \<Rightarrow> (('q, 't, 'm) asys \<times> ('m, 't) array_pc) outcome" where
  "recv_stamp k head s =
     (let index = stamp_index (as_chan s) head in
      if index < length (ac_buffer (as_chan s))
      then Done (s, RStamp k head (s_stamp (ac_buffer (as_chan s) ! index)))
      else Fault)"

definition recv_reserve ::
    "bool \<Rightarrow> nat \<Rightarrow> 't receiver \<Rightarrow> usize \<Rightarrow> usize \<Rightarrow> ('q, 't, 'm) asys
     \<Rightarrow> (('q, 't, 'm) asys \<times> ('m, 't) array_pc) outcome" where
  "recv_reserve w i k head stamp s =
     (let ch = as_chan s in
      obind (add_chk head 1) (\<lambda>head1.
      if head1 = stamp then
        obind (next_stamp ch head) (\<lambda>new.
        if \<not> w \<and> ac_head ch = head
        then Done (a_own i (Some (False, as_taken s))
                     (s\<lparr>as_chan := ch\<lparr>ac_head := new\<rparr>, as_taken := Suc (as_taken s)\<rparr>),
                   RRead k (stamp_index ch head) (head + ac_one_lap ch) (as_log s ! as_taken s))
        else Done (s, RHead k (ac_head ch)))
      else if stamp = head then Done (s, REmpty k head)
      else Done (s, RHead k (ac_head ch))))"

text \<open>\<open>start_recv\<close> has returned \<open>false\<close>.\<close>

fun recv_refused :: "'t receiver \<Rightarrow> ('m, 't) array_pc" where
  "recv_refused RTry = RingRet (AnsTryRecv (Inl TryRecvEmpty))"
| "recv_refused (RPoll t) = PFirst t"
| "recv_refused (RAgain t) = RingRet (AnsPoll (Inr NotReady))"

definition recv_empty ::
    "'t receiver \<Rightarrow> usize \<Rightarrow> ('q, 't, 'm) asys
     \<Rightarrow> (('q, 't, 'm) asys \<times> ('m, 't) array_pc) outcome" where
  "recv_empty k head s =
     (let tail = ac_tail (as_chan s) in
      Done (s, if tail AND NOT (ac_mark_bit (as_chan s)) = head then
                 (if tail AND ac_mark_bit (as_chan s) \<noteq> 0 then RingRet (recv_answer k None)
                  else recv_refused k)
               else RLoad k))"

definition recv_read ::
    "'t receiver \<Rightarrow> nat \<Rightarrow> usize \<Rightarrow> ('q, 't, 'm) asys
     \<Rightarrow> (('q, 't, 'm) asys \<times> ('m, 't) array_pc) outcome" where
  "recv_read k index st s =
     (if index < length (ac_buffer (as_chan s)) then
        (case s_msg (ac_buffer (as_chan s) ! index) of
           None \<Rightarrow> Fault
         | Some m \<Rightarrow> Done (s, RStore k index st m))
      else Fault)"

section \<open>Polling, shutting down, counting\<close>

definition poll_first ::
    "'t \<Rightarrow> ('q, 't, 'm) asys \<Rightarrow> (('q, 't, 'm) asys \<times> ('m, 't) array_pc) outcome" where
  "poll_first t s =
     (if ac_first (as_chan s) then Done (a_set ((as_chan s)\<lparr>ac_first := False\<rparr>) s, PReg t)
      else Done (s, PUpdate t))"

definition poll_update ::
    "bool list \<Rightarrow> 't \<Rightarrow> ('q, 't, 'm) asys \<Rightarrow> (('q, 't, 'm) asys \<times> ('m, 't) array_pc) outcome" where
  "poll_update ws t s =
     (let r = ac_receivers (as_chan s) in
      obind (positive_update ws (w_from_me r)) (\<lambda>(hit, n).
      if hit then Done (a_set ((as_chan s)\<lparr>ac_receivers := r\<lparr>w_from_me := n\<rparr>\<rparr>) s, PReg t)
      else Done (s, RingRet (AnsPoll (Inr NotReady)))))"

definition poll_register ::
    "('q, 't) aq_ops \<Rightarrow> bool list \<Rightarrow> 't \<Rightarrow> ('q, 't, 'm) asys
     \<Rightarrow> (('q, 't, 'm) asys \<times> ('m, 't) array_pc) outcome" where
  "poll_register Q ws t s =
     obind (register Q ws (Some t) (ac_receivers (as_chan s))) (\<lambda>w.
     Done (a_set ((as_chan s)\<lparr>ac_receivers := w\<rparr>) s, RLoad (RAgain t)))"

definition shut_or ::
    "('q, 't, 'm) asys \<Rightarrow> (('q, 't, 'm) asys \<times> ('m, 't) array_pc) outcome" where
  "shut_or s =
     (let ch = as_chan s; tail = ac_tail ch in
      Done (a_set (ch\<lparr>ac_tail := tail OR ac_mark_bit ch\<rparr>) s,
            if tail AND ac_mark_bit ch = 0 then DWakeS else RingRet (AnsShutdown False)))"

definition shut_senders ::
    "('q, 't) aq_ops \<Rightarrow> ('q, 't, 'm) asys \<Rightarrow> (('q, 't, 'm) asys \<times> ('m, 't) array_pc) outcome" where
  "shut_senders Q s =
     obind (wake_all Q (ac_senders (as_chan s))) (\<lambda>w.
     Done (a_set ((as_chan s)\<lparr>ac_senders := w\<rparr>) s, DWakeR))"

definition shut_receivers ::
    "('q, 't) aq_ops \<Rightarrow> ('q, 't, 'm) asys \<Rightarrow> (('q, 't, 'm) asys \<times> ('m, 't) array_pc) outcome" where
  "shut_receivers Q s =
     obind (wake_all Q (ac_receivers (as_chan s))) (\<lambda>w.
     Done (a_set ((as_chan s)\<lparr>ac_receivers := w\<rparr>) s, RingRet (AnsShutdown True)))"

definition len_check ::
    "usize \<Rightarrow> usize \<Rightarrow> ('q, 't, 'm) asys \<Rightarrow> (('q, 't, 'm) asys \<times> ('m, 't) array_pc) outcome" where
  "len_check tail head s =
     (if ac_tail (as_chan s) = tail
      then obind (array_len_of (as_chan s) tail head) (\<lambda>n. Done (s, RingRet (AnsLen n)))
      else Done (s, LTail))"

section \<open>Steps\<close>

text \<open>
  A thread starts a call, takes its answer, or goes on; then the environment chooses the
  spurious failures and what the clock says.
\<close>

datatype ('m, 't) array_input = RingCall "('m, 't) chan_call" | RingTake | RingGo "bool list" nat

fun array_go ::
    "('q, 't) aq_ops \<Rightarrow> bool list \<Rightarrow> nat \<Rightarrow> nat \<Rightarrow> ('q, 't, 'm) asys \<Rightarrow> ('m, 't) array_pc
     \<Rightarrow> (('q, 't, 'm) asys \<times> ('m, 't) array_pc) outcome" where
  "array_go Q ws now i s RingIdle = Spin"
| "array_go Q ws now i s (SLoad k m) = send_loaded k m s"
| "array_go Q ws now i s (STail k m tail full) = send_stamp k m tail full s"
| "array_go Q ws now i s (SStamp k m tail stamp full) = send_reserve (ws = []) i k m tail stamp s"
| "array_go Q ws now i s (SWrite a m index st) = send_write a m index st s"
| "array_go Q ws now i s (SStore a index st) = a_store i index st (SWake a) s"
| "array_go Q ws now i s (SWake a) = Done (wake_receiver Q s, RingRet a)"
| "array_go Q ws now i s (SReg t a) = send_register Q ws t a s"
| "array_go Q ws now i s (SClock dl m) = send_clock now dl m s"
| "array_go Q ws now i s (RLoad k) = Done (s, RHead k (ac_head (as_chan s)))"
| "array_go Q ws now i s (RHead k head) = recv_stamp k head s"
| "array_go Q ws now i s (RStamp k head stamp) = recv_reserve (ws = []) i k head stamp s"
| "array_go Q ws now i s (REmpty k head) = recv_empty k head s"
| "array_go Q ws now i s (RRead k index st h) = recv_read k index st s"
| "array_go Q ws now i s (RStore k index st m) = a_store i index st (RWake (recv_answer k (Some m))) s"
| "array_go Q ws now i s (RWake a) = Done (wake_sender Q s, RingRet a)"
| "array_go Q ws now i s (PFirst t) = poll_first t s"
| "array_go Q ws now i s (PUpdate t) = poll_update ws t s"
| "array_go Q ws now i s (PReg t) = poll_register Q ws t s"
| "array_go Q ws now i s DOr = shut_or s"
| "array_go Q ws now i s DWakeS = shut_senders Q s"
| "array_go Q ws now i s DWakeR = shut_receivers Q s"
| "array_go Q ws now i s DIs = Done (s, RingRet (AnsIsShutdown (array_is_shutdown (as_chan s))))"
| "array_go Q ws now i s LTail = Done (s, LHead (ac_tail (as_chan s)))"
| "array_go Q ws now i s (LHead tail) =
     Done (s, LCheck tail (ac_head (as_chan s)) (length (as_log s) - as_taken s))"
| "array_go Q ws now i s (LCheck tail head n) = len_check tail head s"
| "array_go Q ws now i s (RingRet a) = Spin"

fun array_step ::
    "('q, 't) aq_ops \<Rightarrow> (('m, 't) array_input, ('q, 't, 'm) asys, ('m, 't) array_pc) thread_step" where
  "array_step Q (RingCall c) i s pc = (if pc = RingIdle then Done (s, first_pc c) else Spin)"
| "array_step Q RingTake i s pc = (case pc of RingRet a \<Rightarrow> Done (s, RingIdle) | _ \<Rightarrow> Spin)"
| "array_step Q (RingGo ws now) i s pc = array_go Q ws now i s pc"

end
