(* ===== verification/Array_Ring.thy ===== *)
theory Array_Ring
  imports Array_Conc Array_Spec
begin

text \<open>
  The invariant of the concurrent bounded channel. The slots that matter are those of the
  positions from \<open>as_taken\<close> to \<open>as_taken + cap\<close>, one for each slot of the buffer; \<open>cell\<close>
  says what is in the slot of each: a message, a slot its sender has reserved, a slot that
  is still being read, or a free one. From it: a reservation gives a thread a slot no
  other thread has, the slot of a message holds that message until it is taken, and the
  words a thread has loaded still mean what they meant.
\<close>

unbundle bit_operations_syntax

section \<open>The ring\<close>

abbreviation a_slot :: "nat \<Rightarrow> ('q, 't, 'm) asys \<Rightarrow> nat \<Rightarrow> 'm slot" where
  "a_slot cap s k \<equiv> ac_buffer (as_chan s) ! (k mod cap)"

abbreviation a_sent :: "('q, 't, 'm) asys \<Rightarrow> nat" where
  "a_sent s \<equiv> length (as_log s)"

definition busy :: "('q, 't, 'm) asys \<Rightarrow> bool \<Rightarrow> nat \<Rightarrow> bool" where
  "busy s d k \<longleftrightarrow> (\<exists>i. as_own s i = Some (d, k))"

definition cell :: "nat \<Rightarrow> nat \<Rightarrow> ('q, 't, 'm) asys \<Rightarrow> nat \<Rightarrow> bool" where
  "cell p cap s k \<longleftrightarrow>
     (if k < a_sent s then
        (if busy s True k then s_stamp (a_slot cap s k) = enc p cap k
         else s_stamp (a_slot cap s k) = enc p cap k + 1 \<and> s_msg (a_slot cap s k) = Some (as_log s ! k))
      else if cap \<le> k \<and> busy s False (k - cap) then
        s_stamp (a_slot cap s k) = enc p cap (k - cap) + 1
        \<and> s_msg (a_slot cap s k) = Some (as_log s ! (k - cap))
      else s_stamp (a_slot cap s k) = enc p cap k)"

definition owners_ok :: "nat \<Rightarrow> ('q, 't, 'm) asys \<Rightarrow> bool" where
  "owners_ok cap s \<longleftrightarrow>
     (\<forall>i k. as_own s i = Some (True, k) \<longrightarrow> as_taken s \<le> k \<and> k < a_sent s) \<and>
     (\<forall>i k. as_own s i = Some (False, k) \<longrightarrow> k < as_taken s \<and> a_sent s \<le> k + cap) \<and>
     (\<forall>i j. as_own s i = as_own s j \<longrightarrow> as_own s i \<noteq> None \<longrightarrow> i = j)"

text \<open>The constants of the channel, and its head and tail.\<close>

definition ring_shape :: "nat \<Rightarrow> nat \<Rightarrow> ('q, 't, 'm) asys \<Rightarrow> bool" where
  "ring_shape p cap s \<longleftrightarrow>
     geom p cap \<and> length (ac_buffer (as_chan s)) = cap \<and> unat (ac_cap (as_chan s)) = cap
     \<and> ac_mark_bit (as_chan s) = 2 ^ p \<and> ac_one_lap (as_chan s) = 2 ^ Suc p
     \<and> as_taken s \<le> a_sent s \<and> a_sent s \<le> as_taken s + cap
     \<and> ac_head (as_chan s) = enc p cap (as_taken s)
     \<and> ac_tail (as_chan s) = tail_word p cap (a_sent s) (array_is_shutdown (as_chan s))"

text \<open>
  The laps have not come round yet: the stamps of all positions so far, and of one lap
  more, are different words.
\<close>

definition unwrapped :: "('q, 't, 'm) asys \<Rightarrow> bool" where
  "unwrapped s \<longleftrightarrow>
     (a_sent s + unat (ac_cap (as_chan s))) * unat (ac_one_lap (as_chan s))
       < unat (ac_cap (as_chan s)) * 2 ^ 64"

definition ring :: "nat \<Rightarrow> nat \<Rightarrow> ('q, 't, 'm) asys \<Rightarrow> bool" where
  "ring p cap s \<longleftrightarrow> ring_shape p cap s \<and> owners_ok cap s \<and> unwrapped s
     \<and> (\<forall>k. as_taken s \<le> k \<longrightarrow> k < as_taken s + cap \<longrightarrow> cell p cap s k)"

lemma ring_shapeD:
  assumes "ring_shape p cap s"
  shows "geom p cap" "length (ac_buffer (as_chan s)) = cap" "unat (ac_cap (as_chan s)) = cap"
    "ac_mark_bit (as_chan s) = 2 ^ p" "ac_one_lap (as_chan s) = 2 ^ Suc p"
    "as_taken s \<le> a_sent s" "a_sent s \<le> as_taken s + cap"
    "ac_head (as_chan s) = enc p cap (as_taken s)"
    "ac_tail (as_chan s) = tail_word p cap (a_sent s) (array_is_shutdown (as_chan s))" "0 < cap"
  using assms geomD(1) unfolding ring_shape_def by blast+

lemma ringD:
  assumes "ring p cap s"
  shows "ring_shape p cap s" "owners_ok cap s" "unwrapped s"
    "as_taken s \<le> k \<Longrightarrow> k < as_taken s + cap \<Longrightarrow> cell p cap s k"
  using assms unfolding ring_def by blast+

lemma ownersD:
  assumes "owners_ok cap s"
  shows "as_own s i = Some (True, k) \<Longrightarrow> as_taken s \<le> k \<and> k < a_sent s"
    "as_own s i = Some (False, k) \<Longrightarrow> k < as_taken s \<and> a_sent s \<le> k + cap"
    "as_own s i = Some x \<Longrightarrow> as_own s j = Some x \<Longrightarrow> i = j"
  using assms unfolding owners_ok_def by force+

text \<open>What the code computes from the words of a channel of this shape.\<close>

lemma shape_index: "ring_shape p cap s \<Longrightarrow> stamp_index (as_chan s) (enc p cap k) = k mod cap"
  by (simp only: stamp_index_def ring_shapeD(4) enc_index [OF ring_shapeD(1)]
      unat_of_nat_index [OF ring_shapeD(1)])

lemma shape_next:
  assumes "ring_shape p cap s"
  shows "next_stamp (as_chan s) (enc p cap k) = Done (enc p cap (Suc k))"
proof (cases "k mod cap + 1 < cap")
  case True
  then show ?thesis
    by (simp add: next_stamp_def shape_index [OF assms] ring_shapeD(3) [OF assms]
        add_chk_enc [OF ring_shapeD(1) [OF assms]] enc_Suc_same_lap [OF ring_shapeD(1) [OF assms]])
next
  case False
  then show ?thesis
    by (simp add: next_stamp_def shape_index [OF assms] ring_shapeD(3,5) [OF assms] stamp_lap_def
        enc_lap [OF ring_shapeD(1) [OF assms]] enc_Suc_next_lap [OF ring_shapeD(1) [OF assms]]
        del: power_Suc of_nat_add of_nat_mult)
qed

lemma shape_slot: "ring_shape p cap s \<Longrightarrow> k mod cap < length (ac_buffer (as_chan s))"
  by (simp add: ring_shapeD(2,10))

lemma shape_lap: "ring_shape p cap s \<Longrightarrow> enc p cap k + ac_one_lap (as_chan s) = enc p cap (k + cap)"
  by (simp only: ring_shapeD(5) enc_add_cap [OF ring_shapeD(1)])

lemma shape_tail:
  assumes "ring_shape p cap s"
  shows "ac_tail (as_chan s) AND ac_mark_bit (as_chan s) \<noteq> 0 \<longleftrightarrow> array_is_shutdown (as_chan s)"
    "ac_tail (as_chan s) AND NOT (ac_mark_bit (as_chan s)) = enc p cap (a_sent s)"
    "\<not> array_is_shutdown (as_chan s) \<Longrightarrow> ac_tail (as_chan s) = enc p cap (a_sent s)"
proof -
  note D = ring_shapeD [OF assms]
  show "ac_tail (as_chan s) AND ac_mark_bit (as_chan s) \<noteq> 0 \<longleftrightarrow> array_is_shutdown (as_chan s)"
    by (simp add: array_is_shutdown_def)
  show "ac_tail (as_chan s) AND NOT (ac_mark_bit (as_chan s)) = enc p cap (a_sent s)"
    by (simp only: D(4,9) tail_word_masks [OF D(1)])
  show "\<not> array_is_shutdown (as_chan s) \<Longrightarrow> ac_tail (as_chan s) = enc p cap (a_sent s)"
    using D(9) by (simp add: tail_word_def)
qed

lemma unwrapped_div:
  assumes "ring_shape p cap s" "unwrapped s" "j \<le> a_sent s + cap"
  shows "j div cap < 2 ^ (63 - p)"
proof -
  note D = ring_shapeD [OF assms(1)]
  have "unat (ac_one_lap (as_chan s)) = 2 ^ Suc p"
    using geomD(3) [OF D(1)] by (simp only: D(5)) (rule unat_exp_64, simp)
  then have "(a_sent s + cap) * 2 ^ Suc p < cap * 2 ^ 64"
    using assms(2) D(3) unfolding unwrapped_def by simp
  also have "(2 :: nat) ^ 64 = 2 ^ (63 - p) * 2 ^ Suc p"
    using geomD(3) [OF D(1)] by (simp flip: power_add)
  finally have "a_sent s + cap < cap * 2 ^ (63 - p)"
    by (simp only: mult.assoc [symmetric] mult_less_cancel2)
  with assms(3) have "j < 2 ^ (63 - p) * cap" by (simp add: mult.commute)
  then show ?thesis by (simp add: div_less_iff_less_mult D(10))
qed

lemma ring_enc_eq:
  assumes "ring p cap s" "j \<le> a_sent s + cap" "k \<le> a_sent s + cap"
  shows "enc p cap j = enc p cap k \<longleftrightarrow> j = k"
  using enc_eq_iff [OF ring_shapeD(1)] unwrapped_div ringD(1,3) [OF assms(1)] assms(2,3) by metis

lemma ring_tail_eq:
  assumes r: "ring p cap s" and j: "j \<le> a_sent s" and t: "ac_tail (as_chan s) = tail_word p cap j d"
  shows "a_sent s = j" "array_is_shutdown (as_chan s) = d"
proof -
  note R = ringD(1) [OF r] and D = ring_shapeD [OF ringD(1) [OF r]]
  have "enc p cap (a_sent s) = enc p cap j"
    using shape_tail(2) [OF R] tail_word_masks(2) [OF D(1), of j d] by (simp only: t D(4))
  then show "a_sent s = j" using ring_enc_eq [OF r] j by simp
  show "array_is_shutdown (as_chan s) = d"
    using tail_word_masks(1) [OF D(1), of j d] by (simp only: array_is_shutdown_def t D(4))
qed

section \<open>Free slots and messages\<close>

definition free :: "nat \<Rightarrow> nat \<Rightarrow> ('q, 't, 'm) asys \<Rightarrow> nat \<Rightarrow> bool" where
  "free p cap s j \<longleftrightarrow> j < as_taken s + cap \<and> s_stamp (a_slot cap s j) = enc p cap j"

definition ready :: "nat \<Rightarrow> nat \<Rightarrow> ('q, 't, 'm) asys \<Rightarrow> nat \<Rightarrow> bool" where
  "ready p cap s j \<longleftrightarrow> j < a_sent s \<and> s_stamp (a_slot cap s j) = enc p cap j + 1"

lemma ring_free:
  assumes r: "ring p cap s" and st: "s_stamp (a_slot cap s (a_sent s)) = enc p cap (a_sent s)"
  shows "free p cap s (a_sent s)" "\<not> (cap \<le> a_sent s \<and> busy s False (a_sent s - cap))"
proof -
  note D = ring_shapeD [OF ringD(1) [OF r]]
  have "a_sent s \<noteq> as_taken s + cap"
  proof
    assume full: "a_sent s = as_taken s + cap"
    have "cell p cap s (as_taken s)" using ringD(4) [OF r] D(10) by simp
    then have "s_stamp (a_slot cap s (as_taken s)) = enc p cap (as_taken s)
        \<or> s_stamp (a_slot cap s (as_taken s)) = enc p cap (as_taken s) + 1"
      using full D(10) by (auto simp: cell_def split: if_splits)
    then show False
      using st full enc_add_cap_neq [OF D(1), of "as_taken s"]
        enc_Suc_neq [OF D(1), of "as_taken s" "as_taken s + cap"] by auto
  qed
  with D(7) have lt: "a_sent s < as_taken s + cap" by simp
  with st show "free p cap s (a_sent s)" by (simp add: free_def)
  show "\<not> (cap \<le> a_sent s \<and> busy s False (a_sent s - cap))"
    using ringD(4) [OF r D(6) lt] st enc_Suc_neq [OF D(1), of "a_sent s - cap" "a_sent s"]
      le_mod_geq [of cap "a_sent s"]
    by (auto simp: cell_def)
qed

lemma ring_ready:
  assumes r: "ring p cap s" and st: "s_stamp (a_slot cap s (as_taken s)) = enc p cap (as_taken s) + 1"
  shows "ready p cap s (as_taken s)" "\<not> busy s True (as_taken s)"
    "s_msg (a_slot cap s (as_taken s)) = Some (as_log s ! as_taken s)"
proof -
  note D = ring_shapeD [OF ringD(1) [OF r]]
  have c: "cell p cap s (as_taken s)" using ringD(4) [OF r] D(10) by simp
  have "as_taken s < a_sent s"
  proof (rule ccontr)
    assume "\<not> as_taken s < a_sent s"
    then have "enc p cap (as_taken s - cap) + 1 = enc p cap (as_taken s) + 1 \<and> cap \<le> as_taken s"
      using c st by (auto simp: cell_def split: if_splits)
    then show False using enc_add_cap_neq [OF D(1), of "as_taken s - cap"] by simp
  qed
  with c st show "ready p cap s (as_taken s)" "\<not> busy s True (as_taken s)"
    "s_msg (a_slot cap s (as_taken s)) = Some (as_log s ! as_taken s)"
    by (auto simp: cell_def ready_def split: if_splits)
qed

text \<open>A slot that a thread owns is that of a position of the window of its own.\<close>

definition owned_position :: "nat \<Rightarrow> bool \<times> nat \<Rightarrow> nat" where
  "owned_position cap x = (if fst x then snd x else snd x + cap)"

lemma owned_position_mod [simp]: "owned_position cap (d, k) mod cap = k mod cap"
  by (simp add: owned_position_def)

lemma owned_window:
  assumes "owners_ok cap s" "as_own s i = Some x" "as_taken s \<le> a_sent s" "a_sent s \<le> as_taken s + cap"
  shows "as_taken s \<le> owned_position cap x" "owned_position cap x < as_taken s + cap"
  using assms ownersD(1,2) [OF assms(1), of i "snd x"]
  by (cases x; cases "fst x"; fastforce simp: owned_position_def)+

lemma window_inj:
  assumes "h \<le> j" "j < h + cap" "h \<le> k" "k < h + cap" "j mod cap = k mod (cap :: nat)"
  shows "j = k"
  using mod_window [of j cap k] mod_window [of k cap j] assms by (cases "j \<le> k") auto

lemma owned_slots_apart:
  assumes r: "ring p cap s" and o: "as_own s i = Some (d, k)" "as_own s j = Some (e, l)" "i \<noteq> j"
  shows "k mod cap \<noteq> l mod cap"
proof
  note D = ring_shapeD [OF ringD(1) [OF r]] and O = ringD(2) [OF r]
  assume "k mod cap = l mod cap"
  then have "owned_position cap (d, k) mod cap = owned_position cap (e, l) mod cap" by simp
  from window_inj [OF owned_window [OF O o(1) D(6,7)] owned_window [OF O o(2) D(6,7)] this]
  have eq: "owned_position cap (d, k) = owned_position cap (e, l)" .
  show False
  proof (cases "d = e")
    case True
    with eq have "k = l" by (simp add: owned_position_def split: if_splits)
    with o True show False using ownersD(3) [OF O o(1)] by blast
  next
    case False
    then show False
      using eq ownersD(1,2) [OF O, of i k] ownersD(1,2) [OF O, of j l] o
      by (cases d; cases e) (auto simp: owned_position_def)
  qed
qed

end
