(* ===== verification/Array_Steps.thy ===== *)
theory Array_Steps
  imports Array_Ring
begin

text \<open>
  Every step of a thread of the concurrent bounded channel keeps the ring and what each
  thread knows. \<open>a_at s i pc\<close> is what thread \<open>i\<close> at \<open>pc\<close> knows: a word it has loaded is
  that of a position the channel has reached, a stamp it has loaded says that its slot is
  free or ready as long as the tail or the head has not moved, and a slot it has reserved
  is its own. \<open>a_guar i s s'\<close> is what a step of thread \<open>i\<close> may do to the others.
\<close>

unbundle bit_operations_syntax

section \<open>What a thread knows\<close>

definition sees_tail ::
    "nat \<Rightarrow> nat \<Rightarrow> ('q, 't, 'm) asys \<Rightarrow> usize \<Rightarrow> bool \<Rightarrow> nat \<Rightarrow> bool" where
  "sees_tail p cap s tail full j \<longleftrightarrow>
     tail = enc p cap j \<and> j \<le> a_sent s \<and> (as_taken s + cap = j \<longrightarrow> full)"

definition sees_head :: "nat \<Rightarrow> nat \<Rightarrow> ('q, 't, 'm) asys \<Rightarrow> usize \<Rightarrow> nat \<Rightarrow> bool" where
  "sees_head p cap s head j \<longleftrightarrow> head = enc p cap j \<and> j \<le> as_taken s"

definition has_slot :: "nat \<Rightarrow> ('q, 't, 'm) asys \<Rightarrow> nat \<Rightarrow> bool \<Rightarrow> nat \<Rightarrow> nat \<Rightarrow> bool" where
  "has_slot cap s i d index j \<longleftrightarrow> as_own s i = Some (d, j) \<and> index = j mod cap"

text \<open>The answers of all calls but \<open>len\<close>.\<close>

definition plain :: "'m chan_answer \<Rightarrow> bool" where
  "plain a = (case a of AnsLen _ \<Rightarrow> False | _ \<Rightarrow> True)"

fun a_at :: "nat \<Rightarrow> nat \<Rightarrow> ('q, 't, 'm) asys \<Rightarrow> nat \<Rightarrow> ('m, 't) array_pc \<Rightarrow> bool" where
  "a_at p cap s i (STail k m tail full) \<longleftrightarrow>
     as_own s i = None \<and> (\<exists>j. sees_tail p cap s tail full j)"
| "a_at p cap s i (SStamp k m tail stamp full) \<longleftrightarrow>
     as_own s i = None \<and> (\<exists>j. sees_tail p cap s tail full j
       \<and> (stamp = tail \<longrightarrow> j = a_sent s \<longrightarrow> free p cap s j))"
| "a_at p cap s i (SWrite a m index st) \<longleftrightarrow>
     plain a \<and> (\<exists>j. has_slot cap s i True index j \<and> st = enc p cap j + 1 \<and> as_log s ! j = m)"
| "a_at p cap s i (SStore a index st) \<longleftrightarrow>
     plain a \<and> (\<exists>j. has_slot cap s i True index j \<and> st = enc p cap j + 1
       \<and> s_msg (a_slot cap s j) = Some (as_log s ! j))"
| "a_at p cap s i (SWake a) \<longleftrightarrow> as_own s i = None \<and> plain a"
| "a_at p cap s i (SReg t a) \<longleftrightarrow> as_own s i = None \<and> plain a"
| "a_at p cap s i (RHead k head) \<longleftrightarrow> as_own s i = None \<and> (\<exists>j. sees_head p cap s head j)"
| "a_at p cap s i (RStamp k head stamp) \<longleftrightarrow>
     as_own s i = None \<and> (\<exists>j. sees_head p cap s head j
       \<and> (stamp = head + 1 \<longrightarrow> j = as_taken s \<longrightarrow> ready p cap s j))"
| "a_at p cap s i (REmpty k head) \<longleftrightarrow> as_own s i = None \<and> (\<exists>j. sees_head p cap s head j)"
| "a_at p cap s i (RRead k index st m) \<longleftrightarrow>
     (\<exists>j. has_slot cap s i False index j \<and> st = enc p cap (j + cap) \<and> m = as_log s ! j)"
| "a_at p cap s i (RStore k index st m) \<longleftrightarrow>
     (\<exists>j. has_slot cap s i False index j \<and> st = enc p cap (j + cap) \<and> m = as_log s ! j)"
| "a_at p cap s i (RWake a) \<longleftrightarrow> as_own s i = None \<and> plain a"
| "a_at p cap s i (LHead tail) \<longleftrightarrow>
     as_own s i = None \<and> (\<exists>j d. tail = tail_word p cap j d \<and> j \<le> a_sent s)"
| "a_at p cap s i (LCheck tail head n) \<longleftrightarrow>
     as_own s i = None \<and> (\<exists>j d. tail = tail_word p cap j d \<and> j \<le> a_sent s
       \<and> (j = a_sent s \<longrightarrow> (\<exists>h. head = enc p cap h \<and> j = h + n \<and> n \<le> cap)))"
| "a_at p cap s i (RingRet a) \<longleftrightarrow>
     as_own s i = None \<and> (case a of AnsLen n \<Rightarrow> unat n \<le> cap | _ \<Rightarrow> True)"
| "a_at p cap s i pc \<longleftrightarrow> as_own s i = None"

section \<open>What a step may do to other threads\<close>

definition a_guar :: "nat \<Rightarrow> nat \<Rightarrow> nat \<Rightarrow> ('q, 't, 'm) asys \<Rightarrow> ('q, 't, 'm) asys \<Rightarrow> bool" where
  "a_guar p cap i s s' \<longleftrightarrow>
     as_taken s \<le> as_taken s' \<and> a_sent s \<le> a_sent s'
     \<and> (\<forall>k < a_sent s. as_log s' ! k = as_log s ! k)
     \<and> (\<forall>j. j \<noteq> i \<longrightarrow> as_own s' j = as_own s j)
     \<and> (\<forall>j d k. j \<noteq> i \<longrightarrow> as_own s j = Some (d, k) \<longrightarrow> a_slot cap s' k = a_slot cap s k)
     \<and> (a_sent s' = a_sent s \<longrightarrow> free p cap s (a_sent s) \<longrightarrow> free p cap s' (a_sent s))
     \<and> (as_taken s' = as_taken s \<longrightarrow> ready p cap s (as_taken s) \<longrightarrow> ready p cap s' (as_taken s))"

lemma a_guarD:
  assumes "a_guar p cap i s s'"
  shows "as_taken s \<le> as_taken s'" "a_sent s \<le> a_sent s'"
    "k < a_sent s \<Longrightarrow> as_log s' ! k = as_log s ! k"
    "j \<noteq> i \<Longrightarrow> as_own s' j = as_own s j"
    "j \<noteq> i \<Longrightarrow> as_own s j = Some (d, k) \<Longrightarrow> a_slot cap s' k = a_slot cap s k"
    "a_sent s' = a_sent s \<Longrightarrow> free p cap s (a_sent s) \<Longrightarrow> free p cap s' (a_sent s)"
    "as_taken s' = as_taken s \<Longrightarrow> ready p cap s (as_taken s) \<Longrightarrow> ready p cap s' (as_taken s)"
  using assms unfolding a_guar_def by blast+

lemma sees_tail_guar:
  assumes g: "a_guar p cap i s s'" and le: "a_sent s' \<le> as_taken s' + cap" "a_sent s \<le> as_taken s + cap"
    and t: "sees_tail p cap s tail full j"
  shows "sees_tail p cap s' tail full j"
  using t a_guarD(1,2) [OF g] le by (auto simp: sees_tail_def)

lemma sees_head_guar:
  "a_guar p cap i s s' \<Longrightarrow> sees_head p cap s head j \<Longrightarrow> sees_head p cap s' head j"
  using a_guarD(1) [of p cap i s s'] by (auto simp: sees_head_def)

lemma owned_logged:
  assumes r: "ring p cap s" and o: "as_own s i = Some (d, j)"
  shows "j < a_sent s"
  using ownersD(1,2) [OF ringD(2) [OF r], of i j] o ring_shapeD(6) [OF ringD(1) [OF r]]
  by (cases d) auto

lemma a_at_guar:
  assumes g: "a_guar p cap i s s'" and ne: "j \<noteq> i" and r: "ring p cap s" "ring p cap s'"
    and a: "a_at p cap s j pc"
  shows "a_at p cap s' j pc"
proof -
  note G = a_guarD [OF g] and own = a_guarD(4,5) [OF g ne]
    and le = ring_shapeD(7) [OF ringD(1) [OF r(2)]] ring_shapeD(7) [OF ringD(1) [OF r(1)]]
  note log = a_guarD(3) [OF g owned_logged [OF r(1)]]
  show ?thesis
  proof (cases pc)
    case (STail k m tail full)
    with a show ?thesis using own(1) sees_tail_guar [OF g le] by auto
  next
    case (SStamp k m tail stamp full)
    with a obtain l where l: "as_own s j = None" "sees_tail p cap s tail full l"
      "stamp = tail \<Longrightarrow> l = a_sent s \<Longrightarrow> free p cap s l" by auto
    have "free p cap s' l" if "stamp = tail" "l = a_sent s'"
    proof -
      have "l \<le> a_sent s" using l(2) by (simp add: sees_tail_def)
      with that(2) G(2) have "l = a_sent s" "a_sent s' = a_sent s" by simp_all
      with l(3) that(1) G(6) show ?thesis by simp
    qed
    with SStamp l own(1) sees_tail_guar [OF g le l(2)] show ?thesis by auto
  next
    case (RStamp k head stamp)
    with a obtain l where l: "as_own s j = None" "sees_head p cap s head l"
      "stamp = head + 1 \<Longrightarrow> l = as_taken s \<Longrightarrow> ready p cap s l" by auto
    have "ready p cap s' l" if "stamp = head + 1" "l = as_taken s'"
    proof -
      have "l \<le> as_taken s" using l(2) by (simp add: sees_head_def)
      with that(2) G(1) have "l = as_taken s" "as_taken s' = as_taken s" by simp_all
      with l(3) that(1) G(7) show ?thesis by simp
    qed
    with RStamp l own(1) sees_head_guar [OF g l(2)] show ?thesis by auto
  next
    case (LCheck tail head n)
    with a obtain l d where l: "as_own s j = None" "tail = tail_word p cap l d" "l \<le> a_sent s"
      "l = a_sent s \<Longrightarrow> \<exists>h. head = enc p cap h \<and> l = h + n \<and> n \<le> cap" by auto
    then have "l = a_sent s' \<Longrightarrow> \<exists>h. head = enc p cap h \<and> l = h + n \<and> n \<le> cap"
      using G(2) by simp
    with LCheck l G(2) own(1) show ?thesis using order_trans by auto
  next
    case (LHead tail)
    with a G(2) own(1) show ?thesis using order_trans by fastforce
  next
    case (RHead k head)
    with a own(1) show ?thesis using sees_head_guar [OF g] by simp blast
  next
    case (REmpty k head)
    with a own(1) show ?thesis using sees_head_guar [OF g] by simp blast
  qed (use a own log in \<open>auto simp: has_slot_def\<close>)
qed

section \<open>Steps that leave the ring alone\<close>

definition a_calm :: "('q, 't, 'm) asys \<Rightarrow> ('q, 't, 'm) asys \<Rightarrow> bool" where
  "a_calm s s' \<longleftrightarrow> as_log s' = as_log s \<and> as_taken s' = as_taken s \<and> as_own s' = as_own s
     \<and> ac_head (as_chan s') = ac_head (as_chan s) \<and> ac_tail (as_chan s') = ac_tail (as_chan s)
     \<and> ac_buffer (as_chan s') = ac_buffer (as_chan s) \<and> ac_cap (as_chan s') = ac_cap (as_chan s)
     \<and> ac_one_lap (as_chan s') = ac_one_lap (as_chan s)
     \<and> ac_mark_bit (as_chan s') = ac_mark_bit (as_chan s)"

lemma a_calm_simps [simp]:
  "a_calm s s" "a_calm s (a_set ((as_chan s)\<lparr>ac_senders := w\<rparr>) s)"
  "a_calm s (a_set ((as_chan s)\<lparr>ac_receivers := w\<rparr>) s)"
  "a_calm s (a_set ((as_chan s)\<lparr>ac_first := b\<rparr>) s)"
  by (simp_all add: a_calm_def a_set_def)

lemma a_calm_ring: "a_calm s s' \<Longrightarrow> ring p cap s' = ring p cap s"
  by (simp add: a_calm_def ring_def ring_shape_def owners_ok_def unwrapped_def cell_def busy_def
      array_is_shutdown_def cong: if_cong)

lemma a_calm_guar: "a_calm s s' \<Longrightarrow> a_guar p cap i s s'"
  by (simp add: a_calm_def a_guar_def free_def ready_def)

lemma a_calm_own: "a_calm s s' \<Longrightarrow> as_own s' = as_own s"
  by (simp add: a_calm_def)

section \<open>Steps that reserve and release a slot\<close>

lemma array_is_shutdown_frame [simp]:
  "array_is_shutdown (ch\<lparr>ac_buffer := b\<rparr>) = array_is_shutdown ch"
  "array_is_shutdown (ch\<lparr>ac_head := h\<rparr>) = array_is_shutdown ch"
  by (simp_all add: array_is_shutdown_def)

lemma ownersI:
  assumes "\<And>i k. as_own s i = Some (True, k) \<Longrightarrow> as_taken s \<le> k \<and> k < a_sent s"
    and "\<And>i k. as_own s i = Some (False, k) \<Longrightarrow> k < as_taken s \<and> a_sent s \<le> k + cap"
    and "\<And>i j x. as_own s i = Some x \<Longrightarrow> as_own s j = Some x \<Longrightarrow> i = j"
  shows "owners_ok cap s"
  unfolding owners_ok_def using assms by (metis option.exhaust)

lemma ring_free_reader:
  assumes "ring p cap s" "s_stamp (a_slot cap s (a_sent s)) = enc p cap (a_sent s)"
    and "as_own s i = Some (False, k)"
  shows "a_sent s < k + cap"
  using ownersD(2) [OF ringD(2) [OF assms(1)] assms(3)] ring_free(2) [OF assms(1,2)] assms(3)
  by (cases "a_sent s = k + cap") (auto simp: busy_def)

text \<open>The tail moves over a free slot, which the thread then owns.\<close>

lemma reserve_send:
  assumes r: "ring p cap s" and own: "as_own s i = None" and opn: "\<not> array_is_shutdown (as_chan s)"
    and f: "free p cap s (a_sent s)"
    and s': "s' = a_own i (Some (True, a_sent s))
      (s\<lparr>as_chan := (as_chan s)\<lparr>ac_tail := enc p cap (Suc (a_sent s))\<rparr>, as_log := as_log s @ [m]\<rparr>)"
    and u: "unwrapped s'"
  shows "ring p cap s'" "a_guar p cap i s s'"
proof -
  note R = ringD(1) [OF r] note D = ring_shapeD [OF R] and O = ringD(2) [OF r]
  let ?N = "a_sent s" and ?H = "as_taken s"
  have lt: "?N < ?H + cap" using f by (simp add: free_def)
  have st: "s_stamp (a_slot cap s ?N) = enc p cap ?N" using f by (simp add: free_def)
  note nb = ring_free(2) [OF r st]
  have eqs: "as_taken s' = ?H" "a_sent s' = Suc ?N" "as_own s' = (as_own s)(i := Some (True, ?N))"
    "ac_buffer (as_chan s') = ac_buffer (as_chan s)" "as_log s' = as_log s @ [m]"
    by (simp_all add: s' a_own_def)
  have shut: "\<not> array_is_shutdown (as_chan s')"
    using enc_and_mark [OF D(1), of "Suc ?N"] by (simp add: s' a_own_def array_is_shutdown_def D(4))
  have "ring_shape p cap s'"
    using D lt shut by (simp add: ring_shape_def s' a_own_def tail_word_def)
  moreover have "owners_ok cap s'"
  proof (rule ownersI)
    fix j k
    show "as_own s' j = Some (True, k) \<Longrightarrow> as_taken s' \<le> k \<and> k < a_sent s'"
      using ownersD(1) [OF O, of j k] D(6) by (auto simp: eqs split: if_splits)
    show "as_own s' j = Some (False, k) \<Longrightarrow> k < as_taken s' \<and> a_sent s' \<le> k + cap"
      using ownersD(2) [OF O, of j k] ring_free_reader [OF r st, of j k]
      by (auto simp: eqs split: if_splits)
  next
    fix j l x
    assume "as_own s' j = Some x" "as_own s' l = Some x"
    then show "j = l"
      using ownersD(3) [OF O, of j x l] ownersD(1) [OF O, of _ ?N] by (auto simp: eqs split: if_splits)
  qed
  moreover have "cell p cap s' k" if "?H \<le> k" "k < ?H + cap" for k
  proof -
    have b: "busy s' True j \<longleftrightarrow> j = ?N \<or> busy s True j" "busy s' False j \<longleftrightarrow> busy s False j" for j
      using own by (auto simp: busy_def eqs) (metis option.distinct(1))+
    have "cap \<le> k \<Longrightarrow> k - cap < ?N" using that(2) D(6) by linarith
    then show ?thesis
      using ringD(4) [OF r that] st nb
      by (cases "k = ?N") (auto simp: cell_def eqs b nth_append less_Suc_eq split: if_splits)
  qed
  ultimately show "ring p cap s'" using u by (simp add: ring_def eqs)
  show "a_guar p cap i s s'"
    by (auto simp: a_guar_def eqs nth_append free_def ready_def)
qed

text \<open>The head moves over a message, whose slot the thread then owns.\<close>

lemma reserve_recv:
  assumes r: "ring p cap s" and own: "as_own s i = None" and f: "ready p cap s (as_taken s)"
    and s': "s' = a_own i (Some (False, as_taken s))
      (s\<lparr>as_chan := (as_chan s)\<lparr>ac_head := enc p cap (Suc (as_taken s))\<rparr>, as_taken := Suc (as_taken s)\<rparr>)"
  shows "ring p cap s'" "a_guar p cap i s s'"
proof -
  note R = ringD(1) [OF r] note D = ring_shapeD [OF R] and O = ringD(2) [OF r]
  let ?N = "a_sent s" and ?H = "as_taken s"
  have lt: "?H < ?N" using f by (simp add: ready_def)
  have st: "s_stamp (a_slot cap s ?H) = enc p cap ?H + 1" using f by (simp add: ready_def)
  note rd = ring_ready [OF r st]
  have eqs: "as_taken s' = Suc ?H" "as_log s' = as_log s" "as_own s' = (as_own s)(i := Some (False, ?H))"
    "ac_buffer (as_chan s') = ac_buffer (as_chan s)"
    by (simp_all add: s' a_own_def)
  have "ring_shape p cap s'"
    using D lt by (simp add: ring_shape_def s' a_own_def)
  moreover have "owners_ok cap s'"
  proof (rule ownersI)
    fix j k
    show "as_own s' j = Some (True, k) \<Longrightarrow> as_taken s' \<le> k \<and> k < a_sent s'"
      using ownersD(1) [OF O, of j k] rd(2) by (auto simp: eqs busy_def Suc_le_eq le_less split: if_splits)
    show "as_own s' j = Some (False, k) \<Longrightarrow> k < as_taken s' \<and> a_sent s' \<le> k + cap"
      using ownersD(2) [OF O, of j k] D(7) by (auto simp: eqs split: if_splits)
  next
    fix j l x
    assume "as_own s' j = Some x" "as_own s' l = Some x"
    then show "j = l"
      using ownersD(3) [OF O, of j x l] ownersD(2) [OF O, of _ ?H] by (auto simp: eqs split: if_splits)
  qed
  moreover have "cell p cap s' k" if k: "Suc ?H \<le> k" "k < Suc ?H + cap" for k
  proof -
    have b: "busy s' False j \<longleftrightarrow> j = ?H \<or> busy s False j" "busy s' True j \<longleftrightarrow> busy s True j" for j
      using own by (auto simp: busy_def eqs) (metis option.distinct(1))+
    show ?thesis
    proof (cases "k = ?H + cap")
      case True
      then show ?thesis using st rd D(7) by (simp add: cell_def eqs b)
    next
      case False
      then have "k < ?H + cap" "k - cap \<noteq> ?H \<or> \<not> cap \<le> k" using k by auto
      with ringD(4) [OF r, of k] k(1) show ?thesis by (auto simp: cell_def eqs b split: if_splits)
    qed
  qed
  moreover have "unwrapped s'"
    using ringD(3) [OF r] by (simp add: unwrapped_def s' a_own_def)
  ultimately show "ring p cap s'" by (simp add: ring_def eqs)
  show "a_guar p cap i s s'"
    by (auto simp: a_guar_def eqs free_def ready_def)
qed

text \<open>
  A thread changes a slot of its own: other owners, the slot at the tail when it is free,
  and the message at the head when it is ready see nothing of it.
\<close>

lemma own_slot_guar:
  assumes r: "ring p cap s" and own: "as_own s i = Some (d, k)"
    and eqs: "as_taken s' = as_taken s" "as_log s' = as_log s"
      "\<And>j. j \<noteq> i \<Longrightarrow> as_own s' j = as_own s j"
      "ac_buffer (as_chan s') = (ac_buffer (as_chan s))[k mod cap := sl]"
  shows "a_guar p cap i s s'"
proof -
  note R = ringD(1) [OF r] note D = ring_shapeD [OF R] and O = ringD(2) [OF r]
  note w = owned_window [OF O own D(6,7)]
  have other: "a_slot cap s' l = a_slot cap s l" if "l mod cap \<noteq> k mod cap" for l
    using that by (simp add: eqs)
  have "free p cap s' (a_sent s)" if f: "free p cap s (a_sent s)"
  proof -
    have st: "s_stamp (a_slot cap s (a_sent s)) = enc p cap (a_sent s)" "a_sent s < as_taken s + cap"
      using f by (simp_all add: free_def)
    have "a_sent s \<noteq> owned_position cap (d, k)"
      using ownersD(1) [OF O, of i k] ring_free_reader [OF r st(1), of i k] own
      by (cases d) (auto simp: owned_position_def)
    then have "a_sent s mod cap \<noteq> k mod cap"
      using window_inj [OF D(6) st(2) w] by auto
    with f other show ?thesis by (simp add: free_def eqs)
  qed
  moreover have "ready p cap s' (as_taken s)" if f: "ready p cap s (as_taken s)"
  proof -
    have st: "s_stamp (a_slot cap s (as_taken s)) = enc p cap (as_taken s) + 1" "as_taken s < a_sent s"
      using f by (simp_all add: ready_def)
    have "as_taken s \<noteq> owned_position cap (d, k)"
      using ring_ready(2) [OF r st(1)] ownersD(2) [OF O, of i k] own st(2)
      by (cases d) (auto simp: owned_position_def busy_def)
    then have "as_taken s mod cap \<noteq> k mod cap"
      using window_inj [OF _ _ w, of "as_taken s"] D(10) by auto
    with f other show ?thesis by (simp add: ready_def eqs)
  qed
  moreover have "a_slot cap s' l = a_slot cap s l" if "j \<noteq> i" "as_own s j = Some (e, l)" for j e l
    using other owned_slots_apart [OF r that(2) own that(1)] .
  ultimately show ?thesis by (simp add: a_guar_def eqs)
qed

text \<open>The message is written into an own slot, whose stamp stays.\<close>

lemma own_slot_write:
  assumes r: "ring p cap s" and own: "as_own s i = Some (True, k)"
    and s': "s' = a_set ((as_chan s)\<lparr>ac_buffer := (ac_buffer (as_chan s))[k mod cap := (a_slot cap s k)\<lparr>s_msg := v\<rparr>]\<rparr>) s"
  shows "ring p cap s'" "a_guar p cap i s s'"
proof -
  note R = ringD(1) [OF r] note D = ring_shapeD [OF R] and O = ringD(2) [OF r]
  note w = owned_window [OF O own D(6,7), unfolded owned_position_def, simplified]
  have eqs: "as_taken s' = as_taken s" "as_log s' = as_log s" "as_own s' = as_own s"
    "ac_buffer (as_chan s') = (ac_buffer (as_chan s))[k mod cap := (a_slot cap s k)\<lparr>s_msg := v\<rparr>]"
    by (simp_all add: s' a_set_def)
  show "a_guar p cap i s s'" using own_slot_guar [OF r own] eqs by simp
  have "cell p cap s' l" if l: "as_taken s \<le> l" "l < as_taken s + cap" for l
  proof (cases "l = k")
    case True
    then show ?thesis
      using ringD(4) [OF r l] own ownersD(1) [OF O own] D(2,10) by (auto simp: cell_def eqs busy_def)
  next
    case False
    then have "l mod cap \<noteq> k mod cap" using window_inj [OF l w] by auto
    with ringD(4) [OF r l] show ?thesis by (simp add: cell_def eqs busy_def)
  qed
  moreover have "ring_shape p cap s'" using R by (simp add: ring_shape_def s' a_set_def)
  moreover have "owners_ok cap s'" using O by (simp add: owners_ok_def eqs)
  moreover have "unwrapped s'" using ringD(3) [OF r] by (simp add: unwrapped_def s' a_set_def)
  ultimately show "ring p cap s'" by (simp add: ring_def eqs)
qed

text \<open>The stamp is stored, and the thread owns the slot no more.\<close>

lemma own_slot_store:
  assumes r: "ring p cap s" and own: "as_own s i = Some (d, k)"
    and msg: "d \<Longrightarrow> s_msg (a_slot cap s k) = Some (as_log s ! k)"
    and st: "st = (if d then enc p cap k + 1 else enc p cap (k + cap))"
    and s': "s' = a_own i None (a_set ((as_chan s)\<lparr>ac_buffer := (ac_buffer (as_chan s))[k mod cap := (a_slot cap s k)\<lparr>s_stamp := st\<rparr>]\<rparr>) s)"
  shows "ring p cap s'" "a_guar p cap i s s'"
proof -
  note R = ringD(1) [OF r] note D = ring_shapeD [OF R] and O = ringD(2) [OF r]
  note w = owned_window [OF O own D(6,7)]
  have eqs: "as_taken s' = as_taken s" "as_log s' = as_log s" "as_own s' = (as_own s)(i := None)"
    "ac_buffer (as_chan s') = (ac_buffer (as_chan s))[k mod cap := (a_slot cap s k)\<lparr>s_stamp := st\<rparr>]"
    by (simp_all add: s' a_set_def a_own_def)
  show "a_guar p cap i s s'" using own_slot_guar [OF r own] eqs by simp
  have b: "busy s' e j \<longleftrightarrow> busy s e j \<and> (e, j) \<noteq> (d, k)" for e j
  proof
    assume "busy s' e j"
    then obtain l where l: "l \<noteq> i" "as_own s l = Some (e, j)" by (auto simp: busy_def eqs split: if_splits)
    moreover have "(e, j) \<noteq> (d, k)" using ownersD(3) [OF O own, of l] l by auto
    ultimately show "busy s e j \<and> (e, j) \<noteq> (d, k)" by (auto simp: busy_def)
  next
    assume "busy s e j \<and> (e, j) \<noteq> (d, k)"
    then obtain l where "as_own s l = Some (e, j)" "(e, j) \<noteq> (d, k)" by (auto simp: busy_def)
    moreover from this have "l \<noteq> i" using own by auto
    ultimately show "busy s' e j" by (auto simp: busy_def eqs)
  qed
  have own': "as_own s' j = Some x \<Longrightarrow> as_own s j = Some x" for j x
    by (simp add: eqs split: if_splits)
  have "owners_ok cap s'"
  proof (rule ownersI)
    fix j l
    show "as_own s' j = Some (True, l) \<Longrightarrow> as_taken s' \<le> l \<and> l < a_sent s'"
      using ownersD(1) [OF O own'] by (simp add: eqs)
    show "as_own s' j = Some (False, l) \<Longrightarrow> l < as_taken s' \<and> a_sent s' \<le> l + cap"
      using ownersD(2) [OF O own'] by (simp add: eqs)
  qed (use ownersD(3) [OF O own' own'] in blast)
  moreover have "cell p cap s' l" if l: "as_taken s \<le> l" "l < as_taken s + cap" for l
  proof (cases "l = owned_position cap (d, k)")
    case True
    then show ?thesis
      using ownersD(1,2) [OF O, of i k] own D(2,10) msg st
      by (cases d) (auto simp: cell_def eqs owned_position_def b)
  next
    case False
    then have "l mod cap \<noteq> k mod cap" using window_inj [OF l w] by auto
    moreover have "l < a_sent s \<Longrightarrow> (True, l) \<noteq> (d, k)" "cap \<le> l \<Longrightarrow> (False, l - cap) \<noteq> (d, k)"
      using False by (auto simp: owned_position_def)
    ultimately show ?thesis using ringD(4) [OF r l] by (cases d) (auto simp: cell_def eqs b)
  qed
  moreover have "ring_shape p cap s'"
    using R by (simp add: ring_shape_def s' a_set_def a_own_def)
  moreover have "unwrapped s'" using ringD(3) [OF r] by (simp add: unwrapped_def s' a_set_def a_own_def)
  ultimately show "ring p cap s'" by (simp add: ring_def eqs)
qed

text \<open>The tail is marked.\<close>

lemma mark_tail:
  assumes r: "ring p cap s"
    and s': "s' = a_set ((as_chan s)\<lparr>ac_tail := ac_tail (as_chan s) OR ac_mark_bit (as_chan s)\<rparr>) s"
  shows "ring p cap s'" "a_guar p cap i s s'" "array_is_shutdown (as_chan s')"
proof -
  note R = ringD(1) [OF r] note D = ring_shapeD [OF R]
  have t: "ac_tail (as_chan s') = tail_word p cap (a_sent s) True"
    by (simp add: s' a_set_def D(4,9) tail_word_masks(4) [OF D(1)])
  show sh: "array_is_shutdown (as_chan s')"
    using tail_word_masks(1) [OF D(1), of "a_sent s" True]
    by (simp add: array_is_shutdown_def t) (simp add: s' a_set_def D(4))
  have "ring_shape p cap s'"
    using D t sh by (simp add: ring_shape_def) (simp add: s' a_set_def)
  with r show "ring p cap s'"
    by (simp add: ring_def owners_ok_def unwrapped_def cell_def busy_def s' a_set_def cong: if_cong)
  show "a_guar p cap i s s'" by (simp add: a_guar_def s' a_set_def free_def ready_def)
qed

section \<open>Every step is good\<close>

text \<open>
  The outcome of a good step: it does not go wrong, and unless the laps have come round it
  keeps the ring, what the thread knows, and the guarantee.
\<close>

definition a_good :: "nat \<Rightarrow> nat \<Rightarrow> ('q, 't, 'm) asys \<Rightarrow> nat \<Rightarrow> ('q, 't, 'm) asys \<Rightarrow> ('m, 't) array_pc \<Rightarrow> bool"
where
  "a_good p cap s i s' pc' \<longleftrightarrow> ring p cap s' \<and> a_at p cap s' i pc' \<and> a_guar p cap i s s'"

fun a_out ::
    "nat \<Rightarrow> nat \<Rightarrow> ('q, 't, 'm) asys \<Rightarrow> nat \<Rightarrow> (('q, 't, 'm) asys \<times> ('m, 't) array_pc) outcome \<Rightarrow> bool"
where
  "a_out p cap s i (Done (s', pc')) \<longleftrightarrow> (unwrapped s' \<longrightarrow> a_good p cap s i s' pc')"
| "a_out p cap s i Spin \<longleftrightarrow> True"
| "a_out p cap s i _ \<longleftrightarrow> False"

lemma a_calm_at: "a_calm s s' \<Longrightarrow> a_at p cap s' i pc = a_at p cap s i pc"
proof -
  assume c: "a_calm s s'"
  then have "sees_tail p cap s' = sees_tail p cap s" "sees_head p cap s' = sees_head p cap s"
    "has_slot cap s' = has_slot cap s" "free p cap s' = free p cap s" "ready p cap s' = ready p cap s"
    by (simp_all add: a_calm_def sees_tail_def sees_head_def has_slot_def free_def ready_def fun_eq_iff)
  with c show ?thesis by (cases pc) (simp_all add: a_calm_def)
qed

lemma calm_out: "a_calm s s' \<Longrightarrow> ring p cap s \<Longrightarrow> a_at p cap s i pc' \<Longrightarrow> a_out p cap s i (Done (s', pc'))"
  by (simp add: a_good_def a_calm_ring a_calm_at a_calm_guar)

lemmas stay_out = calm_out [OF a_calm_simps(1)]

lemma sink_answer_total: "\<exists>a. sink_answer r = Done a"
  by (auto simp: sink_answer_def is_full_not_closed split: sum.splits)

lemma send_answer_total:
  obtains a where "send_answer k r = Done a" "plain a"
proof (cases k)
  case (SSink t)
  obtain b where "sink_answer (try_written r) = Done b" using sink_answer_total by blast
  with SSink that show thesis by (simp add: plain_def)
qed (use that in \<open>auto simp: plain_def\<close>)

lemma plain_ret [simp]: "plain a \<Longrightarrow> (case a of AnsLen n \<Rightarrow> P n | _ \<Rightarrow> True)"
  by (cases a) (simp_all add: plain_def)

lemma plain_recv [simp]: "plain (recv_answer k r)"
  by (cases "(k, r)" rule: recv_answer.cases) (auto simp: plain_def)

lemma send_refused_out:
  assumes "ring p cap s" "as_own s i = None"
  shows "a_out p cap s i (obind (send_refused k m) (\<lambda>pc. Done (s, pc)))"
proof (cases k)
  case (SSink t)
  obtain a where "sink_answer (Inl \<lparr>tse_kind = NoCapacity, tse_value = m\<rparr>) = Done a"
    using sink_answer_total by blast
  with SSink stay_out [OF assms(1)] assms(2) show ?thesis by (simp add: plain_def del: a_out.simps)
qed (use stay_out [OF assms(1)] assms(2) in \<open>simp_all add: plain_def del: a_out.simps\<close>)

lemma send_loaded_out:
  assumes r: "ring p cap s" and own: "as_own s i = None"
  shows "a_out p cap s i (send_loaded k m s)"
proof (cases "array_is_shutdown (as_chan s)")
  case True
  obtain a where "send_answer k (Inl m) = Done a" "plain a"
    using send_answer_total [of k "Inl m"] by blast
  with True stay_out [OF r, of i "RingRet a"] own show ?thesis
    by (simp add: send_loaded_def array_is_shutdown_def del: a_out.simps)
next
  case False
  note R = ringD(1) [OF r]
  let ?full = "a_sent s = as_taken s + length (ac_buffer (as_chan s))"
  have "sees_tail p cap s (ac_tail (as_chan s)) ?full (a_sent s)"
    using shape_tail(3) [OF R False] ring_shapeD(2) [OF R] by (simp add: sees_tail_def)
  then have "a_at p cap s i (STail k m (ac_tail (as_chan s)) ?full)" using own by auto
  from stay_out [OF r this] False show ?thesis
    by (simp add: send_loaded_def array_is_shutdown_def Let_def del: a_out.simps)
qed

lemma send_stamp_out:
  assumes r: "ring p cap s" and own: "as_own s i = None" and j: "sees_tail p cap s tail full j"
  shows "a_out p cap s i (send_stamp k m tail full s)"
proof -
  note R = ringD(1) [OF r]
  have t: "tail = enc p cap j" using j by (simp add: sees_tail_def)
  have "a_at p cap s i (SStamp k m tail (s_stamp (a_slot cap s j)) full)"
    using own j ring_free(1) [OF r] t by auto
  from stay_out [OF r this] shape_slot [OF R, of j] show ?thesis
    by (simp add: send_stamp_def Let_def t shape_index [OF R] del: a_out.simps)
qed

lemma send_reserve_out:
  assumes r: "ring p cap s" and own: "as_own s i = None" and j: "sees_tail p cap s tail full j"
    and f: "stamp = tail \<Longrightarrow> j = a_sent s \<Longrightarrow> free p cap s j"
  shows "a_out p cap s i (send_reserve w i k m tail stamp s)"
proof -
  note R = ringD(1) [OF r] note D = ring_shapeD [OF R]
  have t: "tail = enc p cap j" "j \<le> a_sent s" using j by (simp_all add: sees_tail_def)
  have next_tail: "next_stamp (as_chan s) tail = Done (enc p cap (Suc j))"
    "add_chk tail 1 = Done (tail + 1)"
    using shape_next [OF R] add_chk_enc [OF D(1)] by (simp_all add: t)
  consider (cas) "tail = stamp" "\<not> w" "ac_tail (as_chan s) = tail"
    | (lost) "tail = stamp" "w \<or> ac_tail (as_chan s) \<noteq> tail" | (look) "tail \<noteq> stamp" by blast
  then show ?thesis
  proof cases
    case cas
    have "ac_tail (as_chan s) = tail_word p cap j False" using cas(3) t by (simp add: tail_word_def)
    from ring_tail_eq [OF r t(2) this] have N: "a_sent s = j" "\<not> array_is_shutdown (as_chan s)" by simp_all
    obtain a where a: "send_answer k (Inr ()) = Done (a :: 'c chan_answer)" "plain a"
      using send_answer_total [of k "Inr ()"] by blast
    let ?s = "a_own i (Some (True, length (as_log s)))
      (s\<lparr>as_chan := (as_chan s)\<lparr>ac_tail := enc p cap (Suc (a_sent s))\<rparr>, as_log := as_log s @ [m]\<rparr>)"
    have "a_good p cap s i ?s (SWrite a m (j mod cap) (tail + 1))" if "unwrapped ?s"
    proof -
      have "a_at p cap ?s i (SWrite a m (j mod cap) (tail + 1))"
        using N(1) t(1) a(2) by (auto simp: has_slot_def a_own_def nth_append)
      with reserve_send [OF r own N(2) f [unfolded N(1) [symmetric]] refl that] cas N(1) show ?thesis
        by (simp add: a_good_def)
    qed
    moreover have "stamp_index (as_chan s) stamp = j mod cap"
      using shape_index [OF R, of j] cas(1) t(1) by simp
    ultimately show ?thesis using cas next_tail a N(1) by (simp add: send_reserve_def Let_def)
  next
    case lost
    with next_tail send_loaded_out [OF r own] show ?thesis by (auto simp: send_reserve_def Let_def)
  next
    case look
    have "a_at p cap s i (SLoad k m)" using own by simp
    from stay_out [OF r this] look next_tail send_loaded_out [OF r own] send_refused_out [OF r own]
    show ?thesis by (simp add: send_reserve_def Let_def del: a_out.simps)
  qed
qed

lemma send_write_out:
  assumes r: "ring p cap s" and a: "plain a"
    and h: "has_slot cap s i True index j" "st = enc p cap j + 1" "as_log s ! j = m"
  shows "a_out p cap s i (send_write a m index st s)"
proof -
  note R = ringD(1) [OF r]
  have own: "as_own s i = Some (True, j)" and ix: "index = j mod cap"
    using h(1) by (simp_all add: has_slot_def)
  note W = own_slot_write [OF r own refl, of "Some m"]
  have "a_at p cap (a_set ((as_chan s)\<lparr>ac_buffer := (ac_buffer (as_chan s))[j mod cap :=
      (a_slot cap s j)\<lparr>s_msg := Some m\<rparr>]\<rparr>) s) i (SStore a index st)"
    using own ix h(2,3) a shape_slot [OF R, of j] by (simp add: has_slot_def a_set_def)
  with W shape_slot [OF R, of j] show ?thesis by (simp add: send_write_def Let_def ix a_good_def)
qed

lemma a_store_out:
  fixes s :: "('q, 't, 'm) asys"
  assumes r: "ring p cap s" and h: "has_slot cap s i d index j"
    and msg: "d \<Longrightarrow> s_msg (a_slot cap s j) = Some (as_log s ! j)"
    and st: "st = (if d then enc p cap j + 1 else enc p cap (j + cap))"
    and pc: "\<And>u :: ('q, 't, 'm) asys. as_own u i = None \<Longrightarrow> a_at p cap u i pc"
  shows "a_out p cap s i (a_store i index st pc s)"
proof -
  have own: "as_own s i = Some (d, j)" and ix: "index = j mod cap"
    using h by (simp_all add: has_slot_def)
  have "a_at p cap (a_own i None u) i pc" for u :: "('q, 't, 'm) asys"
    by (rule pc) (simp add: a_own_def)
  with own_slot_store [OF r own msg st refl] shape_slot [OF ringD(1) [OF r], of j] show ?thesis
    by (simp add: a_store_def Let_def ix a_good_def)
qed

lemma recv_stamp_out:
  assumes r: "ring p cap s" and own: "as_own s i = None" and j: "sees_head p cap s head j"
  shows "a_out p cap s i (recv_stamp k head s)"
proof -
  note R = ringD(1) [OF r]
  have t: "head = enc p cap j" using j by (simp add: sees_head_def)
  have "a_at p cap s i (RStamp k head (s_stamp (a_slot cap s j)))"
    using own j ring_ready(1) [OF r] t by auto
  from stay_out [OF r this] shape_slot [OF R, of j] show ?thesis
    by (simp add: recv_stamp_def Let_def t shape_index [OF R] del: a_out.simps)
qed

lemma head_seen: "ring p cap s \<Longrightarrow> as_own s i = None \<Longrightarrow> a_at p cap s i (RHead k (ac_head (as_chan s)))"
  using ring_shapeD(8) [OF ringD(1), of p cap s] by (auto simp: sees_head_def intro!: exI [of _ "as_taken s"])

lemma recv_reserve_out:
  assumes r: "ring p cap s" and own: "as_own s i = None" and j: "sees_head p cap s head j"
    and f: "stamp = head + 1 \<Longrightarrow> j = as_taken s \<Longrightarrow> ready p cap s j"
  shows "a_out p cap s i (recv_reserve w i k head stamp s)"
proof -
  note R = ringD(1) [OF r] note D = ring_shapeD [OF R]
  have t: "head = enc p cap j" "j \<le> as_taken s" using j by (simp_all add: sees_head_def)
  have next_head: "next_stamp (as_chan s) head = Done (enc p cap (Suc j))"
    "add_chk head 1 = Done (head + 1)" "head + ac_one_lap (as_chan s) = enc p cap (j + cap)"
    using shape_next [OF R] add_chk_enc [OF D(1)] shape_lap [OF R] by (simp_all add: t)
  consider (cas) "stamp = head + 1" "\<not> w" "ac_head (as_chan s) = head"
    | (lost) "stamp = head + 1" "w \<or> ac_head (as_chan s) \<noteq> head" | (look) "stamp \<noteq> head + 1" by blast
  then show ?thesis
  proof cases
    case cas
    have "enc p cap (as_taken s) = enc p cap j" using cas(3) t(1) D(8) by simp
    then have H: "as_taken s = j" using ring_enc_eq [OF r] t(2) D(6) by simp
    let ?s = "a_own i (Some (False, as_taken s))
      (s\<lparr>as_chan := (as_chan s)\<lparr>ac_head := enc p cap (Suc (as_taken s))\<rparr>, as_taken := Suc (as_taken s)\<rparr>)"
    have "a_at p cap ?s i (RRead k (j mod cap) (enc p cap (j + cap)) (as_log s ! as_taken s))"
      using H by (simp add: has_slot_def a_own_def)
    with reserve_recv [OF r own f [unfolded H [symmetric]] refl] cas(1) H next_head cas show ?thesis
      by (simp add: recv_reserve_def Let_def t(1) shape_index [OF R] a_good_def)
  next
    case lost
    with next_head stay_out [OF r head_seen [OF r own]] show ?thesis
      by (auto simp: recv_reserve_def Let_def simp del: a_out.simps)
  next
    case look
    have "a_at p cap s i (REmpty k head)" using own j by auto
    from stay_out [OF r this] look next_head stay_out [OF r head_seen [OF r own, of k]] show ?thesis
      by (simp add: recv_reserve_def Let_def del: a_out.simps)
  qed
qed

lemma recv_empty_out:
  assumes "ring p cap s" "as_own s i = None"
  shows "a_out p cap s i (recv_empty k head s)"
proof -
  have "a_at p cap s i (RingRet (recv_answer k None))" "a_at p cap s i (recv_refused k)" "a_at p cap s i (RLoad k)"
    using assms(2) by (simp, cases k, simp_all)
  from stay_out [OF assms(1) this(1)] stay_out [OF assms(1) this(2)] stay_out [OF assms(1) this(3)]
  show ?thesis by (simp add: recv_empty_def Let_def del: a_out.simps)
qed

text \<open>A slot that is being read still holds the message of its position.\<close>

lemma ring_reading:
  assumes r: "ring p cap s" and own: "as_own s i = Some (False, j)"
  shows "s_msg (a_slot cap s j) = Some (as_log s ! j)"
proof -
  note D = ring_shapeD [OF ringD(1) [OF r]] and O = ringD(2) [OF r]
  have "cell p cap s (j + cap)" "busy s False j"
    using ringD(4) [OF r, of "j + cap"] ownersD(2) [OF O own] D(6) own by (auto simp: busy_def)
  with ownersD(2) [OF O own] show ?thesis by (simp add: cell_def)
qed

lemma recv_read_out:
  assumes r: "ring p cap s" and h: "has_slot cap s i False index j" "st = enc p cap (j + cap)"
  shows "recv_read k index st s = Done (s, RStore k index st (as_log s ! j))"
    "a_out p cap s i (recv_read k index st s)"
proof -
  have own: "as_own s i = Some (False, j)" and ix: "index = j mod cap"
    using h(1) by (simp_all add: has_slot_def)
  show eq: "recv_read k index st s = Done (s, RStore k index st (as_log s ! j))"
    using ring_reading [OF r own] shape_slot [OF ringD(1) [OF r], of j] by (simp add: recv_read_def ix)
  have "a_at p cap s i (RStore k index st (as_log s ! j))" using h by auto
  from stay_out [OF r this] show "a_out p cap s i (recv_read k index st s)" by (simp only: eq)
qed

text \<open>The task wakers neither panic nor touch the ring.\<close>

lemma positive_update_loop_safe: "positive_update_loop ws prev a \<noteq> Panic \<and> positive_update_loop ws prev a \<noteq> Fault"
  by (induction ws arbitrary: prev) (simp_all add: positive_update_loop.simps)

lemma register_safe: "register Q ws (Some t) w \<noteq> Panic \<and> register Q ws (Some t) w \<noteq> Fault"
  using positive_update_loop_safe [of ws]
  by (auto simp: register_def wk_def positive_update_def split: option.splits if_splits
      elim!: obind.elims [of _ _ Panic] obind.elims [of _ _ Fault])

lemma wake_all_loop_safe: "wake_all_loop Q n w \<noteq> Panic \<and> wake_all_loop Q n w \<noteq> Fault"
  by (induction n arbitrary: w) (auto split: option.splits)

lemma obind_out:
  assumes "x \<noteq> Panic" "x \<noteq> Fault" "\<And>y. x = Done y \<Longrightarrow> a_out p cap s i (f y)"
  shows "a_out p cap s i (obind x f)"
  using assms by (cases x) simp_all

lemma own_idle:
  "a_at p cap s i (SLoad k m) = (as_own s i = None)" "a_at p cap s i (RLoad k2) = (as_own s i = None)"
  by simp_all

lemma task_step_out:
  assumes r: "ring p cap s" and own: "as_own s i = None"
  shows "plain a \<Longrightarrow> a_out p cap s i (send_register Q ws t a s)"
    "a_out p cap s i (poll_first t s)" "a_out p cap s i (poll_update ws t s)"
    "a_out p cap s i (poll_register Q ws t s)"
    "a_out p cap s i (shut_senders Q s)" "a_out p cap s i (shut_receivers Q s)"
proof -
  note calm = calm_out [OF _ r] and own = own
  show "plain a \<Longrightarrow> a_out p cap s i (send_register Q ws t a s)"
    unfolding send_register_def using register_safe [of Q ws t] own
    by (intro obind_out calm) (auto simp del: a_out.simps)
  show "a_out p cap s i (poll_first t s)"
    unfolding poll_first_def using own
    by (cases "ac_first (as_chan s)") (auto intro!: calm simp del: a_out.simps)
  show "a_out p cap s i (poll_update ws t s)"
    unfolding poll_update_def Let_def positive_update_def using positive_update_loop_safe [of ws] own
    by (intro obind_out) (auto intro!: calm simp del: a_out.simps split: if_splits)
  show "a_out p cap s i (poll_register Q ws t s)"
    unfolding poll_register_def using register_safe [of Q ws t] own
    by (intro obind_out calm) (auto simp del: a_out.simps)
  show "a_out p cap s i (shut_senders Q s)" "a_out p cap s i (shut_receivers Q s)"
    unfolding shut_senders_def shut_receivers_def wake_all_def using wake_all_loop_safe [of Q] own
    by (intro obind_out calm; auto simp del: a_out.simps)+
qed

lemma shut_or_out:
  assumes r: "ring p cap s" and own: "as_own s i = None"
  shows "a_out p cap s i (shut_or s)"
  using mark_tail [OF r refl] own by (simp add: shut_or_def Let_def a_good_def) (simp add: a_set_def)

lemma len_check_out:
  assumes r: "ring p cap s" and own: "as_own s i = None"
    and t: "tail = tail_word p cap j d" "j \<le> a_sent s"
      "j = a_sent s \<Longrightarrow> \<exists>h. head = enc p cap h \<and> j = h + n \<and> n \<le> cap"
  shows "a_out p cap s i (len_check tail head s)"
    "ac_tail (as_chan s) = tail \<Longrightarrow> len_check tail head s = Done (s, RingRet (AnsLen (of_nat n)))"
proof -
  note D = ring_shapeD [OF ringD(1) [OF r]]
  have eq: "len_check tail head s = Done (s, RingRet (AnsLen (of_nat n)))" "unat (of_nat n :: usize) \<le> cap"
    if same: "ac_tail (as_chan s) = tail"
  proof -
    have "a_sent s = j" using ring_tail_eq [OF r t(2)] same t(1) by simp
    with t(3) obtain h where h: "head = enc p cap h" "j = h + n" "n \<le> cap" by auto
    note L = array_len_of_words [OF D(1,3,4) h(3)]
    show "len_check tail head s = Done (s, RingRet (AnsLen (of_nat n)))"
      using same t(1) by (simp add: len_check_def h L(1))
    show "unat (of_nat n :: usize) \<le> cap" using L(2) h(3) by simp
  qed
  show "ac_tail (as_chan s) = tail \<Longrightarrow> len_check tail head s = Done (s, RingRet (AnsLen (of_nat n)))"
    by (rule eq(1))
  show "a_out p cap s i (len_check tail head s)"
  proof (cases "ac_tail (as_chan s) = tail")
    case True
    with eq stay_out [OF r, of i "RingRet (AnsLen (of_nat n))"] own show ?thesis by (simp del: a_out.simps)
  next
    case False
    with stay_out [OF r, of i LTail] own show ?thesis by (simp add: len_check_def del: a_out.simps)
  qed
qed

lemma go_out:
  assumes r: "ring p cap s" and at: "a_at p cap s i pc"
  shows "a_out p cap s i (array_go Q ws now i s pc)"
proof (cases pc)
  case (SLoad k m)
  with at send_loaded_out [OF r] show ?thesis by simp
next
  case (STail k m tail full)
  with at send_stamp_out [OF r] show ?thesis by auto
next
  case (SStamp k m tail stamp full)
  with at obtain j where "as_own s i = None" "sees_tail p cap s tail full j"
    "stamp = tail \<Longrightarrow> j = a_sent s \<Longrightarrow> free p cap s j" by auto
  from send_reserve_out [OF r this] SStamp show ?thesis by simp
next
  case (SWrite a m index st)
  with at send_write_out [OF r] show ?thesis by auto
next
  case (SStore a index st)
  with at obtain j where "has_slot cap s i True index j" "st = enc p cap j + 1"
    "s_msg (a_slot cap s j) = Some (as_log s ! j)" "plain a" by auto
  with SStore a_store_out [OF r this(1), of st "SWake a"] show ?thesis by simp
next
  case (RHead k head)
  with at recv_stamp_out [OF r] show ?thesis by auto
next
  case (RStamp k head stamp)
  with at obtain j where "as_own s i = None" "sees_head p cap s head j"
    "stamp = head + 1 \<Longrightarrow> j = as_taken s \<Longrightarrow> ready p cap s j" by auto
  from recv_reserve_out [OF r this] RStamp show ?thesis by simp
next
  case (REmpty k head)
  with at recv_empty_out [OF r] show ?thesis by simp
next
  case (RRead k index st m)
  with at recv_read_out(2) [OF r] show ?thesis by auto
next
  case (RStore k index st m)
  with at obtain j where "has_slot cap s i False index j" "st = enc p cap (j + cap)" by auto
  with RStore a_store_out [OF r this(1), of st "RWake (recv_answer k (Some m))"] show ?thesis by simp
next
  case (SWake a)
  have "a_at p cap s i (RingRet a)" using at SWake by simp
  with SWake calm_out [OF _ r this] show ?thesis by (simp add: wake_receiver_def del: a_out.simps)
next
  case (RWake a)
  have "a_at p cap s i (RingRet a)" using at RWake by simp
  with RWake calm_out [OF _ r this] show ?thesis by (simp add: wake_sender_def del: a_out.simps)
next
  case (SReg t a)
  with at task_step_out(1) [OF r] show ?thesis by simp
next
  case (SClock dl m)
  with at stay_out [OF r] show ?thesis by (simp add: send_clock_def del: a_out.simps split: option.splits)
next
  case (RLoad k)
  with at stay_out [OF r head_seen [OF r]] show ?thesis by (simp del: a_out.simps)
next
  case (LHead tail)
  note D = ring_shapeD [OF ringD(1) [OF r]]
  have "\<exists>h. ac_head (as_chan s) = enc p cap h \<and> a_sent s = h + (a_sent s - as_taken s)
      \<and> a_sent s - as_taken s \<le> cap"
    using D(6,7,8) by (intro exI [of _ "as_taken s"]) auto
  then have "a_at p cap s i (LCheck tail (ac_head (as_chan s)) (a_sent s - as_taken s))"
    using at LHead by auto
  with LHead stay_out [OF r] show ?thesis by (simp del: a_out.simps a_at.simps)
next
  case (LCheck tail head n)
  with at obtain j d where "as_own s i = None" "tail = tail_word p cap j d" "j \<le> a_sent s"
    "j = a_sent s \<Longrightarrow> \<exists>h. head = enc p cap h \<and> j = h + n \<and> n \<le> cap" by auto
  from len_check_out(1) [OF r this] LCheck show ?thesis by simp
next
  case LTail
  have "a_at p cap s i (LHead (ac_tail (as_chan s)))"
    using at LTail ring_shapeD(9) [OF ringD(1) [OF r]] by auto
  with LTail stay_out [OF r] show ?thesis by (simp del: a_out.simps a_at.simps)
next
  case DIs
  with at stay_out [OF r] show ?thesis by (simp del: a_out.simps)
next
  case DOr
  with at shut_or_out [OF r] show ?thesis by simp
qed (use at task_step_out [OF r] in simp_all)

lemma first_pc_at [simp]: "a_at p cap s i (first_pc c) = (as_own s i = None)"
  by (cases c) simp_all

lemma array_step_out:
  assumes r: "ring p cap s" and at: "a_at p cap s i pc"
  shows "a_out p cap s i (array_step Q inp i s pc)"
proof (cases inp)
  case (RingCall c)
  with at stay_out [OF r, of i "first_pc c"] show ?thesis
    by (cases "pc = RingIdle") (simp_all del: a_out.simps(1,3,4))
next
  case RingTake
  with at stay_out [OF r, of i RingIdle] show ?thesis
    by (auto simp del: a_out.simps simp: a_out.simps(2) split: array_pc.splits)
next
  case (RingGo ws now)
  with go_out [OF r at] show ?thesis by simp
qed

interpretation ring_inv: interference_free "within unwrapped (array_step Q)" "ring p cap" "a_at p cap"
  for Q :: "('q, 't) aq_ops" and p cap
proof unfold_locales
  fix s s' :: "('q, 't, 'm) asys" and i j inp and pc pc' q :: "('m, 't) array_pc"
  assume a: "ring p cap s" "a_at p cap s i pc" "within unwrapped (array_step Q) inp i s pc = Done (s', pc')"
  then have st: "array_step Q inp i s pc = Done (s', pc')" "unwrapped s'" by (simp_all add: within_eq_Done)
  with array_step_out [OF a(1,2), of Q inp] have g: "a_good p cap s i s' pc'" by simp
  then show "ring p cap s' \<and> a_at p cap s' i pc'" by (simp add: a_good_def)
  show "a_at p cap s' j q" if "j \<noteq> i" "a_at p cap s j q"
    using g a_at_guar [OF _ that(1) a(1) _ that(2)] by (auto simp: a_good_def)
qed

text \<open>The laps only ever go forward.\<close>

lemma array_step_forward:
  assumes "array_step Q inp i s pc = Done (s', pc')"
  shows "a_sent s \<le> a_sent s'" "ac_cap (as_chan s') = ac_cap (as_chan s)"
    "ac_one_lap (as_chan s') = ac_one_lap (as_chan s)"
proof -
  have "a_sent s \<le> a_sent s' \<and> ac_cap (as_chan s') = ac_cap (as_chan s)
      \<and> ac_one_lap (as_chan s') = ac_one_lap (as_chan s)"
    if "array_go Q ws now i s pc = Done (s', pc')" for ws now
    using that
    by (cases pc) (auto simp: send_loaded_def send_stamp_def send_reserve_def send_write_def a_store_def
        wake_receiver_def wake_sender_def send_register_def send_clock_def recv_stamp_def recv_reserve_def
        recv_empty_def recv_read_def poll_first_def poll_update_def poll_register_def shut_or_def
        shut_senders_def shut_receivers_def len_check_def Let_def a_own_def a_set_def outcome_simps
        split: if_splits option.splits)
  then show "a_sent s \<le> a_sent s'" "ac_cap (as_chan s') = ac_cap (as_chan s)"
    "ac_one_lap (as_chan s') = ac_one_lap (as_chan s)"
    using assms by (cases inp; auto split: if_splits array_pc.splits)+
qed

lemma unwrapped_before:
  assumes "array_step Q inp i s pc = Done (s', pc')" "unwrapped s'"
  shows "unwrapped s"
proof -
  let ?c = "unat (ac_cap (as_chan s))" and ?l = "unat (ac_one_lap (as_chan s))"
  have "(a_sent s + ?c) * ?l \<le> (a_sent s' + ?c) * ?l"
    using array_step_forward(1) [OF assms(1)] by (intro mult_le_mono1) simp
  also have "\<dots> < ?c * 2 ^ 64"
    using assms(2) by (simp only: unwrapped_def array_step_forward(2,3) [OF assms(1)])
  finally show ?thesis by (simp only: unwrapped_def)
qed

end
