(* ===== verification/Atomic_Chan.thy ===== *)
theory Atomic_Chan
  imports Chan_Calls
begin

text \<open>
  The channel that the concurrent queueing channels implement: each call has its effect in
  one step, at some moment between its invocation and its return, and answers what
  \<open>Channel_Contract\<close> says the sequential channel answers at that moment.
\<close>

section \<open>The atomic channel\<close>

text \<open>
  Where a call is: not running; invoked; it has seen what it would answer at that moment
  without changing the channel, and may still come to another answer; its answer is
  decided.
\<close>

datatype ('m, 't) call_status =
    Away
  | Pending "('m, 't) chan_call"
  | Tentative "('m, 't) chan_call" "'m chan_answer"
  | Decided "'m chan_answer"

record ('m, 't) atomic_chan =
  at_msgs :: "'m list"
  at_closed :: bool
  at_calls :: "('m, 't) call_status list"

text \<open>
  What a sender makes of the result of \<open>try_send\<close>. A blocking send answers a full channel
  only when it has a deadline.
\<close>

fun sender_answer :: "'t sender \<Rightarrow> ('m try_send_error + unit) \<Rightarrow> 'm chan_answer option" where
  "sender_answer (STry t) r = Some (AnsTrySend r)"
| "sender_answer (SSink t) r = (case sink_answer r of Done a \<Rightarrow> Some (AnsSink a) | _ \<Rightarrow> None)"
| "sender_answer (SBlock dl) (Inr u) = Some (AnsSend (Inr u))"
| "sender_answer (SBlock dl) (Inl e) =
     (if is_closed e then Some (AnsSend (Inl (SendDisconnected (into_inner e))))
      else map_option (\<lambda>_. AnsSend (Inl (SendTimeout (into_inner e)))) dl)"

definition poll_answer :: "(try_recv_error + 'm) \<Rightarrow> 'm chan_answer" where
  "poll_answer r = AnsPoll (Inr (case r of
       Inr m \<Rightarrow> Ready (Some m) | Inl TryRecvDisconnected \<Rightarrow> Ready None | Inl TryRecvEmpty \<Rightarrow> NotReady))"

text \<open>The effect of a call on a channel with the bound \<open>n\<close>; \<open>None\<close>: it goes on waiting.\<close>

fun atomic_call ::
    "nat option \<Rightarrow> ('m, 't) chan_call \<Rightarrow> 'm list \<Rightarrow> bool \<Rightarrow> ('m chan_answer \<times> 'm list \<times> bool) option" where
  "atomic_call n (CSend k m) ms d =
     (let (r, ms') = spec_try_send n m ms d in map_option (\<lambda>a. (a, ms', d)) (sender_answer k r))"
| "atomic_call n CTryRecv ms d = (let (r, ms') = spec_try_recv ms d in Some (AnsTryRecv r, ms', d))"
| "atomic_call n (CPoll t) ms d = (let (r, ms') = spec_try_recv ms d in Some (poll_answer r, ms', d))"
| "atomic_call n CShutdown ms d = Some (AnsShutdown (\<not> d), ms, True)"
| "atomic_call n CIsShutdown ms d = Some (AnsIsShutdown d, ms, d)"
| "atomic_call n CLen ms d = Some (AnsLen (of_nat (length ms)), ms, d)"

fun undecided :: "('m, 't) call_status \<Rightarrow> ('m, 't) chan_call \<Rightarrow> bool" where
  "undecided (Pending c) c' = (c' = c)"
| "undecided (Tentative c a) c' = (c' = c)"
| "undecided _ c' = False"

text \<open>A step of one caller.\<close>

inductive caller_step ::
    "nat option \<Rightarrow> 'm list \<times> bool \<times> ('m, 't) call_status \<Rightarrow> 'm list \<times> bool \<times> ('m, 't) call_status \<Rightarrow> bool"
  for n where
  invoke: "caller_step n (ms, d, Away) (ms, d, Pending c)"
| effect: "undecided st c \<Longrightarrow> atomic_call n c ms d = Some (a, ms', d') \<Longrightarrow>
     caller_step n (ms, d, st) (ms', d', Decided a)"
| observe: "undecided st c \<Longrightarrow> atomic_call n c ms d = Some (a, ms, d) \<Longrightarrow>
     caller_step n (ms, d, st) (ms, d, Tentative c a)"
| confirm: "caller_step n (ms, d, Tentative c a) (ms, d, Decided a)"
| retract: "caller_step n (ms, d, Tentative c a) (ms, d, Pending c)"
| return: "caller_step n (ms, d, Decided a) (ms, d, Away)"

inductive atomic_step :: "nat option \<Rightarrow> ('m, 't) atomic_chan \<Rightarrow> ('m, 't) atomic_chan \<Rightarrow> bool" for n where
  caller: "i < length (at_calls a) \<Longrightarrow> caller_step n (at_msgs a, at_closed a, at_calls a ! i) (ms, d, st) \<Longrightarrow>
     atomic_step n a \<lparr>at_msgs = ms, at_closed = d, at_calls = (at_calls a)[i := st]\<rparr>"

definition atomic_new :: "nat \<Rightarrow> ('m, 't) atomic_chan" where
  "atomic_new callers = \<lparr>at_msgs = [], at_closed = False, at_calls = replicate callers Away\<rparr>"

section \<open>Undecided calls\<close>

definition open_status :: "('m, 't) chan_call \<Rightarrow> 'm chan_answer option \<Rightarrow> ('m, 't) call_status" where
  "open_status c r = (case r of None \<Rightarrow> Pending c | Some a \<Rightarrow> Tentative c a)"

fun recv_call :: "'t receiver \<Rightarrow> ('m, 't) chan_call" where
  "recv_call RTry = CTryRecv"
| "recv_call (RPoll t) = CPoll t"
| "recv_call (RAgain t) = CPoll t"

lemma open_status_undecided [simp]: "undecided (open_status c r) c' \<longleftrightarrow> c' = c"
  by (simp add: open_status_def split: option.splits)

text \<open>An undecided call looks again, and either sees an answer or not.\<close>

lemma look_again:
  assumes "undecided st c" "\<And>a. r = Some a \<Longrightarrow> atomic_call n c ms d = Some (a, ms, d)"
  shows "open_status c r = st \<or> caller_step n (ms, d, st) (ms, d, open_status c r)"
proof (cases r)
  case None
  with assms(1) show ?thesis
    by (cases "(st, c)" rule: undecided.cases) (auto simp: open_status_def intro: retract)
next
  case (Some a)
  with assms show ?thesis by (auto simp: open_status_def intro: observe)
qed

end
