(* ===== verification/Array_Lin.thy ===== *)
theory Array_Lin
  imports Array_Steps Atomic_Chan
begin

text \<open>
  The concurrent bounded channel implements the atomic one of \<open>Atomic_Chan\<close>.
\<close>

section \<open>The abstraction\<close>

definition full_answer :: "'t sender \<Rightarrow> 'm \<Rightarrow> 'm chan_answer option" where
  "full_answer k m = sender_answer k (Inl \<lparr>tse_kind = NoCapacity, tse_value = m\<rparr>)"

fun status :: "('m, 't) array_pc \<Rightarrow> ('m, 't) call_status" where
  "status RingIdle = Away"
| "status (SLoad k m) = Pending (CSend k m)"
| "status (STail k m tail full) = open_status (CSend k m) (if full then full_answer k m else None)"
| "status (SStamp k m tail stamp full) = open_status (CSend k m) (if full then full_answer k m else None)"
| "status (SWrite a m index st) = Decided a"
| "status (SStore a index st) = Decided a"
| "status (SWake a) = Decided a"
| "status (SReg t a) = Decided a"
| "status (SClock dl m) = (let k = SBlock dl in open_status (CSend k m) (full_answer k m))"
| "status (RLoad k) = Pending (recv_call k)"
| "status (RHead k head) = Pending (recv_call k)"
| "status (RStamp k head stamp) = Pending (recv_call k)"
| "status (REmpty k head) = Pending (recv_call k)"
| "status (RRead k index st m) = Decided (recv_answer k (Some m))"
| "status (RStore k index st m) = Decided (recv_answer k (Some m))"
| "status (RWake a) = Decided a"
| "status (PFirst t) = Tentative (CPoll t) (AnsPoll (Inr NotReady))"
| "status (PUpdate t) = Tentative (CPoll t) (AnsPoll (Inr NotReady))"
| "status (PReg t) = Pending (CPoll t)"
| "status DOr = Pending CShutdown"
| "status DWakeS = Decided (AnsShutdown True)"
| "status DWakeR = Decided (AnsShutdown True)"
| "status DIs = Pending CIsShutdown"
| "status LTail = Pending CLen"
| "status (LHead tail) = Pending CLen"
| "status (LCheck tail head n) = Tentative CLen (AnsLen (of_nat n))"
| "status (RingRet a) = Decided a"

definition ring_msgs :: "('q, 't, 'm) asys \<Rightarrow> 'm list" where
  "ring_msgs s = drop (as_taken s) (as_log s)"

definition ring_abs :: "('q, 't, 'm) asys \<times> ('m, 't) array_pc list \<Rightarrow> ('m, 't) atomic_chan" where
  "ring_abs c = \<lparr>at_msgs = ring_msgs (fst c), at_closed = array_is_shutdown (as_chan (fst c)),
     at_calls = map status (snd c)\<rparr>"

text \<open>What the step of a thread is in the specification: nothing, or a step of its call.\<close>

definition step_moves ::
    "nat \<Rightarrow> ('q, 't, 'm) asys \<Rightarrow> ('m, 't) array_pc \<Rightarrow> ('q, 't, 'm) asys \<Rightarrow> ('m, 't) array_pc \<Rightarrow> bool" where
  "step_moves n s pc s' pc' \<longleftrightarrow>
     (let x = (ring_msgs s, array_is_shutdown (as_chan s), status pc);
          y = (ring_msgs s', array_is_shutdown (as_chan s'), status pc') in
      y = x \<or> caller_step (Some n) x y)"

lemma step_moves_lift:
  assumes "step_moves n s (ps ! i) s' pc'" "i < length ps"
  shows "ring_abs (s', ps[i := pc']) = ring_abs (s, ps) \<or> atomic_step (Some n) (ring_abs (s, ps)) (ring_abs (s', ps[i := pc']))"
proof (cases "status pc' = status (ps ! i) \<and> ring_msgs s' = ring_msgs s
    \<and> array_is_shutdown (as_chan s') = array_is_shutdown (as_chan s)")
  case True
  then have "(map status ps)[i := status pc'] = map status ps"
    using assms(2) by (metis list_update_id nth_map)
  with True show ?thesis by (simp add: ring_abs_def map_update)
next
  case False
  with assms(1) have "caller_step (Some n) (ring_msgs s, array_is_shutdown (as_chan s), status (ps ! i))
      (ring_msgs s', array_is_shutdown (as_chan s'), status pc')"
    by (auto simp: step_moves_def Let_def)
  with caller [of i "ring_abs (s, ps)" "Some n" "ring_msgs s'" "array_is_shutdown (as_chan s')" "status pc'"] assms(2)
  show ?thesis by (simp add: ring_abs_def map_update)
qed

section \<open>Each step is a step of the specification\<close>

lemma ring_msgs_facts:
  assumes "ring_shape p cap s"
  shows "length (ring_msgs s) = a_sent s - as_taken s" "length (ring_msgs s) \<le> cap"
    "length (ring_msgs s) = cap \<longleftrightarrow> a_sent s = as_taken s + cap"
    "ring_msgs s = [] \<longleftrightarrow> a_sent s = as_taken s"
  using ring_shapeD(6,7) [OF assms] by (auto simp: ring_msgs_def)

lemma answers_agree:
  assumes "send_answer k r = Done a"
  shows "sender_answer k (try_written r) = Some a"
  using assms by (cases k; cases r) (auto simp: try_written_def outcome_simps)

lemma calm_msgs: "a_calm s s' \<Longrightarrow> ring_msgs s' = ring_msgs s \<and> array_is_shutdown (as_chan s') = array_is_shutdown (as_chan s)"
  by (simp add: a_calm_def ring_msgs_def array_is_shutdown_def)

lemma send_loaded_moves:
  assumes r: "ring p cap s" and u: "undecided (status pc) (CSend k m)"
    and st: "send_loaded k m s = Done (s', pc')"
  shows "step_moves cap s pc s' pc'"
proof -
  note R = ringD(1) [OF r] note D = ring_shapeD [OF R]
  let ?ms = "ring_msgs s" and ?d = "array_is_shutdown (as_chan s)"
  show ?thesis
  proof (cases ?d)
    case True
    with st obtain a where a: "send_answer k (Inl m) = Done a" "s' = s" "pc' = RingRet a"
      by (auto simp: send_loaded_def array_is_shutdown_def outcome_simps)
    have "atomic_call (Some cap) (CSend k m) ?ms ?d = Some (a, ?ms, ?d)"
      using answers_agree [OF a(1)] True by (simp add: spec_try_send_def try_written_def)
    from effect [OF u this] a show ?thesis by (simp add: step_moves_def)
  next
    case False
    let ?full = "a_sent s = as_taken s + cap"
    have pc': "s' = s" "status pc' = open_status (CSend k m) (if ?full then full_answer k m else None)"
      using st False D(2) by (auto simp: send_loaded_def array_is_shutdown_def Let_def)
    have "atomic_call (Some cap) (CSend k m) ?ms ?d = Some (a, ?ms, ?d)"
      if "(if ?full then full_answer k m else None) = Some a" for a
      using that False ring_msgs_facts(3) [OF R] by (auto simp: spec_try_send_def full_answer_def split: if_splits)
    from look_again [OF u this] pc' show ?thesis by (simp add: step_moves_def Let_def)
  qed
qed

lemma send_refused_moves:
  assumes u: "status pc = open_status (CSend k m) (full_answer k m)"
    and st: "send_refused k m = Done pc'"
  shows "step_moves n s pc s pc'"
proof (cases k)
  case (STry t)
  with st u show ?thesis by (auto simp: step_moves_def open_status_def full_answer_def intro: confirm)
next
  case (SSink t)
  with st u show ?thesis
    by (auto simp: step_moves_def open_status_def full_answer_def outcome_simps intro: confirm)
next
  case (SBlock dl)
  with st u show ?thesis by (auto simp: step_moves_def Let_def)
qed

lemma send_reserve_moves:
  assumes r: "ring p cap s" and j: "sees_tail p cap s tail full j"
    and f: "stamp = tail \<Longrightarrow> j = a_sent s \<Longrightarrow> free p cap s j"
    and st: "send_reserve w i k m tail stamp s = Done (s', pc')"
  shows "step_moves cap s (SStamp k m tail stamp full) s' pc'"
proof -
  note R = ringD(1) [OF r] note D = ring_shapeD [OF R]
  let ?pc = "SStamp k m tail stamp full"
  have u: "undecided (status ?pc) (CSend k m)" by simp
  have t: "tail = enc p cap j" "j \<le> a_sent s" using j by (simp_all add: sees_tail_def)
  note loaded = send_loaded_moves [OF r u]
  consider (cas) "tail = stamp" "\<not> w" "ac_tail (as_chan s) = tail"
    | (lost) "tail = stamp" "w \<or> ac_tail (as_chan s) \<noteq> tail"
    | (full) "tail \<noteq> stamp" "stamp + ac_one_lap (as_chan s) = tail + 1" "ac_head (as_chan s) + ac_one_lap (as_chan s) = tail"
    | (moved) "tail \<noteq> stamp" "stamp + ac_one_lap (as_chan s) = tail + 1" "ac_head (as_chan s) + ac_one_lap (as_chan s) \<noteq> tail"
    | (look) "tail \<noteq> stamp" "stamp + ac_one_lap (as_chan s) \<noteq> tail + 1" by blast
  then show ?thesis
  proof cases
    case cas
    have "ac_tail (as_chan s) = tail_word p cap j False" using cas(3) t by (simp add: tail_word_def)
    from ring_tail_eq [OF r t(2) this] have N: "a_sent s = j" "\<not> array_is_shutdown (as_chan s)" by simp_all
    from st cas obtain a ch where a: "send_answer k (Inr ()) = Done a" "pc' = SWrite a m (stamp_index (as_chan s) tail) (tail + 1)"
      "s' = a_own i (Some (True, length (as_log s))) (s\<lparr>as_chan := ch, as_log := as_log s @ [m]\<rparr>)"
      "ch = (as_chan s)\<lparr>ac_tail := enc p cap (Suc j)\<rparr>"
      using shape_next [OF R, of j] add_chk_enc [OF D(1), of j] by (auto simp: send_reserve_def Let_def outcome_simps t(1))
    have "length (ring_msgs s) < cap"
      using f [OF cas(1) [symmetric] N(1) [symmetric]] N(1) D(6) ring_msgs_facts(1) [OF R]
      unfolding free_def by linarith
    then have "atomic_call (Some cap) (CSend k m) (ring_msgs s) False = Some (a, ring_msgs s @ [m], False)"
      using answers_agree [OF a(1)] by (simp add: spec_try_send_def try_written_def)
    moreover have "ring_msgs s' = ring_msgs s @ [m]" using D(6) by (simp add: a(3) a_own_def ring_msgs_def)
    moreover have "\<not> array_is_shutdown (as_chan s')"
      using enc_and_mark [OF D(1), of "Suc j"] by (simp add: a(3,4) a_own_def array_is_shutdown_def D(4))
    ultimately show ?thesis using effect [OF u] N(2) a(2) by (simp add: step_moves_def Let_def)
  next
    case lost
    with st loaded show ?thesis
      using shape_next [OF R, of j] by (auto simp: send_reserve_def Let_def outcome_simps t(1) split: if_splits)
  next
    case full
    have "enc p cap (as_taken s + cap) = enc p cap j" using full(3) shape_lap [OF R] D(8) t(1) by simp
    then have "as_taken s + cap = j" using ring_enc_eq [OF r] t(2) D(6) by simp
    with j have "full" by (simp add: sees_tail_def)
    moreover have "send_refused k m = Done pc'" "s' = s"
      using st full add_chk_enc [OF D(1), of j] by (auto simp: send_reserve_def Let_def outcome_simps t(1))
    ultimately show ?thesis using send_refused_moves [of ?pc k m pc'] by simp
  next
    case moved
    have "s' = s" "pc' = SLoad k m"
      using st moved add_chk_enc [OF D(1), of j] by (auto simp: send_reserve_def Let_def outcome_simps t(1))
    with look_again [OF u, of None] show ?thesis by (auto simp: step_moves_def open_status_def Let_def)
  next
    case look
    with st loaded show ?thesis
      using add_chk_enc [OF D(1), of j] by (auto simp: send_reserve_def Let_def outcome_simps t(1))
  qed
qed

lemma recv_reserve_moves:
  assumes r: "ring p cap s" and j: "sees_head p cap s head j"
    and f: "stamp = head + 1 \<Longrightarrow> j = as_taken s \<Longrightarrow> ready p cap s j"
    and st: "recv_reserve w i k head stamp s = Done (s', pc')"
  shows "step_moves cap s (RStamp k head stamp) s' pc'"
proof -
  note R = ringD(1) [OF r] note D = ring_shapeD [OF R]
  have t: "head = enc p cap j" "j \<le> as_taken s" using j by (simp_all add: sees_head_def)
  consider (cas) "stamp = head + 1" "\<not> w" "ac_head (as_chan s) = head"
    | (other) "stamp = head + 1 \<longrightarrow> w \<or> ac_head (as_chan s) \<noteq> head" by blast
  then show ?thesis
  proof cases
    case cas
    have "enc p cap (as_taken s) = enc p cap j" using cas(3) t(1) D(8) by simp
    then have H: "as_taken s = j" using ring_enc_eq [OF r] t(2) D(6) by simp
    have lt: "j < a_sent s" using f [OF cas(1)] H by (simp add: ready_def)
    from st cas have a: "pc' = RRead k (stamp_index (as_chan s) head) (head + ac_one_lap (as_chan s)) (as_log s ! j)"
      "ring_msgs s' = drop (Suc j) (as_log s)" "array_is_shutdown (as_chan s') = array_is_shutdown (as_chan s)"
      using shape_next [OF R, of j] add_chk_enc [OF D(1), of j] H
      by (auto simp: recv_reserve_def Let_def outcome_simps t(1) a_own_def ring_msgs_def)
    have "ring_msgs s = as_log s ! j # drop (Suc j) (as_log s)"
      using lt by (simp add: ring_msgs_def H Cons_nth_drop_Suc)
    then have "atomic_call (Some cap) (recv_call k) (ring_msgs s) d
        = Some (recv_answer k (Some (as_log s ! j)), drop (Suc j) (as_log s), d)" for d
      by (cases k) (simp_all add: spec_try_recv_def poll_answer_def)
    with a show ?thesis by (auto simp: step_moves_def Let_def intro: effect [of _ "recv_call k"])
  next
    case other
    with st have "s' = s" "status pc' = Pending (recv_call k)"
      using shape_next [OF R, of j] add_chk_enc [OF D(1), of j]
      by (auto simp: recv_reserve_def Let_def outcome_simps t(1) split: if_splits)
    then show ?thesis by (simp add: step_moves_def)
  qed
qed

lemma recv_empty_moves:
  assumes r: "ring p cap s" and j: "sees_head p cap s head j"
    and st: "recv_empty k head s = Done (s', pc')"
  shows "step_moves cap s (REmpty k head) s' pc'"
proof -
  note R = ringD(1) [OF r] note D = ring_shapeD [OF R]
  have t: "head = enc p cap j" "j \<le> as_taken s" using j by (simp_all add: sees_head_def)
  have s': "s' = s" using st by (simp add: recv_empty_def Let_def)
  show ?thesis
  proof (cases "ac_tail (as_chan s) AND NOT (ac_mark_bit (as_chan s)) = head")
    case True
    then have "enc p cap (a_sent s) = enc p cap j" using shape_tail(2) [OF R] t(1) by simp
    then have "a_sent s = j" using ring_enc_eq [OF r] t(2) D(6) by simp
    then have e: "ring_msgs s = []" using t(2) D(6) ring_msgs_facts(4) [OF R] by simp
    have pc': "pc' = (if array_is_shutdown (as_chan s) then RingRet (recv_answer k None) else recv_refused k)"
      using st True by (auto simp: recv_empty_def Let_def array_is_shutdown_def)
    show ?thesis
      using e s' pc'
      by (cases k) (auto simp: step_moves_def Let_def spec_try_recv_def poll_answer_def
          intro!: effect observe)
  next
    case False
    with st s' show ?thesis by (auto simp: recv_empty_def Let_def step_moves_def)
  qed
qed

lemma shut_or_moves:
  assumes r: "ring p cap s" and st: "shut_or s = Done (s', pc')"
  shows "step_moves cap s DOr s' pc'"
proof -
  note R = ringD(1) [OF r]
  from st have s': "s' = a_set ((as_chan s)\<lparr>ac_tail := ac_tail (as_chan s) OR ac_mark_bit (as_chan s)\<rparr>) s"
    "pc' = (if array_is_shutdown (as_chan s) then RingRet (AnsShutdown False) else DWakeS)"
    by (auto simp: shut_or_def Let_def array_is_shutdown_def)
  have "array_is_shutdown (as_chan s')" using mark_tail(3) [OF r s'(1)] .
  moreover have "ring_msgs s' = ring_msgs s" by (simp add: s' a_set_def ring_msgs_def)
  moreover have "status pc' = Decided (AnsShutdown (\<not> array_is_shutdown (as_chan s)))" by (simp add: s')
  ultimately show ?thesis by (auto simp: step_moves_def Let_def intro!: effect)
qed

text \<open>Steps of the calls that only tell the wakers or the clock.\<close>

lemma quiet_moves:
  assumes "a_calm s s'" "status pc' = status pc \<or> (\<exists>c a. status pc = Tentative c a \<and> (status pc' = Decided a \<or> status pc' = Pending c))"
  shows "step_moves n s pc s' pc'"
  using assms(2) calm_msgs [OF assms(1)] by (auto simp: step_moves_def Let_def intro: confirm retract)

lemma a_store_moves:
  assumes "a_store i index st pc' s = Done (s', pc'')" "status pc' = status pc"
  shows "step_moves n s pc s' pc''"
  using assms by (auto simp: a_store_def Let_def step_moves_def a_own_def a_set_def ring_msgs_def split: if_splits)

lemma send_write_moves:
  assumes "send_write a m index st s = Done (s', pc')"
  shows "step_moves n s (SWrite a m index st) s' pc'"
  using assms by (auto simp: send_write_def Let_def step_moves_def a_set_def ring_msgs_def split: if_splits)

lemma len_check_moves:
  assumes r: "ring p cap s" and at: "a_at p cap s i (LCheck tail head n)"
    and st: "len_check tail head s = Done (s', pc')"
  shows "step_moves cap s (LCheck tail head n) s' pc'"
proof -
  from at obtain j d where "as_own s i = None" "tail = tail_word p cap j d" "j \<le> a_sent s"
    "j = a_sent s \<Longrightarrow> \<exists>h. head = enc p cap h \<and> j = h + n \<and> n \<le> cap" by auto
  from len_check_out(2) [OF r this] st have "s' = s" "pc' = LTail \<or> pc' = RingRet (AnsLen (of_nat n))"
    by (auto simp: len_check_def split: if_splits)
  then show ?thesis by (auto intro: quiet_moves)
qed

lemma go_moves:
  assumes r: "ring p cap s" and at: "a_at p cap s i pc"
    and st: "array_go Q ws now i s pc = Done (s', pc')"
  shows "step_moves cap s pc s' pc'"
proof (cases pc)
  case (SLoad k m)
  with st send_loaded_moves [OF r, of pc k m] show ?thesis by simp
next
  case (STail k m tail full)
  with st have "s' = s" "status pc' = status pc" by (auto simp: send_stamp_def Let_def split: if_splits)
  then show ?thesis by (simp add: quiet_moves)
next
  case (SStamp k m tail stamp full)
  with at obtain j where "sees_tail p cap s tail full j"
    "stamp = tail \<Longrightarrow> j = a_sent s \<Longrightarrow> free p cap s j" by auto
  from send_reserve_moves [OF r this] st SStamp show ?thesis by simp
next
  case (SWrite a m index stamp)
  with st send_write_moves show ?thesis by fastforce
next
  case (SStore a index stamp)
  with st a_store_moves [of i index stamp "SWake a" s s' pc' pc] show ?thesis by simp
next
  case (SClock dl m)
  with st have "s' = s" "pc' = (case dl of Some d \<Rightarrow> if now \<ge> d then RingRet (AnsSend (Inl (SendTimeout m))) else SLoad (SBlock dl) m
       | None \<Rightarrow> SLoad (SBlock dl) m)" by (simp_all add: send_clock_def)
  with SClock show ?thesis
    by (cases dl) (auto intro!: quiet_moves simp: Let_def open_status_def full_answer_def is_closed_def into_inner_def)
next
  case (RHead k head)
  with st have "s' = s" "status pc' = status pc" by (auto simp: recv_stamp_def Let_def split: if_splits)
  then show ?thesis by (simp add: quiet_moves)
next
  case (RStamp k head stamp)
  with at obtain j where "sees_head p cap s head j"
    "stamp = head + 1 \<Longrightarrow> j = as_taken s \<Longrightarrow> ready p cap s j" by auto
  from recv_reserve_moves [OF r this] st RStamp show ?thesis by simp
next
  case (REmpty k head)
  with at obtain j where "sees_head p cap s head j" by auto
  from recv_empty_moves [OF r this] st REmpty show ?thesis by simp
next
  case (RRead k index stamp m)
  with at obtain j where "has_slot cap s i False index j" "stamp = enc p cap (j + cap)" "m = as_log s ! j" by auto
  with recv_read_out(1) [OF r this(1,2), of k] st RRead have "s' = s" "pc' = RStore k index stamp m" by auto
  with RRead show ?thesis by (simp add: quiet_moves)
next
  case (RStore k index stamp m)
  with st a_store_moves [of i index stamp "RWake (recv_answer k (Some m))" s s' pc' pc] show ?thesis by simp
next
  case (LHead tail)
  note D = ring_shapeD [OF ringD(1) [OF r]]
  have "atomic_call (Some cap) CLen (ring_msgs s) d = Some (AnsLen (of_nat (a_sent s - as_taken s)), ring_msgs s, d)" for d
    using ring_msgs_facts(1) [OF ringD(1) [OF r]] by simp
  with LHead st show ?thesis by (auto simp: step_moves_def Let_def intro!: observe)
next
  case (LCheck tail head n)
  with at st len_check_moves [OF r] show ?thesis by simp
next
  case DOr
  with st shut_or_moves [OF r] show ?thesis by simp
next
  case DIs
  with st show ?thesis by (auto simp: step_moves_def Let_def intro!: effect)
qed (use st in \<open>auto intro!: quiet_moves simp: wake_receiver_def wake_sender_def send_register_def poll_first_def
    poll_update_def poll_register_def shut_senders_def shut_receivers_def Let_def outcome_simps split: if_splits\<close>)

lemma array_step_moves:
  assumes r: "ring p cap s" and at: "a_at p cap s i pc"
    and st: "array_step Q inp i s pc = Done (s', pc')"
  shows "step_moves cap s pc s' pc'"
proof (cases inp)
  case (RingCall c)
  with st have "pc = RingIdle" "s' = s" "pc' = first_pc c" by (auto split: if_splits)
  then show ?thesis by (cases c) (auto simp: step_moves_def intro: invoke)
next
  case RingTake
  with st obtain a where "pc = RingRet a" "s' = s" "pc' = RingIdle" by (auto split: array_pc.splits)
  then show ?thesis by (auto simp: step_moves_def intro: return)
next
  case (RingGo ws now)
  with go_moves [OF r at] st show ?thesis by simp
qed

interpretation array_sim: simulation "within unwrapped (array_step Q)" "assertions (ring p cap) (a_at p cap)"
    "assertions (ring p cap) (a_at p cap)" ring_abs "atomic_step (Some cap)"
  for Q :: "('q, 't) aq_ops" and p cap
proof unfold_locales
  fix s s' :: "('q, 't, 'm) asys" and ps i inp and pc' :: "('m, 't) array_pc"
  assume a: "assertions (ring p cap) (a_at p cap) (s, ps)" "i < length ps"
    "within unwrapped (array_step Q) inp i s (ps ! i) = Done (s', pc')"
  have st: "array_step Q inp i s (ps ! i) = Done (s', pc')" using a(3) by (simp add: within_eq_Done)
  have at: "ring p cap s" "a_at p cap s i (ps ! i)" using a(1,2) by (simp_all add: assertions_def)
  show "ring_abs (s', ps[i := pc']) = ring_abs (s, ps) \<or> atomic_step (Some cap) (ring_abs (s, ps)) (ring_abs (s', ps[i := pc']))"
    by (rule step_moves_lift [OF array_step_moves [OF at st] a(2)])
qed

end
