(* ===== verification/Array_Conc_Props.thy ===== *)
theory Array_Conc_Props
  imports Array_Lin Array_Props
begin

text \<open>
  The properties of the concurrent bounded channel, for any number of threads that start
  with no call on a new channel. They hold as long as fewer than
  \<open>cap * 2 ^ 64 div one_lap - cap\<close> messages have been sent (\<open>unwrapped\<close>): for a channel
  of capacity 2 these are \<open>2 ^ 62 - 2\<close>. After that a thread that has slept for a whole round
  of laps could take a stamp for one it has seen before.
\<close>

unbundle bit_operations_syntax

section \<open>A new channel\<close>

definition ring_start ::
    "('q, 't, 'm) achan \<Rightarrow> nat \<Rightarrow> ('q, 't, 'm) asys \<times> ('m, 't) array_pc list" where
  "ring_start ch n = (asys_new ch, replicate n RingIdle)"

lemma with_capacity_bounds: "with_capacity Q slot_size cap = Done ch \<Longrightarrow> cap \<noteq> 0 \<and> unat cap * slot_size \<le> 2 ^ 63 - 1"
  by (auto simp: with_capacity_def outcome_simps Let_def split: if_splits)

lemma asys_new_ring:
  fixes Q :: "('q, 't) aq_ops" and ch :: "('q, 't, 'm) achan"
  assumes "8 \<le> slot_size" "with_capacity Q slot_size cap = Done ch"
  obtains p where "ring_shape p (unat cap) (asys_new ch)" "ac_cap ch = cap"
    "unwrapped (asys_new ch) \<Longrightarrow> ring p (unat cap) (asys_new ch)"
proof -
  have "0 < cap" "unat cap * slot_size \<le> 2 ^ 63 - 1"
    using with_capacity_bounds [OF assms(2)] by (simp_all add: word_gt_0)
  from with_capacity_done [OF this(1) assms(1) this(2), of Q]
  obtain p where g: "geom p (unat cap)" and ch: "ch = \<lparr>ac_head = 0, ac_tail = 0,
            ac_buffer = map (\<lambda>i. \<lparr>s_stamp = of_nat i, s_msg = None\<rparr>) [0..<unat cap],
            ac_cap = cap, ac_one_lap = 2 ^ Suc p, ac_mark_bit = 2 ^ p,
            ac_senders = swaker_new Q, ac_receivers = swaker_new Q, ac_first = True\<rparr>"
    using assms(2) by (metis outcome.inject)
  have shut: "\<not> array_is_shutdown ch" by (simp add: ch array_is_shutdown_def)
  have sh: "ring_shape p (unat cap) (asys_new ch)"
    using g shut by (simp add: ring_shape_def asys_new_def tail_word_def) (simp add: ch)
  have "cell p (unat cap) (asys_new ch) k" if "k < unat cap" for k
    using that by (simp add: cell_def asys_new_def ch busy_def enc_def pos_def)
  moreover have "owners_ok (unat cap) (asys_new ch)" by (simp add: owners_ok_def asys_new_def)
  ultimately have "unwrapped (asys_new ch) \<Longrightarrow> ring p (unat cap) (asys_new ch)"
    using sh by (simp add: ring_def) (simp add: asys_new_def)
  with sh that show thesis by (simp add: ch)
qed

text \<open>What holds whenever the laps have not come round.\<close>

lemma reachable_ring:
  fixes Q :: "('q, 't) aq_ops" and s :: "('q, 't, 'm) asys"
  assumes "8 \<le> slot_size" "with_capacity Q slot_size cap = Done ch"
    and run: "reachable (array_step Q) (ring_start ch n) (s, ps)" and u: "unwrapped s"
  obtains p where "ring p (unat cap) s" "\<And>i. i < length ps \<Longrightarrow> a_at p (unat cap) s i (ps ! i)"
    "(atomic_step (Some (unat cap)))\<^sup>*\<^sup>* (atomic_new n) (ring_abs (s, ps))"
proof -
  have w: "reachable (within unwrapped (array_step Q)) (ring_start ch n) (s, ps)"
    using run u by (intro reachable_within) (auto intro: unwrapped_before)
  have "unwrapped (fst c)" if "reachable (array_step Q) c (s, ps)" for c
    using that u
    by (induction "(s, ps)" arbitrary: s ps rule: reachable.induct) (auto dest: unwrapped_before)
  from this [OF run] have "unwrapped (asys_new ch)" by (simp add: ring_start_def)
  with asys_new_ring [OF assms(1,2)] obtain p where r: "ring p (unat cap) (asys_new ch)" by metis
  have start: "assertions (ring p (unat cap)) (a_at p (unat cap)) (ring_start ch n)"
    using r by (simp add: assertions_def ring_start_def asys_new_def)
  have "assertions (ring p (unat cap)) (a_at p (unat cap)) (s, ps)"
    by (rule ring_inv.inter.reachable_Inv [OF w start])
  moreover have "(atomic_step (Some (unat cap)))\<^sup>*\<^sup>* (ring_abs (ring_start ch n)) (ring_abs (s, ps))"
    by (rule array_sim.reachable_refines [OF w start])
  moreover have "ring_abs (ring_start ch n) = atomic_new n"
  proof -
    have "\<not> array_is_shutdown ch"
      using shape_tail(1) [OF ringD(1) [OF r]] ring_shapeD(9) [OF ringD(1) [OF r]] assms(2)
      by (auto simp: asys_new_def with_capacity_def array_is_shutdown_def outcome_simps Let_def split: if_splits)
    then show ?thesis by (simp add: ring_abs_def ring_start_def atomic_new_def asys_new_def ring_msgs_def)
  qed
  ultimately show thesis using that [of p] by (simp add: assertions_def)
qed

section \<open>A concrete run\<close>

text \<open>
  On a new channel of capacity 2, thread 0 reserves a slot for 7 and thread 1 one for 9;
  thread 1 finishes first; thread 2 cannot receive before thread 0 has stored its stamp,
  and then receives 7; thread 1 asks for the length.
\<close>

definition go :: "(nat, nat) array_input" where
  "go = RingGo [False] 0"

definition overtaking :: "(nat \<times> (nat, nat) array_input) list" where
  "overtaking = (0, RingCall (CSend (STry 5) 7)) # replicate 3 (0, go)
     @ (1, RingCall (CSend (STry 6) 9)) # replicate 6 (1, go) @ [(1, RingTake)]"

definition serving :: "(nat \<times> (nat, nat) array_input) list" where
  "serving = overtaking @ (2, RingCall CTryRecv) # replicate 4 (2, go)
     @ replicate 3 (0, go) @ replicate 6 (2, go) @ (1, RingCall CLen) # replicate 3 (1, go)"

definition ring_final :: "(nat \<times> (nat, nat) array_input) list
    \<Rightarrow> ((nat \<times> nat list, nat, nat) asys \<times> (nat, nat) array_pc list) option" where
  "ring_final sched = run (array_step list_aq) sched (ring_start ex_empty 3)"

lemma serving_run:
  "case ring_final serving of None \<Rightarrow> False | Some (s, ps) \<Rightarrow>
     as_log s = [7, 9] \<and> as_taken s = 1 \<and> ac_cap (as_chan s) = 2 \<and> ac_one_lap (as_chan s) = 8 \<and>
     ps = [RingRet (AnsTrySend (Inr ())), RingRet (AnsLen 1), RingRet (AnsTryRecv (Inr 7))]"
  by code_simp

lemma serving_reachable:
  obtains s :: "(nat \<times> nat list, nat, nat) asys" and ps where
    "reachable (array_step list_aq) (ring_start ex_empty 3) (s, ps)" "unwrapped s"
    "as_log s = [7, 9]" "as_taken s = 1"
    "ps = [RingRet (AnsTrySend (Inr ())), RingRet (AnsLen 1), RingRet (AnsTryRecv (Inr (7 :: nat)))]"
proof -
  obtain s ps where r: "ring_final serving = Some (s, ps)"
    using serving_run by (auto split: option.splits)
  with serving_run have f: "as_log s = [7, 9]" "as_taken s = 1" "ac_cap (as_chan s) = 2" "ac_one_lap (as_chan s) = 8"
    "ps = [RingRet (AnsTrySend (Inr ())), RingRet (AnsLen 1), RingRet (AnsTryRecv (Inr 7))]" by simp_all
  moreover have "unwrapped s" by (simp add: unwrapped_def f)
  moreover have "reachable (array_step list_aq) (ring_start ex_empty 3) (s, ps)"
    by (rule run_reachable [OF r [unfolded ring_final_def]])
  ultimately show thesis using that by blast
qed

section \<open>Properties\<close>







text \<open>
  C24. The words of the channel keep their shape under concurrency, as the comments of
  \<open>src/array.rs\<close> describe it: the mark bit is a power of two above the capacity and a lap
  twice that; the mark bit in the head is always zero; the indices in the head and the
  tail are those of slots of the buffer, which has as many slots as the capacity says.
\<close>

theorem bounded_words_typed:
  fixes Q :: "('q, 't) aq_ops" and s :: "('q, 't, 'm) asys"
  assumes "8 \<le> slot_size" "with_capacity Q slot_size cap = Done ch"
    and "reachable (array_step Q) (ring_start ch n) (s, ps)" "unwrapped s"
  shows "(\<exists>p. ac_mark_bit (as_chan s) = 2 ^ p \<and> unat cap < 2 ^ p \<and> p < 63)
    \<and> ac_one_lap (as_chan s) = 2 * ac_mark_bit (as_chan s)
    \<and> ac_head (as_chan s) AND ac_mark_bit (as_chan s) = 0
    \<and> length (ac_buffer (as_chan s)) = unat cap
    \<and> stamp_index (as_chan s) (ac_head (as_chan s)) < unat cap
    \<and> stamp_index (as_chan s) (ac_tail (as_chan s)) < unat cap"
proof -
  obtain p where r: "ring p (unat cap) s" by (rule reachable_ring [OF assms(1-4)])
  note R = ringD(1) [OF r] note D = ring_shapeD [OF R] and g = geomD [OF ring_shapeD(1) [OF R]]
  have "stamp_index (as_chan s) (ac_tail (as_chan s)) = a_sent s mod unat cap"
    by (simp only: stamp_index_def D(4,9) tail_word_masks(3) [OF D(1)] unat_of_nat_index [OF D(1)])
  moreover have "stamp_index (as_chan s) (ac_head (as_chan s)) = as_taken s mod unat cap"
    by (simp only: D(8) shape_index [OF R])
  moreover have "ac_head (as_chan s) AND ac_mark_bit (as_chan s) = 0"
    by (simp only: D(4,8) enc_and_mark [OF D(1)])
  moreover have "ac_one_lap (as_chan s) = 2 * ac_mark_bit (as_chan s)" by (simp add: D(4,5))
  ultimately show ?thesis using D(2,4,10) g by auto
qed

theorem bounded_words_typed_witness:
  "\<exists>s :: (nat \<times> nat list, nat, nat) asys. as_taken s = 1 \<and> ac_head (as_chan s) AND ac_mark_bit (as_chan s) = 0"
proof -
  obtain s :: "(nat \<times> nat list, nat, nat) asys" and ps :: "(nat, nat) array_pc list" where
    r: "reachable (array_step list_aq) (ring_start ex_empty 3) (s, ps)" "unwrapped s" "as_taken s = 1"
    by (rule serving_reachable)
  with bounded_words_typed [OF _ ex_new r(1,2)] show ?thesis by (intro exI [of _ s]) simp
qed

text \<open>
  C25. The channel never holds more messages than its capacity, and \<open>len\<close>, which loads the
  tail, the head and the tail again while other threads move them, never answers more than
  the capacity and never underflows.
\<close>

theorem bounded_len_bounds:
  fixes Q :: "('q, 't) aq_ops" and s :: "('q, 't, 'm) asys"
  assumes "8 \<le> slot_size" "with_capacity Q slot_size cap = Done ch"
    and "reachable (array_step Q) (ring_start ch n) (s, ps)" "unwrapped s" and "i < length ps"
  shows "length (ring_msgs s) \<le> unat cap \<and> (ps ! i = RingRet (AnsLen k) \<longrightarrow> k \<le> cap)
    \<and> (\<forall>tail head h. ps ! i = LCheck tail head h \<longrightarrow> is_done (len_check tail head s))"
proof -
  obtain p where r: "ring p (unat cap) s" and at: "\<And>i. i < length ps \<Longrightarrow> a_at p (unat cap) s i (ps ! i)"
    by (rule reachable_ring [OF assms(1-4)]) blast
  have "is_done (len_check tail head s)" if l: "ps ! i = LCheck tail head h" for tail head h
  proof -
    from at [OF assms(5)] l obtain j d where "as_own s i = None" "tail = tail_word p (unat cap) j d" "j \<le> a_sent s"
      "j = a_sent s \<Longrightarrow> \<exists>g. head = enc p (unat cap) g \<and> j = g + h \<and> h \<le> unat cap" by auto
    from len_check_out(2) [OF r this] show ?thesis
      by (cases "ac_tail (as_chan s) = tail") (simp_all add: len_check_def)
  qed
  then show ?thesis
    using ring_msgs_facts(2) [OF ringD(1) [OF r]] at [OF assms(5)] by (auto simp: word_le_nat_alt)
qed

theorem bounded_len_bounds_witness:
  "\<exists>(s :: (nat \<times> nat list, nat, nat) asys) (ps :: (nat, nat) array_pc list).
     ps ! 1 = RingRet (AnsLen 1) \<and> length (ring_msgs s) = 1 \<and> length (ring_msgs s) \<le> unat (2 :: usize)"
proof -
  obtain s :: "(nat \<times> nat list, nat, nat) asys" and ps where
    r: "reachable (array_step list_aq) (ring_start ex_empty 3) (s, ps)" "unwrapped s"
    "as_log s = [7, 9]" "as_taken s = 1"
    "ps = [RingRet (AnsTrySend (Inr ())), RingRet (AnsLen 1), RingRet (AnsTryRecv (Inr (7 :: nat)))]"
    by (rule serving_reachable)
  with bounded_len_bounds [OF _ ex_new r(1,2), of 1 1] show ?thesis
    by (intro exI [of _ s] exI [of _ ps]) (simp add: ring_msgs_def)
qed

section \<open>A receiver that does not return\<close>

text \<open>The states of thread 2 while thread 0 sleeps between its reservation and its store.\<close>

definition receiver_spins :: "(nat, nat) array_pc \<Rightarrow> bool" where
  "receiver_spins pc \<longleftrightarrow> pc \<in> {RLoad RTry, RHead RTry 0, RStamp RTry 0 0, REmpty RTry 0}"

definition sender_sleeps :: "(nat \<times> nat list, nat, nat) asys \<Rightarrow> bool" where
  "sender_sleeps s \<longleftrightarrow> ac_head (as_chan s) = 0 \<and> ac_tail (as_chan s) = 8 \<and> ac_mark_bit (as_chan s) = 4
     \<and> length (ac_buffer (as_chan s)) = 2 \<and> s_stamp (ac_buffer (as_chan s) ! 0) = 0"

lemma overtaking_run:
  "case ring_final (overtaking @ [(2, RingCall CTryRecv)]) of None \<Rightarrow> False | Some (s, ps) \<Rightarrow>
     sender_sleeps s \<and> ring_msgs s = [7, 9] \<and> ps = [SWrite (AnsTrySend (Inr ())) 7 0 1, RingIdle, RLoad RTry]"
  by code_simp

lemma spins_on:
  assumes "sender_sleeps s" "receiver_spins pc" "array_step list_aq inp i s pc = Done (s', pc')"
  shows "s' = s \<and> receiver_spins pc'"
proof (cases inp)
  case (RingGo ws now)
  have "stamp_index (as_chan s) 0 = 0" "add_chk (0 :: usize) 1 = Done 1" "(8 :: usize) AND NOT 4 = 8"
    using assms(1) by (simp_all add: stamp_index_def sender_sleeps_def add_chk_def)
  with assms RingGo show ?thesis
    by (auto simp: receiver_spins_def sender_sleeps_def recv_stamp_def recv_reserve_def recv_empty_def Let_def
        split: if_splits)
qed (use assms in \<open>auto simp: receiver_spins_def\<close>)

text \<open>
  C26. \<open>try_recv\<close> can spin for ever: after a sender has moved the tail and before it has
  stored the stamp, a thread that calls \<open>try_recv\<close> does not return, however many steps it
  takes, until that sender runs again; a message that another sender has sent since waits
  behind it. The comment on \<open>try_recv\<close> promises not to block.
\<close>

theorem bounded_try_recv_spins:
  "\<exists>s ps. reachable (array_step list_aq) (ring_start ex_empty 3) (s, ps) \<and> ring_msgs s = [7, 9]
     \<and> ps = [SWrite (AnsTrySend (Inr ())) 7 0 1, RingIdle, RLoad RTry]
     \<and> (\<forall>sched c. (\<forall>x \<in> set sched. fst x = 2) \<longrightarrow> run (array_step list_aq) sched (s, ps) = Some c
          \<longrightarrow> receiver_spins (snd c ! 2))"
proof -
  obtain s ps where r: "ring_final (overtaking @ [(2, RingCall CTryRecv)]) = Some (s, ps)"
    using overtaking_run by (auto split: option.splits)
  with overtaking_run have f: "sender_sleeps s" "ring_msgs s = [7, 9]"
    "ps = [SWrite (AnsTrySend (Inr ())) 7 0 1, RingIdle, RLoad RTry]" by simp_all
  have spin: "receiver_spins (snd c ! 2)"
    if "\<forall>x \<in> set sched. fst x = 2" "run (array_step list_aq) sched (s, qs) = Some c"
      "length qs = 3" "receiver_spins (qs ! 2)" for sched c qs
    using that
  proof (induction sched arbitrary: qs)
    case Nil
    then show ?case by auto
  next
    case (Cons x sched)
    obtain inp where x: "x = (2, inp)" using Cons.prems(1) by (cases x) auto
    from Cons.prems(2,3) x obtain s' pc' where st: "array_step list_aq inp 2 s (qs ! 2) = Done (s', pc')"
      and rest: "run (array_step list_aq) sched (s', qs[2 := pc']) = Some c"
      by (auto split: outcome.splits)
    from spins_on [OF f(1) Cons.prems(4) st] rest Cons.prems(1,3) show ?case
      by (intro Cons.IH [of "qs[2 := pc']"]) auto
  qed
  have "reachable (array_step list_aq) (ring_start ex_empty 3) (s, ps)"
    by (rule run_reachable [OF r [unfolded ring_final_def]])
  moreover have "\<forall>sched c. (\<forall>x \<in> set sched. fst x = 2) \<longrightarrow> run (array_step list_aq) sched (s, ps) = Some c
      \<longrightarrow> receiver_spins (snd c ! 2)"
    using spin [of _ ps] f(3) by (simp add: receiver_spins_def)
  ultimately show ?thesis using f(2,3) by blast
qed

theorem bounded_try_recv_spins_witness:
  "\<exists>(s :: (nat \<times> nat list, nat, nat) asys) c. ring_msgs s = [7, 9]
     \<and> run (array_step list_aq) [(2, go)] (s, [SWrite (AnsTrySend (Inr ())) 7 0 1, RingIdle, RLoad RTry]) = Some c
     \<and> receiver_spins (snd c ! 2)"
proof -
  obtain s :: "(nat \<times> nat list, nat, nat) asys" and ps :: "(nat, nat) array_pc list" where f: "ring_msgs s = [7, 9]"
    "ps = [SWrite (AnsTrySend (Inr ())) 7 0 1, RingIdle, RLoad RTry]"
    and spin: "\<And>sched c. (\<forall>x \<in> set sched. fst x = 2) \<Longrightarrow> run (array_step list_aq) sched (s, ps) = Some c
      \<Longrightarrow> receiver_spins (snd c ! 2)"
    using bounded_try_recv_spins by metis
  have "run (array_step list_aq) [(2, go)] (s, ps) = Some (s, ps[2 := RHead RTry (ac_head (as_chan s))])"
    by (simp add: f go_def)
  with spin [OF _ this] f show ?thesis by auto
qed

end
