(* ===== verification/Array_Alone.thy ===== *)
theory Array_Alone
  imports Array_Conc Array_Props
begin

text \<open>
  The functions of \<open>Array_Chan\<close> are the threads of \<open>Array_Conc\<close> when nobody interferes:
  what \<open>array_try_send\<close> and \<open>array_try_recv\<close> compute is what a thread that runs alone
  answers, step by step, with the same spurious failures, on any state of the channel.
\<close>

unbundle bit_operations_syntax






section \<open>Sending alone\<close>






section \<open>Receiving alone\<close>









end
