(* ===== verification/List_Conc.thy ===== *)
theory List_Conc
  imports List_Chan Chan_Calls Interleave
begin

text \<open>
  The unbounded channel of \<open>src/list.rs\<close> under concurrency: \<open>try_send\<close>, \<open>send\<close>,
  \<open>try_recv\<close>, \<open>shutdown\<close>, \<open>is_shutdown\<close>, \<open>len\<close> and the traits \<open>Stream\<close> and \<open>Sink\<close> as
  the atomic steps of a thread. Every load, store or exchange of an index, a block pointer,
  a \<open>next\<close> pointer or the state of a slot is a step of its own, and so are the write and
  the read of a message; a call of an \<open>AtomicSerialWaker\<close> is one step. The channel, its
  heap and the computations on its words are those of \<open>List_Chan\<close>. What a thread computes
  from a word it has just loaded belongs to the step that loads it, and so does the
  allocation or the drop of a block no other thread can see.
\<close>

unbundle bit_operations_syntax

section \<open>Threads\<close>

text \<open>
  Where a thread is. \<open>ULoad\<close>, \<open>UBlock\<close>: before the loads of the tail index and the tail
  block in \<open>start_send\<close>, the option is \<open>next_block\<close>; \<open>USwap\<close>: before the
  \<open>compare_and_swap\<close> that installs the first block, \<open>UHead\<close>: before the block becomes that
  of the head; \<open>UCas\<close>: before the exchange of the tail index; \<open>UStore\<close>, \<open>UAdd\<close>, \<open>ULink\<close>:
  the three steps that install the next block; \<open>UWrite\<close>, \<open>UState\<close>, \<open>UWake\<close>: inside
  \<open>write\<close>. \<open>VLoad\<close> to \<open>VCas\<close>: inside the loop of \<open>start_recv\<close>, \<open>VTail\<close> before the load
  of the tail; \<open>VNext\<close>, \<open>VPeek\<close>, \<open>VHead\<close>, \<open>VIndex\<close>: the steps that move the head to the
  next block; \<open>VWait\<close>, \<open>VRead\<close>, \<open>VMark\<close>: inside \<open>read\<close> or \<open>poll_read\<close>; \<open>VScan\<close> and
  \<open>VFlag\<close>: inside \<open>destroy\<close>, before the load and the \<open>fetch_or\<close> of the state of a slot.
  \<open>GFirst\<close> to \<open>GReg\<close>: inside \<open>poll\<close>. \<open>EOr\<close>, \<open>EWake\<close>: inside \<open>shutdown\<close>; \<open>EIs\<close>:
  \<open>is_shutdown\<close>. \<open>NTail\<close> to \<open>NCheck\<close>: inside \<open>len\<close>. \<open>ListRet\<close>: the call has returned.
  The number of \<open>NCheck\<close> is a history variable: how many messages there were when the
  head was loaded.
\<close>

datatype ('m, 't) list_pc =
    ListIdle
  | ULoad "'t sender" 'm "nat option"
  | UBlock "'t sender" 'm "nat option" usize
  | USwap "'t sender" 'm "nat option" usize nat
  | UHead "'t sender" 'm "nat option" usize nat
  | UCas "'t sender" 'm "nat option" usize nat
  | UStore "'m chan_answer" 'm nat nat
  | UAdd "'m chan_answer" 'm nat nat
  | ULink "'m chan_answer" 'm nat nat
  | UWrite "'m chan_answer" 'm nat nat
  | UState "'m chan_answer" nat nat
  | UWake "'m chan_answer"
  | VLoad "'t receiver"
  | VBlock "'t receiver" usize
  | VTail "'t receiver" usize "nat option"
  | VCas "'t receiver" usize usize nat
  | VNext "'t receiver" nat usize
  | VPeek "'t receiver" nat usize nat
  | VHead "'t receiver" nat usize nat
  | VIndex "'t receiver" nat usize
  | VWait "'t receiver" nat nat
  | VRead "'t receiver" nat nat
  | VMark "'t receiver" nat nat 'm
  | VScan "'m chan_answer" nat nat
  | VFlag "'m chan_answer" nat nat
  | GFirst 't
  | GUpdate 't
  | GReg 't
  | EOr
  | EWake
  | EIs
  | NTail
  | NHead usize
  | NCheck usize usize nat
  | ListRet "'m chan_answer"

fun list_first_pc :: "('m, 't) chan_call \<Rightarrow> ('m, 't) list_pc" where
  "list_first_pc (CSend k m) = ULoad k m None"
| "list_first_pc CTryRecv = VLoad RTry"
| "list_first_pc (CPoll t) = VLoad (RPoll t)"
| "list_first_pc CShutdown = EOr"
| "list_first_pc CIsShutdown = EIs"
| "list_first_pc CLen = NTail"

text \<open>
  Who is to destroy a block: nobody before its last slot is read; a thread inside
  \<open>destroy\<close>; the thread that is still reading the slot in which the \<open>DESTROY\<close> bit was
  left; and nobody any more.
\<close>

datatype baton = Whole | Held nat | Left nat | Gone

text \<open>
  The channel, and its history: the messages whose slots were reserved by senders, oldest
  first; how many of these were reserved by receivers; the message each thread is writing
  (\<open>True\<close>) or reading, by its position in the log; the blocks that were put into the list,
  in order; the thread that has moved the tail (the head) to the end of a block and not
  yet to the next block; the thread that has put the first block into the tail and not
  yet into the head; the threads that own the blocks they have allocated and not
  installed; and the state of the destruction of each block.
\<close>

record ('q, 't, 'm) lsys =
  ly_chan :: "('q, 't, 'm) lchan"
  ly_log :: "'m list"
  ly_taken :: nat
  ly_own :: "nat \<Rightarrow> (bool \<times> nat) option"
  ly_blocks :: "nat list"
  ly_tgap :: "nat option"
  ly_hgap :: "nat option"
  ly_first :: "nat option"
  ly_box :: "nat \<Rightarrow> nat option"
  ly_baton :: "nat \<Rightarrow> baton"

definition lsys_new :: "('q, 't, 'm) lchan \<Rightarrow> ('q, 't, 'm) lsys" where
  "lsys_new ch = \<lparr>ly_chan = ch, ly_log = [], ly_taken = 0, ly_own = \<lambda>_. None, ly_blocks = [],
     ly_tgap = None, ly_hgap = None, ly_first = None, ly_box = \<lambda>_. None, ly_baton = \<lambda>_. Whole\<rparr>"

definition l_own :: "nat \<Rightarrow> (bool \<times> nat) option \<Rightarrow> ('q, 't, 'm) lsys \<Rightarrow> ('q, 't, 'm) lsys" where
  "l_own i v s = s\<lparr>ly_own := (ly_own s)(i := v)\<rparr>"

definition l_baton :: "nat \<Rightarrow> baton \<Rightarrow> ('q, 't, 'm) lsys \<Rightarrow> ('q, 't, 'm) lsys" where
  "l_baton b v s = s\<lparr>ly_baton := (ly_baton s)(b := v)\<rparr>"

definition l_set :: "('q, 't, 'm) lchan \<Rightarrow> ('q, 't, 'm) lsys \<Rightarrow> ('q, 't, 'm) lsys" where
  "l_set ch s = s\<lparr>ly_chan := ch\<rparr>"

text \<open>\<open>Box::new(Block::new())\<close> in a local variable of thread \<open>i\<close>, and its drop.\<close>

definition box_new :: "nat \<Rightarrow> ('q, 't, 'm) lsys \<Rightarrow> nat \<times> ('q, 't, 'm) lsys" where
  "box_new i s =
     (let (a, ch) = list_alloc (ly_chan s) in
      (a, s\<lparr>ly_chan := ch, ly_box := (ly_box s)(a := Some i)\<rparr>))"

definition box_drop :: "nat option \<Rightarrow> ('q, 't, 'm) lsys \<Rightarrow> ('q, 't, 'm) lsys outcome" where
  "box_drop nb s =
     (case nb of
        None \<Rightarrow> Done s
      | Some b \<Rightarrow> obind (list_free b (ly_chan s)) (\<lambda>ch.
          Done (s\<lparr>ly_chan := ch, ly_box := (ly_box s)(b := None)\<rparr>)))"

section \<open>Sending\<close>

text \<open>
  What a send answers when \<open>write\<close> has returned. \<open>try_send\<close> maps the error of \<open>send\<close>, and
  the sink that of \<open>try_send\<close>.
\<close>

fun list_answer :: "'t sender \<Rightarrow> 'm + unit \<Rightarrow> 'm chan_answer outcome" where
  "list_answer (STry t) r = Done (AnsTrySend (try_written r))"
| "list_answer (SSink t) r =
     (case try_written r of
        Inr _ \<Rightarrow> Done (AnsSink (Inr SinkReady))
      | Inl e \<Rightarrow> if is_closed e then Done (AnsSink (Inl SendError)) else Panic)"
| "list_answer (SBlock dl) r =
     Done (AnsSend (case r of Inl m \<Rightarrow> Inl (SendDisconnected m) | Inr u \<Rightarrow> Inr u))"

text \<open>The tail block is loaded, after the index \<open>tail\<close>.\<close>

definition list_send_block ::
    "nat \<Rightarrow> 't sender \<Rightarrow> 'm \<Rightarrow> nat option \<Rightarrow> usize \<Rightarrow> ('q, 't, 'm) lsys
     \<Rightarrow> (('q, 't, 'm) lsys \<times> ('m, 't) list_pc) outcome" where
  "list_send_block i k m nb tail s =
     (if tail AND MARK_BIT \<noteq> 0 then
        obind (box_drop nb s) (\<lambda>s1. obind (list_answer k (Inl m)) (\<lambda>a. Done (s1, ListRet a)))
      else let offset = list_offset tail in
      if offset = BLOCK_CAP then Done (s, ULoad k m nb)
      else
        let (nb1, s1) = (if offset + 1 = BLOCK_CAP \<and> nb = None
                         then (let (a, s') = box_new i s in (Some a, s')) else (nb, s)) in
        (case po_block (lc_tail (ly_chan s)) of
           None \<Rightarrow> let (new, s2) = box_new i s1 in Done (s2, USwap k m nb1 tail new)
         | Some b \<Rightarrow> Done (s1, UCas k m nb1 tail b)))"

definition list_send_swap ::
    "nat \<Rightarrow> 't sender \<Rightarrow> 'm \<Rightarrow> nat option \<Rightarrow> usize \<Rightarrow> nat \<Rightarrow> ('q, 't, 'm) lsys
     \<Rightarrow> (('q, 't, 'm) lsys \<times> ('m, 't) list_pc) outcome" where
  "list_send_swap i k m nb tail new s =
     (let ch = ly_chan s in
      if po_block (lc_tail ch) = None
      then Done (s\<lparr>ly_chan := ch\<lparr>lc_tail := (lc_tail ch)\<lparr>po_block := Some new\<rparr>\<rparr>,
                   ly_blocks := ly_blocks s @ [new], ly_box := (ly_box s)(new := None),
                   ly_first := Some i\<rparr>,
                 UHead k m nb tail new)
      else obind (box_drop nb s) (\<lambda>s1. Done (s1, ULoad k m (Some new))))"

definition list_send_head ::
    "'t sender \<Rightarrow> 'm \<Rightarrow> nat option \<Rightarrow> usize \<Rightarrow> nat \<Rightarrow> ('q, 't, 'm) lsys
     \<Rightarrow> (('q, 't, 'm) lsys \<times> ('m, 't) list_pc) outcome" where
  "list_send_head k m nb tail new s =
     (let ch = ly_chan s in
      Done (s\<lparr>ly_chan := ch\<lparr>lc_head := (lc_head ch)\<lparr>po_block := Some new\<rparr>\<rparr>, ly_first := None\<rparr>,
            UCas k m nb tail new))"

text \<open>\<open>w\<close>: the weak exchange fails spuriously.\<close>

definition list_send_cas ::
    "bool \<Rightarrow> nat \<Rightarrow> 't sender \<Rightarrow> 'm \<Rightarrow> nat option \<Rightarrow> usize \<Rightarrow> nat \<Rightarrow> ('q, 't, 'm) lsys
     \<Rightarrow> (('q, 't, 'm) lsys \<times> ('m, 't) list_pc) outcome" where
  "list_send_cas w i k m nb tail block s =
     (let ch = ly_chan s; offset = list_offset tail in
      obind (add_chk tail one_shift) (\<lambda>new_tail.
      if \<not> w \<and> po_index (lc_tail ch) = tail then
        obind (list_answer k (Inr ())) (\<lambda>a.
        let s1 = l_own i (Some (True, length (ly_log s)))
              (s\<lparr>ly_chan := ch\<lparr>lc_tail := (lc_tail ch)\<lparr>po_index := new_tail\<rparr>\<rparr>,
                 ly_log := ly_log s @ [m]\<rparr>) in
        if offset + 1 = BLOCK_CAP then
          (case nb of
             None \<Rightarrow> Panic
           | Some new \<Rightarrow> Done (s1\<lparr>ly_tgap := Some i\<rparr>, UStore a m block new))
        else obind (box_drop nb s1) (\<lambda>s2. Done (s2, UWrite a m block offset)))
      else Done (s, UBlock k m nb (po_index (lc_tail ch)))))"

definition list_install_store ::
    "'m chan_answer \<Rightarrow> 'm \<Rightarrow> nat \<Rightarrow> nat \<Rightarrow> ('q, 't, 'm) lsys
     \<Rightarrow> (('q, 't, 'm) lsys \<times> ('m, 't) list_pc) outcome" where
  "list_install_store a m block new s =
     (let ch = ly_chan s in
      Done (s\<lparr>ly_chan := ch\<lparr>lc_tail := (lc_tail ch)\<lparr>po_block := Some new\<rparr>\<rparr>,
              ly_blocks := ly_blocks s @ [new], ly_box := (ly_box s)(new := None)\<rparr>,
            UAdd a m block new))"

definition list_install_add ::
    "'m chan_answer \<Rightarrow> 'm \<Rightarrow> nat \<Rightarrow> nat \<Rightarrow> ('q, 't, 'm) lsys
     \<Rightarrow> (('q, 't, 'm) lsys \<times> ('m, 't) list_pc) outcome" where
  "list_install_add a m block new s =
     (let ch = ly_chan s in
      Done (s\<lparr>ly_chan := ch\<lparr>lc_tail := (lc_tail ch)\<lparr>po_index := po_index (lc_tail ch) + one_shift\<rparr>\<rparr>,
              ly_tgap := None\<rparr>,
            ULink a m block new))"

definition list_install_link ::
    "'m chan_answer \<Rightarrow> 'm \<Rightarrow> nat \<Rightarrow> nat \<Rightarrow> ('q, 't, 'm) lsys
     \<Rightarrow> (('q, 't, 'm) lsys \<times> ('m, 't) list_pc) outcome" where
  "list_install_link a m block new s =
     obind (get_block (Some block) (ly_chan s)) (\<lambda>bl.
     Done (l_set (set_block (Some block) (bl\<lparr>bl_next := Some new\<rparr>) (ly_chan s)) s,
           UWrite a m block (BLOCK_CAP - 1)))"

definition list_send_write ::
    "'m chan_answer \<Rightarrow> 'm \<Rightarrow> nat \<Rightarrow> nat \<Rightarrow> ('q, 't, 'm) lsys
     \<Rightarrow> (('q, 't, 'm) lsys \<times> ('m, 't) list_pc) outcome" where
  "list_send_write a m block offset s =
     obind (get_slot (Some block) offset (ly_chan s)) (\<lambda>sl.
     obind (set_slot (Some block) offset (sl\<lparr>ls_msg := Some m\<rparr>) (ly_chan s)) (\<lambda>ch.
     Done (l_set ch s, UState a block offset)))"

text \<open>\<open>fetch_or\<close> on the state of a slot: its old value.\<close>

definition slot_or ::
    "nat \<Rightarrow> nat \<Rightarrow> usize \<Rightarrow> ('q, 't, 'm) lsys \<Rightarrow> (usize \<times> ('q, 't, 'm) lsys) outcome" where
  "slot_or block offset flag s =
     obind (get_slot (Some block) offset (ly_chan s)) (\<lambda>sl.
     obind (set_slot (Some block) offset (sl\<lparr>ls_state := ls_state sl OR flag\<rparr>) (ly_chan s)) (\<lambda>ch.
     Done (ls_state sl, l_set ch s)))"

definition list_send_state ::
    "nat \<Rightarrow> 'm chan_answer \<Rightarrow> nat \<Rightarrow> nat \<Rightarrow> ('q, 't, 'm) lsys
     \<Rightarrow> (('q, 't, 'm) lsys \<times> ('m, 't) list_pc) outcome" where
  "list_send_state i a block offset s =
     obind (slot_or block offset WRITE s) (\<lambda>(_, s1). Done (l_own i None s1, UWake a))"

definition list_send_wake :: "('q, 't) aq_ops \<Rightarrow> ('q, 't, 'm) lsys \<Rightarrow> ('q, 't, 'm) lsys" where
  "list_send_wake Q s = l_set ((ly_chan s)\<lparr>lc_receivers := wake Q (lc_receivers (ly_chan s))\<rparr>) s"

section \<open>Receiving\<close>

text \<open>\<open>start_recv\<close> has returned \<open>false\<close>.\<close>

fun list_recv_refused :: "'t receiver \<Rightarrow> ('m, 't) list_pc" where
  "list_recv_refused RTry = ListRet (AnsTryRecv (Inl TryRecvEmpty))"
| "list_recv_refused (RPoll t) = GFirst t"
| "list_recv_refused (RAgain t) = ListRet (AnsPoll (Inr NotReady))"

text \<open>The new head is known; the block is null while the first message is being sent.\<close>

definition list_recv_try :: "'t receiver \<Rightarrow> usize \<Rightarrow> usize \<Rightarrow> nat option \<Rightarrow> ('m, 't) list_pc" where
  "list_recv_try k head new_head block =
     (case block of None \<Rightarrow> VLoad k | Some b \<Rightarrow> VCas k head new_head b)"

text \<open>The head block is loaded, after the index \<open>head\<close>.\<close>

definition list_recv_block ::
    "'t receiver \<Rightarrow> usize \<Rightarrow> ('q, 't, 'm) lsys
     \<Rightarrow> (('q, 't, 'm) lsys \<times> ('m, 't) list_pc) outcome" where
  "list_recv_block k head s =
     (let block = po_block (lc_head (ly_chan s)) in
      if list_offset head = BLOCK_CAP then Done (s, VLoad k)
      else obind (add_chk head one_shift) (\<lambda>new_head.
        Done (s, if new_head AND MARK_BIT = 0 then VTail k head block
                 else list_recv_try k head new_head block)))"

text \<open>The tail is loaded.\<close>

definition list_recv_tail ::
    "'t receiver \<Rightarrow> usize \<Rightarrow> nat option \<Rightarrow> ('q, 't, 'm) lsys
     \<Rightarrow> (('q, 't, 'm) lsys \<times> ('m, 't) list_pc) outcome" where
  "list_recv_tail k head block s =
     obind (list_new_head head (ly_chan s)) (\<lambda>target.
     Done (s, case target of
         Inl True \<Rightarrow> ListRet (recv_answer k None)
       | Inl False \<Rightarrow> list_recv_refused k
       | Inr new_head \<Rightarrow> list_recv_try k head new_head block))"

definition list_recv_cas ::
    "bool \<Rightarrow> nat \<Rightarrow> 't receiver \<Rightarrow> usize \<Rightarrow> usize \<Rightarrow> nat \<Rightarrow> ('q, 't, 'm) lsys
     \<Rightarrow> (('q, 't, 'm) lsys \<times> ('m, 't) list_pc) outcome" where
  "list_recv_cas w i k head new_head block s =
     (let ch = ly_chan s; offset = list_offset head in
      if \<not> w \<and> po_index (lc_head ch) = head then
        (let s1 = l_own i (Some (False, ly_taken s))
               (s\<lparr>ly_chan := ch\<lparr>lc_head := (lc_head ch)\<lparr>po_index := new_head\<rparr>\<rparr>,
                  ly_taken := Suc (ly_taken s)\<rparr>) in
         if offset + 1 = BLOCK_CAP then Done (s1\<lparr>ly_hgap := Some i\<rparr>, VNext k block new_head)
         else Done (s1, VWait k block offset))
      else Done (s, VBlock k (po_index (lc_head ch))))"

definition list_recv_next ::
    "'t receiver \<Rightarrow> nat \<Rightarrow> usize \<Rightarrow> ('q, 't, 'm) lsys
     \<Rightarrow> (('q, 't, 'm) lsys \<times> ('m, 't) list_pc) outcome" where
  "list_recv_next k block new_head s =
     obind (wait_next (Some block) (ly_chan s)) (\<lambda>next. Done (s, VPeek k block new_head next))"

definition list_recv_peek ::
    "'t receiver \<Rightarrow> nat \<Rightarrow> usize \<Rightarrow> nat \<Rightarrow> ('q, 't, 'm) lsys
     \<Rightarrow> (('q, 't, 'm) lsys \<times> ('m, 't) list_pc) outcome" where
  "list_recv_peek k block new_head next s =
     obind (get_block (Some next) (ly_chan s)) (\<lambda>bl.
     let next_index = (new_head AND NOT MARK_BIT) + one_shift in
     Done (s, VHead k block (if bl_next bl \<noteq> None then next_index OR MARK_BIT else next_index) next))"

definition list_recv_head ::
    "'t receiver \<Rightarrow> nat \<Rightarrow> usize \<Rightarrow> nat \<Rightarrow> ('q, 't, 'm) lsys
     \<Rightarrow> (('q, 't, 'm) lsys \<times> ('m, 't) list_pc) outcome" where
  "list_recv_head k block next_index next s =
     (let ch = ly_chan s in
      Done (l_set (ch\<lparr>lc_head := (lc_head ch)\<lparr>po_block := Some next\<rparr>\<rparr>) s, VIndex k block next_index))"

definition list_recv_index ::
    "'t receiver \<Rightarrow> nat \<Rightarrow> usize \<Rightarrow> ('q, 't, 'm) lsys
     \<Rightarrow> (('q, 't, 'm) lsys \<times> ('m, 't) list_pc) outcome" where
  "list_recv_index k block next_index s =
     (let ch = ly_chan s in
      Done (s\<lparr>ly_chan := ch\<lparr>lc_head := (lc_head ch)\<lparr>po_index := next_index\<rparr>\<rparr>, ly_hgap := None\<rparr>,
            VWait k block (BLOCK_CAP - 1)))"

definition list_recv_wait ::
    "'t receiver \<Rightarrow> nat \<Rightarrow> nat \<Rightarrow> ('q, 't, 'm) lsys
     \<Rightarrow> (('q, 't, 'm) lsys \<times> ('m, 't) list_pc) outcome" where
  "list_recv_wait k block offset s =
     obind (get_slot (Some block) offset (ly_chan s)) (\<lambda>sl.
     obind (wait_write sl) (\<lambda>_. Done (s, VRead k block offset)))"

text \<open>The message is read; at the last slot the destruction of the block begins.\<close>

definition list_recv_read ::
    "nat \<Rightarrow> 't receiver \<Rightarrow> nat \<Rightarrow> nat \<Rightarrow> ('q, 't, 'm) lsys
     \<Rightarrow> (('q, 't, 'm) lsys \<times> ('m, 't) list_pc) outcome" where
  "list_recv_read i k block offset s =
     obind (get_slot (Some block) offset (ly_chan s)) (\<lambda>sl.
     case ls_msg sl of
       None \<Rightarrow> Fault
     | Some m \<Rightarrow>
         Done (if offset + 1 = BLOCK_CAP
               then (l_own i None (l_baton block (Held i) s), VScan (recv_answer k (Some m)) block 0)
               else (s, VMark k block offset m)))"

definition list_recv_mark ::
    "nat \<Rightarrow> 't receiver \<Rightarrow> nat \<Rightarrow> nat \<Rightarrow> 'm \<Rightarrow> ('q, 't, 'm) lsys
     \<Rightarrow> (('q, 't, 'm) lsys \<times> ('m, 't) list_pc) outcome" where
  "list_recv_mark i k block offset m s =
     obind (slot_or block offset READ s) (\<lambda>(old, s1).
     let a = recv_answer k (Some m) in
     Done (if old AND DESTROY \<noteq> 0
           then (l_own i None (l_baton block (Held i) s1), VScan a block (offset + 1))
           else (l_own i None s1, ListRet a)))"

section \<open>Destroying a block\<close>

definition list_scan ::
    "'m chan_answer \<Rightarrow> nat \<Rightarrow> nat \<Rightarrow> ('q, 't, 'm) lsys
     \<Rightarrow> (('q, 't, 'm) lsys \<times> ('m, 't) list_pc) outcome" where
  "list_scan a block j s =
     (if j < BLOCK_CAP - 1 then
        obind (get_slot (Some block) j (ly_chan s)) (\<lambda>sl.
        Done (s, if ls_state sl AND READ = 0 then VFlag a block j else VScan a block (j + 1)))
      else
        obind (list_free block (ly_chan s)) (\<lambda>ch.
        Done (l_baton block Gone (l_set ch s), ListRet a)))"

definition list_flag ::
    "'m chan_answer \<Rightarrow> nat \<Rightarrow> nat \<Rightarrow> ('q, 't, 'm) lsys
     \<Rightarrow> (('q, 't, 'm) lsys \<times> ('m, 't) list_pc) outcome" where
  "list_flag a block j s =
     obind (slot_or block j DESTROY s) (\<lambda>(old, s1).
     Done (if old AND READ = 0 then (l_baton block (Left j) s1, ListRet a)
           else (s1, VScan a block (j + 1))))"

section \<open>Polling, shutting down, counting\<close>

definition list_poll_first ::
    "'t \<Rightarrow> ('q, 't, 'm) lsys \<Rightarrow> (('q, 't, 'm) lsys \<times> ('m, 't) list_pc) outcome" where
  "list_poll_first t s =
     (if lc_first (ly_chan s) then Done (l_set ((ly_chan s)\<lparr>lc_first := False\<rparr>) s, GReg t)
      else Done (s, GUpdate t))"

definition list_poll_update ::
    "bool list \<Rightarrow> 't \<Rightarrow> ('q, 't, 'm) lsys \<Rightarrow> (('q, 't, 'm) lsys \<times> ('m, 't) list_pc) outcome" where
  "list_poll_update ws t s =
     (let r = lc_receivers (ly_chan s) in
      obind (positive_update ws (w_from_me r)) (\<lambda>(hit, n).
      if hit then Done (l_set ((ly_chan s)\<lparr>lc_receivers := r\<lparr>w_from_me := n\<rparr>\<rparr>) s, GReg t)
      else Done (s, ListRet (AnsPoll (Inr NotReady)))))"

definition list_poll_register ::
    "('q, 't) aq_ops \<Rightarrow> bool list \<Rightarrow> 't \<Rightarrow> ('q, 't, 'm) lsys
     \<Rightarrow> (('q, 't, 'm) lsys \<times> ('m, 't) list_pc) outcome" where
  "list_poll_register Q ws t s =
     obind (register Q ws (Some t) (lc_receivers (ly_chan s))) (\<lambda>w.
     Done (l_set ((ly_chan s)\<lparr>lc_receivers := w\<rparr>) s, VLoad (RAgain t)))"

definition list_shut_or ::
    "('q, 't, 'm) lsys \<Rightarrow> (('q, 't, 'm) lsys \<times> ('m, 't) list_pc) outcome" where
  "list_shut_or s =
     (let ch = ly_chan s; tail = po_index (lc_tail ch) in
      Done (l_set (ch\<lparr>lc_tail := (lc_tail ch)\<lparr>po_index := tail OR MARK_BIT\<rparr>\<rparr>) s,
            if tail AND MARK_BIT = 0 then EWake else ListRet (AnsShutdown False)))"

definition list_shut_wake ::
    "('q, 't) aq_ops \<Rightarrow> ('q, 't, 'm) lsys \<Rightarrow> (('q, 't, 'm) lsys \<times> ('m, 't) list_pc) outcome" where
  "list_shut_wake Q s =
     obind (wake_all Q (lc_receivers (ly_chan s))) (\<lambda>w.
     Done (l_set ((ly_chan s)\<lparr>lc_receivers := w\<rparr>) s, ListRet (AnsShutdown True)))"

definition list_len_check ::
    "usize \<Rightarrow> usize \<Rightarrow> ('q, 't, 'm) lsys \<Rightarrow> (('q, 't, 'm) lsys \<times> ('m, 't) list_pc) outcome" where
  "list_len_check tail head s =
     (if po_index (lc_tail (ly_chan s)) = tail
      then obind (list_len_of tail head) (\<lambda>n. Done (s, ListRet (AnsLen n)))
      else Done (s, NTail))"

section \<open>Steps\<close>

datatype ('m, 't) list_input = ListCall "('m, 't) chan_call" | ListTake | ListGo "bool list"

fun list_go ::
    "('q, 't) aq_ops \<Rightarrow> bool list \<Rightarrow> nat \<Rightarrow> ('q, 't, 'm) lsys \<Rightarrow> ('m, 't) list_pc
     \<Rightarrow> (('q, 't, 'm) lsys \<times> ('m, 't) list_pc) outcome" where
  "list_go Q ws i s ListIdle = Spin"
| "list_go Q ws i s (ULoad k m nb) = Done (s, UBlock k m nb (po_index (lc_tail (ly_chan s))))"
| "list_go Q ws i s (UBlock k m nb tail) = list_send_block i k m nb tail s"
| "list_go Q ws i s (USwap k m nb tail new) = list_send_swap i k m nb tail new s"
| "list_go Q ws i s (UHead k m nb tail new) = list_send_head k m nb tail new s"
| "list_go Q ws i s (UCas k m nb tail b) = list_send_cas (ws = []) i k m nb tail b s"
| "list_go Q ws i s (UStore a m b new) = list_install_store a m b new s"
| "list_go Q ws i s (UAdd a m b new) = list_install_add a m b new s"
| "list_go Q ws i s (ULink a m b new) = list_install_link a m b new s"
| "list_go Q ws i s (UWrite a m b j) = list_send_write a m b j s"
| "list_go Q ws i s (UState a b j) = list_send_state i a b j s"
| "list_go Q ws i s (UWake a) = Done (list_send_wake Q s, ListRet a)"
| "list_go Q ws i s (VLoad k) = Done (s, VBlock k (po_index (lc_head (ly_chan s))))"
| "list_go Q ws i s (VBlock k head) = list_recv_block k head s"
| "list_go Q ws i s (VTail k head b) = list_recv_tail k head b s"
| "list_go Q ws i s (VCas k head new b) = list_recv_cas (ws = []) i k head new b s"
| "list_go Q ws i s (VNext k b new) = list_recv_next k b new s"
| "list_go Q ws i s (VPeek k b new next) = list_recv_peek k b new next s"
| "list_go Q ws i s (VHead k b ix next) = list_recv_head k b ix next s"
| "list_go Q ws i s (VIndex k b ix) = list_recv_index k b ix s"
| "list_go Q ws i s (VWait k b j) = list_recv_wait k b j s"
| "list_go Q ws i s (VRead k b j) = list_recv_read i k b j s"
| "list_go Q ws i s (VMark k b j m) = list_recv_mark i k b j m s"
| "list_go Q ws i s (VScan a b j) = list_scan a b j s"
| "list_go Q ws i s (VFlag a b j) = list_flag a b j s"
| "list_go Q ws i s (GFirst t) = list_poll_first t s"
| "list_go Q ws i s (GUpdate t) = list_poll_update ws t s"
| "list_go Q ws i s (GReg t) = list_poll_register Q ws t s"
| "list_go Q ws i s EOr = list_shut_or s"
| "list_go Q ws i s EWake = list_shut_wake Q s"
| "list_go Q ws i s EIs = Done (s, ListRet (AnsIsShutdown (list_is_shutdown (ly_chan s))))"
| "list_go Q ws i s NTail = Done (s, NHead (po_index (lc_tail (ly_chan s))))"
| "list_go Q ws i s (NHead tail) =
     Done (s, NCheck tail (po_index (lc_head (ly_chan s))) (length (ly_log s) - ly_taken s))"
| "list_go Q ws i s (NCheck tail head n) = list_len_check tail head s"
| "list_go Q ws i s (ListRet a) = Spin"

fun list_step ::
    "('q, 't) aq_ops \<Rightarrow> (('m, 't) list_input, ('q, 't, 'm) lsys, ('m, 't) list_pc) thread_step" where
  "list_step Q (ListCall c) i s pc = (if pc = ListIdle then Done (s, list_first_pc c) else Spin)"
| "list_step Q ListTake i s pc = (case pc of ListRet a \<Rightarrow> Done (s, ListIdle) | _ \<Rightarrow> Spin)"
| "list_step Q (ListGo ws) i s pc = list_go Q ws i s pc"

end
