(* ===== verification/List_Ring.thy ===== *)
theory List_Ring
  imports List_Conc List_Pos
begin

text \<open>
  The invariant of the concurrent unbounded channel. \<open>place k g\<close> is the raw index at which
  the head or the tail is after \<open>k\<close> messages: with \<open>g\<close>, at the end of the last block, with
  the next block not yet entered. Message \<open>k\<close> is in the slot \<open>k mod 31\<close> of the block
  \<open>k div 31\<close>. From the invariant: a reservation gives a thread a slot no other thread
  writes or reads, the words a thread has loaded still mean what they meant, and a block
  is live as long as any thread can follow a pointer to it.
\<close>

unbundle bit_operations_syntax

section \<open>Places\<close>

definition place :: "nat \<Rightarrow> bool \<Rightarrow> nat" where
  "place k g = lidx k - of_bool g"

text \<open>Only after a full block can an index be at the end of one.\<close>

definition gap_ok :: "nat \<Rightarrow> bool \<Rightarrow> bool" where
  "gap_ok k g \<longleftrightarrow> (g \<longrightarrow> k mod 31 = 0 \<and> 0 < k)"

lemma gap_ok_False [simp]: "gap_ok k False"
  by (simp add: gap_ok_def)

lemma place_False [simp]: "place k False = lidx k"
  by (simp add: place_def)

lemma place_gap:
  assumes "gap_ok k True"
  obtains n where "k = 31 * Suc n" "lidx k = 32 * Suc n" "place k True = 32 * n + 31"
proof -
  have "k mod 31 = 0" "0 < k" using assms by (simp_all add: gap_ok_def)
  then obtain q where "k = 31 * q" by (auto simp: mod_eq_0_iff_dvd)
  with \<open>0 < k\<close> obtain n where "k = 31 * Suc n" by (cases q) auto
  with that [of n] show thesis by (simp add: place_def lidx_def)
qed

lemma place_mod: "gap_ok k g \<Longrightarrow> place k g mod 32 = (if g then 31 else k mod 31)"
  by (cases g) (auto elim: place_gap)

lemma place_div: "gap_ok k g \<Longrightarrow> place k g div 32 = (k - of_bool g) div 31"
  by (cases g) (auto elim: place_gap)

lemma place_eq:
  assumes "gap_ok k g" "gap_ok l h"
  shows "place k g = place l h \<longleftrightarrow> k = l \<and> g = h"
proof
  assume eq: "place k g = place l h"
  have "k mod 31 < 31" "l mod 31 < 31" by simp_all
  then have g: "g = h" using eq place_mod [OF assms(1)] place_mod [OF assms(2)]
    by (cases g; cases h) auto
  have "k = l"
  proof (cases g)
    case True
    with assms g obtain n m where "k = 31 * Suc n" "place k True = 32 * n + 31"
      "l = 31 * Suc m" "place l True = 32 * m + 31" by (metis place_gap)
    with eq True g show ?thesis by simp
  next
    case False
    with eq g show ?thesis by simp
  qed
  with g show "k = l \<and> g = h" by simp
qed simp

lemma lidx_le: "lidx k \<le> 2 * k"
  using lidx_diff [of 0 k] by (simp add: lidx_def)

lemma place_less: "k < 2 ^ 62 \<Longrightarrow> place k g < 2 ^ 63"
  using lidx_le [of k] by (simp add: place_def)

lemma iw_inj:
  assumes "r < 2 ^ 63" "r' < 2 ^ 63"
  shows "iw r b = iw r' b' \<longleftrightarrow> r = r' \<and> b = b'"
proof
  assume "iw r b = iw r' b'"
  then have "unat (iw r b) = unat (iw r' b')" by simp
  with assms have "2 * r + of_bool b = 2 * r' + of_bool b'" by (simp add: unat_iw)
  then show "r = r' \<and> b = b'" by (cases b; cases b'; simp; presburger)
qed simp

lemma place_word_eq:
  assumes "gap_ok k g" "gap_ok l h" "k < 2 ^ 62" "l < 2 ^ 62"
  shows "iw (place k g) b = iw (place l h) c \<longleftrightarrow> k = l \<and> g = h \<and> b = c"
  by (simp only: iw_inj [OF place_less [OF assms(3)] place_less [OF assms(4)]] place_eq [OF assms(1,2)]
      conj_assoc)

section \<open>Messages and their slots\<close>

abbreviation l_sent :: "('q, 't, 'm) lsys \<Rightarrow> nat" where
  "l_sent s \<equiv> length (ly_log s)"

abbreviation l_heap :: "('q, 't, 'm) lsys \<Rightarrow> nat \<Rightarrow> 'm block option" where
  "l_heap s \<equiv> lc_heap (ly_chan s)"

abbreviation l_tail :: "('q, 't, 'm) lsys \<Rightarrow> position" where
  "l_tail s \<equiv> lc_tail (ly_chan s)"

abbreviation l_head :: "('q, 't, 'm) lsys \<Rightarrow> position" where
  "l_head s \<equiv> lc_head (ly_chan s)"

abbreviation l_closed :: "('q, 't, 'm) lsys \<Rightarrow> bool" where
  "l_closed s \<equiv> list_is_shutdown (ly_chan s)"

definition l_busy :: "('q, 't, 'm) lsys \<Rightarrow> bool \<Rightarrow> nat \<Rightarrow> bool" where
  "l_busy s d k \<longleftrightarrow> (\<exists>i. ly_own s i = Some (d, k))"

text \<open>Message \<open>k\<close> is in its slot; it has been read, and its reader is done with the slot.\<close>

definition written :: "('q, 't, 'm) lsys \<Rightarrow> nat \<Rightarrow> bool" where
  "written s k \<longleftrightarrow> k < l_sent s \<and> \<not> l_busy s True k"

definition finished :: "('q, 't, 'm) lsys \<Rightarrow> nat \<Rightarrow> bool" where
  "finished s k \<longleftrightarrow> k < ly_taken s \<and> \<not> l_busy s False k"

text \<open>The tail has moved on from block \<open>n\<close> to the next one.\<close>

definition linked :: "('q, 't, 'm) lsys \<Rightarrow> nat \<Rightarrow> bool" where
  "linked s n \<longleftrightarrow> 31 * Suc n < l_sent s \<or> 31 * Suc n = l_sent s \<and> ly_tgap s = None"

definition l_slot :: "('q, 't, 'm) lsys \<Rightarrow> nat \<Rightarrow> 'm lslot" where
  "l_slot s k = bl_slots (the (l_heap s (ly_blocks s ! (k div 31)))) ! (k mod 31)"

text \<open>
  The state of the slot of message \<open>k\<close>. The last slot of a block is never marked as read;
  the \<open>DESTROY\<close> bit of a slot that is marked as read has no meaning any more.
\<close>

definition slot_ok :: "('q, 't, 'm) lsys \<Rightarrow> baton \<Rightarrow> nat \<Rightarrow> 'm lslot \<Rightarrow> bool" where
  "slot_ok s bt k sl \<longleftrightarrow>
     (bit (ls_state sl) 0 \<longleftrightarrow> written s k) \<and>
     (bit (ls_state sl) 1 \<longleftrightarrow> finished s k \<and> k mod 31 \<noteq> 30) \<and>
     (\<not> bit (ls_state sl) 1 \<longrightarrow> (bit (ls_state sl) 2 \<longleftrightarrow> bt = Left (k mod 31))) \<and>
     (written s k \<longrightarrow> ls_msg sl = Some (ly_log s ! k))"

section \<open>The invariant\<close>

definition few :: "('q, 't, 'm) lsys \<Rightarrow> bool" where
  "few s \<longleftrightarrow> l_sent s < 2 ^ 62"

definition tail_ok :: "('q, 't, 'm) lsys \<Rightarrow> bool" where
  "tail_ok s \<longleftrightarrow>
     gap_ok (l_sent s) (ly_tgap s \<noteq> None)
     \<and> po_index (l_tail s) = iw (place (l_sent s) (ly_tgap s \<noteq> None)) (l_closed s)
     \<and> po_block (l_tail s) = (if ly_blocks s = [] then None else Some (last (ly_blocks s)))
     \<and> (length (ly_blocks s) = Suc (l_sent s div 31)
        \<or> ly_tgap s \<noteq> None \<and> length (ly_blocks s) = l_sent s div 31
        \<or> ly_blocks s = [] \<and> l_sent s = 0)"

definition head_ok :: "('q, 't, 'm) lsys \<Rightarrow> bool" where
  "head_ok s \<longleftrightarrow>
     ly_taken s \<le> l_sent s
     \<and> gap_ok (ly_taken s) (ly_hgap s \<noteq> None)
     \<and> (\<exists>mk. po_index (l_head s) = iw (place (ly_taken s) (ly_hgap s \<noteq> None)) mk
          \<and> (mk \<longrightarrow> ly_hgap s = None \<longrightarrow> 31 * Suc (ly_taken s div 31) \<le> l_sent s))
     \<and> (ly_tgap s \<noteq> None \<longrightarrow> ly_taken s = l_sent s \<longrightarrow> ly_hgap s \<noteq> None)
     \<and> (po_block (l_head s) = None \<longrightarrow> ly_taken s = 0)
     \<and> (\<forall>b. po_block (l_head s) = Some b \<longrightarrow> ly_hgap s = None \<longrightarrow>
          ly_blocks s \<noteq> [] \<and> b = ly_blocks s ! (ly_taken s div 31))
     \<and> (ly_first s \<noteq> None \<longrightarrow> po_block (l_head s) = None \<and> ly_blocks s \<noteq> [])"

definition lowners_ok :: "('q, 't, 'm) lsys \<Rightarrow> bool" where
  "lowners_ok s \<longleftrightarrow>
     (\<forall>i k. ly_own s i = Some (True, k) \<longrightarrow> k < l_sent s) \<and>
     (\<forall>i k. ly_own s i = Some (False, k) \<longrightarrow> k < ly_taken s) \<and>
     (\<forall>i j x. ly_own s i = Some x \<longrightarrow> ly_own s j = Some x \<longrightarrow> i = j) \<and>
     (\<forall>k. finished s k \<longrightarrow> written s k)"

definition heap_ok :: "('q, 't, 'm) lsys \<Rightarrow> bool" where
  "heap_ok s \<longleftrightarrow>
     distinct (ly_blocks s)
     \<and> (\<forall>a \<in> set (ly_blocks s). a < lc_fresh (ly_chan s) \<and> ly_box s a = None)
     \<and> (\<forall>a i. ly_box s a = Some i \<longrightarrow> a < lc_fresh (ly_chan s) \<and> l_heap s a = Some block_new)
     \<and> (\<forall>a. l_heap s a \<noteq> None \<longrightarrow> ly_box s a \<noteq> None \<or> a \<in> set (ly_blocks s) \<and> ly_baton s a \<noteq> Gone)
     \<and> (\<forall>a. a \<notin> set (ly_blocks s) \<longrightarrow> ly_baton s a = Whole)"

text \<open>The baton \<open>bt\<close> of block \<open>n\<close>.\<close>

fun baton_ok :: "('q, 't, 'm) lsys \<Rightarrow> nat \<Rightarrow> baton \<Rightarrow> bool" where
  "baton_ok s n Whole \<longleftrightarrow> \<not> finished s (31 * n + 30)"
| "baton_ok s n (Held i) \<longleftrightarrow> finished s (31 * n + 30)"
| "baton_ok s n (Left k) \<longleftrightarrow> finished s (31 * n + 30) \<and> k < 30 \<and> \<not> finished s (31 * n + k)
     \<and> (\<forall>j < k. finished s (31 * n + j))"
| "baton_ok s n Gone \<longleftrightarrow> (\<forall>j < 31. finished s (31 * n + j))"

definition block_ok :: "('q, 't, 'm) lsys \<Rightarrow> nat \<Rightarrow> 'm block \<Rightarrow> bool" where
  "block_ok s n bl \<longleftrightarrow>
     length (bl_slots bl) = 31
     \<and> (\<forall>x. bl_next bl = Some x \<longrightarrow> linked s n \<and> x = ly_blocks s ! Suc n)
     \<and> (\<forall>j < 31. slot_ok s (ly_baton s (ly_blocks s ! n)) (31 * n + j) (bl_slots bl ! j))"

definition blocks_ok :: "('q, 't, 'm) lsys \<Rightarrow> bool" where
  "blocks_ok s \<longleftrightarrow>
     (\<forall>n < length (ly_blocks s).
        baton_ok s n (ly_baton s (ly_blocks s ! n))
        \<and> (ly_baton s (ly_blocks s ! n) \<noteq> Gone \<longrightarrow>
            (\<exists>bl. l_heap s (ly_blocks s ! n) = Some bl \<and> block_ok s n bl)))"

definition chain :: "('q, 't, 'm) lsys \<Rightarrow> bool" where
  "chain s \<longleftrightarrow> few s \<and> tail_ok s \<and> head_ok s \<and> lowners_ok s \<and> heap_ok s \<and> blocks_ok s"

lemma chainD:
  assumes "chain s"
  shows "few s" "tail_ok s" "head_ok s" "lowners_ok s" "heap_ok s" "blocks_ok s"
  using assms unfolding chain_def by blast+

section \<open>What it gives\<close>

lemma lownersD:
  assumes "lowners_ok s"
  shows "ly_own s i = Some (True, k) \<Longrightarrow> k < l_sent s"
    "ly_own s i = Some (False, k) \<Longrightarrow> k < ly_taken s"
    "ly_own s i = Some x \<Longrightarrow> ly_own s j = Some x \<Longrightarrow> i = j"
    "finished s k \<Longrightarrow> written s k"
  using assms unfolding lowners_ok_def by blast+

lemma heap_okD:
  assumes "heap_ok s"
  shows "distinct (ly_blocks s)" "a \<in> set (ly_blocks s) \<Longrightarrow> a < lc_fresh (ly_chan s)"
    "a \<in> set (ly_blocks s) \<Longrightarrow> ly_box s a = None" "ly_box s a = Some i \<Longrightarrow> a < lc_fresh (ly_chan s)"
    "ly_box s a = Some i \<Longrightarrow> l_heap s a = Some block_new"
    "l_heap s a = Some bl \<Longrightarrow> ly_box s a = None \<Longrightarrow> a \<in> set (ly_blocks s) \<and> ly_baton s a \<noteq> Gone"
    "a \<notin> set (ly_blocks s) \<Longrightarrow> ly_baton s a = Whole"
  using assms unfolding heap_ok_def by (blast, blast, blast, blast, blast, fastforce, blast)

lemma heap_okI:
  assumes "distinct (ly_blocks s)" "\<And>a. a \<in> set (ly_blocks s) \<Longrightarrow> a < lc_fresh (ly_chan s)"
    "\<And>a. a \<in> set (ly_blocks s) \<Longrightarrow> ly_box s a = None"
    "\<And>a i. ly_box s a = Some i \<Longrightarrow> a < lc_fresh (ly_chan s)"
    "\<And>a i. ly_box s a = Some i \<Longrightarrow> l_heap s a = Some block_new"
    "\<And>a bl. l_heap s a = Some bl \<Longrightarrow> ly_box s a = None \<Longrightarrow> a \<in> set (ly_blocks s) \<and> ly_baton s a \<noteq> Gone"
    "\<And>a. a \<notin> set (ly_blocks s) \<Longrightarrow> ly_baton s a = Whole"
  shows "heap_ok s"
proof -
  have "l_heap s a \<noteq> None \<Longrightarrow> ly_box s a \<noteq> None \<or> a \<in> set (ly_blocks s) \<and> ly_baton s a \<noteq> Gone" for a
    using assms(6) [of a] by (cases "ly_box s a") auto
  then show ?thesis
    unfolding heap_ok_def using assms(1-5,7) by (intro conjI ballI allI impI)
qed

lemma owned_sent:
  assumes "chain s" "ly_own s i = Some (d, k)"
  shows "k < l_sent s"
  using lownersD(1,2) [OF chainD(4) [OF assms(1)], of i k] assms(2) chainD(3) [OF assms(1)]
  by (cases d) (auto simp: head_ok_def)

lemma owned_unfinished:
  assumes "chain s" "ly_own s i = Some (d, k)"
  shows "\<not> finished s k"
proof (cases d)
  case True
  then have "\<not> written s k" using assms(2) by (auto simp: written_def l_busy_def)
  then show ?thesis using lownersD(4) [OF chainD(4) [OF assms(1)]] by blast
next
  case False
  then show ?thesis using assms(2) by (auto simp: finished_def l_busy_def)
qed

lemma sent_block:
  assumes "tail_ok s" "k < l_sent s"
  shows "k div 31 < length (ly_blocks s)"
proof -
  have "k div 31 \<le> l_sent s div 31" using assms(2) by (intro div_le_mono) simp
  moreover have "k div 31 < l_sent s div 31" if "l_sent s mod 31 = 0"
  proof -
    have "k < l_sent s div 31 * 31" using that assms(2) div_mod_decomp [of "l_sent s" 31] by linarith
    then show ?thesis by (simp add: div_less_iff_less_mult)
  qed
  ultimately show ?thesis using assms by (auto simp: tail_ok_def gap_ok_def)
qed

text \<open>A block with a slot that is not finished is live.\<close>

lemma live_block:
  assumes c: "chain s" and n: "n < length (ly_blocks s)" and u: "j < 31" "\<not> finished s (31 * n + j)"
  obtains bl where "l_heap s (ly_blocks s ! n) = Some bl" "block_ok s n bl" "ly_baton s (ly_blocks s ! n) \<noteq> Gone"
proof -
  note B = chainD(6) [OF c, unfolded blocks_ok_def, rule_format, OF n]
  have "ly_baton s (ly_blocks s ! n) \<noteq> Gone" using B u by auto
  with B that show thesis by blast
qed

lemma owned_block:
  assumes c: "chain s" and o: "ly_own s i = Some (d, k)"
  obtains bl where "k div 31 < length (ly_blocks s)" "l_heap s (ly_blocks s ! (k div 31)) = Some bl"
    "block_ok s (k div 31) bl" "ly_baton s (ly_blocks s ! (k div 31)) \<noteq> Gone"
proof -
  have n: "k div 31 < length (ly_blocks s)"
    using sent_block [OF chainD(2) [OF c] owned_sent [OF c o]] .
  from live_block [OF c n, of "k mod 31"] owned_unfinished [OF c o] n that show thesis by auto
qed

lemma block_slot:
  assumes "block_ok s (k div 31) bl"
  shows "k mod 31 < length (bl_slots bl)"
    "slot_ok s (ly_baton s (ly_blocks s ! (k div 31))) k (bl_slots bl ! (k mod 31))"
proof -
  show "k mod 31 < length (bl_slots bl)" using assms by (simp add: block_ok_def)
  have "\<forall>j < 31. slot_ok s (ly_baton s (ly_blocks s ! (k div 31))) (31 * (k div 31) + j) (bl_slots bl ! j)"
    using assms by (simp add: block_ok_def)
  from this [rule_format, of "k mod 31"] show "slot_ok s (ly_baton s (ly_blocks s ! (k div 31))) k (bl_slots bl ! (k mod 31))" by simp
qed

lemma linked_block: "tail_ok s \<Longrightarrow> linked s n \<Longrightarrow> Suc n < length (ly_blocks s)"
proof -
  assume t: "tail_ok s" and l: "linked s n"
  then have le: "31 * Suc n \<le> l_sent s" and pos: "0 < l_sent s" by (auto simp: linked_def)
  then have "Suc n \<le> l_sent s div 31" by (simp add: less_eq_div_iff_mult_less_eq)
  moreover have "Suc n < l_sent s div 31" if g: "ly_tgap s \<noteq> None"
  proof -
    have "l_sent s mod 31 = 0" using t g by (auto simp: tail_ok_def gap_ok_def)
    then obtain q where "l_sent s = 31 * q" by (auto simp: mod_eq_0_iff_dvd)
    moreover have "31 * Suc n < l_sent s" using l g by (auto simp: linked_def)
    ultimately show ?thesis by simp
  qed
  ultimately show "Suc n < length (ly_blocks s)" using t pos by (auto simp: tail_ok_def)
qed

lemma blocks_inj:
  assumes "chain s" "m < length (ly_blocks s)" "n < length (ly_blocks s)"
  shows "ly_blocks s ! m = ly_blocks s ! n \<longleftrightarrow> m = n"
  using chainD(5) [OF assms(1)] assms(2,3) by (simp add: heap_ok_def nth_eq_iff_index_eq)

text \<open>The tests of the source on the state of a slot.\<close>

lemma state_bits:
  "(w :: usize) AND WRITE = 0 \<longleftrightarrow> \<not> bit w 0" "w AND READ = 0 \<longleftrightarrow> \<not> bit w 1"
  "w AND DESTROY = 0 \<longleftrightarrow> \<not> bit w 2"
  using and_exp_eq_0_iff_not_bit [of w 0] and_exp_eq_0_iff_not_bit [of w 1] and_exp_eq_0_iff_not_bit [of w 2]
  by (simp_all add: list_consts)

lemma flag_bits:
  "bit (WRITE :: usize) n \<longleftrightarrow> n = 0" "bit (READ :: usize) n \<longleftrightarrow> n = 1" "bit (DESTROY :: usize) n \<longleftrightarrow> n = 2"
proof -
  have e: "(WRITE :: usize) = 2 ^ 0" "(READ :: usize) = 2 ^ 1" "(DESTROY :: usize) = 2 ^ 2"
    by (simp_all add: list_consts)
  show "bit (WRITE :: usize) n \<longleftrightarrow> n = 0" "bit (READ :: usize) n \<longleftrightarrow> n = 1" "bit (DESTROY :: usize) n \<longleftrightarrow> n = 2"
    unfolding e bit_exp_iff by auto
qed

text \<open>What a successful exchange says about the head and the tail.\<close>

lemma tail_word_place:
  assumes c: "chain s" and g: "gap_ok j g" "j \<le> l_sent s" and w: "po_index (l_tail s) = iw (place j g) d"
  shows "l_sent s = j" "(ly_tgap s \<noteq> None) = g" "l_closed s = d"
proof -
  have t: "gap_ok (l_sent s) (ly_tgap s \<noteq> None)"
    "po_index (l_tail s) = iw (place (l_sent s) (ly_tgap s \<noteq> None)) (l_closed s)"
    using chainD(2) [OF c] unfolding tail_ok_def by blast+
  have n: "l_sent s < 2 ^ 62" using chainD(1) [OF c] by (simp only: few_def)
  with g(2) have "j < 2 ^ 62" by (rule le_less_trans)
  from place_word_eq [OF t(1) g(1) n this] t(2) w
  show "l_sent s = j" "(ly_tgap s \<noteq> None) = g" "l_closed s = d" by metis+
qed

lemma head_word_place:
  assumes c: "chain s" and g: "gap_ok j g" "j \<le> ly_taken s" and w: "po_index (l_head s) = iw (place j g) d"
  shows "ly_taken s = j" "(ly_hgap s \<noteq> None) = g"
proof -
  obtain mk where t: "gap_ok (ly_taken s) (ly_hgap s \<noteq> None)" "ly_taken s \<le> l_sent s"
    "po_index (l_head s) = iw (place (ly_taken s) (ly_hgap s \<noteq> None)) mk"
    using chainD(3) [OF c] unfolding head_ok_def by blast
  have "ly_taken s < 2 ^ 62" using t(2) chainD(1) [OF c] unfolding few_def by (rule le_less_trans)
  moreover from g(2) this have "j < 2 ^ 62" by (rule le_less_trans)
  ultimately show "ly_taken s = j" "(ly_hgap s \<noteq> None) = g"
    using place_word_eq [OF t(1) g(1), of mk d] t(3) w by metis+
qed

end
