(* ===== verification/List_Know.thy ===== *)
theory List_Know
  imports List_Ring
begin

text \<open>
  What a thread of the concurrent unbounded channel knows, and what a step may do to the
  others. \<open>l_at s i pc\<close>: thread \<open>i\<close> at \<open>pc\<close> has the duties of \<open>pc\<close> (the blocks it is
  to install or drop, the block it is to destroy, the gap it is to close) and no others,
  and what it has loaded is that of a place the channel has reached. \<open>l_guar i s s'\<close> is
  what a step of thread \<open>i\<close> may do.
\<close>

unbundle bit_operations_syntax

section \<open>Duties\<close>

record duties =
  du_slot :: bool
  du_boxes :: "nat set"
  du_blocks :: "nat set"
  du_tail :: bool
  du_head :: bool
  du_first :: bool

definition duties_of :: "('q, 't, 'm) lsys \<Rightarrow> nat \<Rightarrow> duties" where
  "duties_of s i = \<lparr>du_slot = (ly_own s i \<noteq> None), du_boxes = {a. ly_box s a = Some i},
     du_blocks = {b. ly_baton s b = Held i}, du_tail = (ly_tgap s = Some i),
     du_head = (ly_hgap s = Some i), du_first = (ly_first s = Some i)\<rparr>"

definition no_duties :: duties where
  "no_duties = \<lparr>du_slot = False, du_boxes = {}, du_blocks = {}, du_tail = False, du_head = False,
     du_first = False\<rparr>"

fun pc_duties :: "('m, 't) list_pc \<Rightarrow> duties" where
  "pc_duties (ULoad k m nb) = no_duties\<lparr>du_boxes := set_option nb\<rparr>"
| "pc_duties (UBlock k m nb tail) = no_duties\<lparr>du_boxes := set_option nb\<rparr>"
| "pc_duties (USwap k m nb tail new) = no_duties\<lparr>du_boxes := insert new (set_option nb)\<rparr>"
| "pc_duties (UHead k m nb tail new) = no_duties\<lparr>du_boxes := set_option nb, du_first := True\<rparr>"
| "pc_duties (UCas k m nb tail b) = no_duties\<lparr>du_boxes := set_option nb\<rparr>"
| "pc_duties (UStore a m b new) = no_duties\<lparr>du_slot := True, du_boxes := {new}, du_tail := True\<rparr>"
| "pc_duties (UAdd a m b new) = no_duties\<lparr>du_slot := True, du_tail := True\<rparr>"
| "pc_duties (ULink a m b new) = no_duties\<lparr>du_slot := True\<rparr>"
| "pc_duties (UWrite a m b j) = no_duties\<lparr>du_slot := True\<rparr>"
| "pc_duties (UState a b j) = no_duties\<lparr>du_slot := True\<rparr>"
| "pc_duties (VNext k b new) = no_duties\<lparr>du_slot := True, du_head := True\<rparr>"
| "pc_duties (VPeek k b new nx) = no_duties\<lparr>du_slot := True, du_head := True\<rparr>"
| "pc_duties (VHead k b ix nx) = no_duties\<lparr>du_slot := True, du_head := True\<rparr>"
| "pc_duties (VIndex k b ix) = no_duties\<lparr>du_slot := True, du_head := True\<rparr>"
| "pc_duties (VWait k b j) = no_duties\<lparr>du_slot := True\<rparr>"
| "pc_duties (VRead k b j) = no_duties\<lparr>du_slot := True\<rparr>"
| "pc_duties (VMark k b j m) = no_duties\<lparr>du_slot := True\<rparr>"
| "pc_duties (VScan a b j) = no_duties\<lparr>du_blocks := {b}\<rparr>"
| "pc_duties (VFlag a b j) = no_duties\<lparr>du_blocks := {b}\<rparr>"
| "pc_duties pc = no_duties"

section \<open>What a thread knows\<close>

definition sees_ltail :: "('q, 't, 'm) lsys \<Rightarrow> usize \<Rightarrow> nat \<Rightarrow> bool \<Rightarrow> bool \<Rightarrow> bool" where
  "sees_ltail s tail j g d \<longleftrightarrow>
     tail = iw (place j g) d \<and> gap_ok j g \<and> j \<le> l_sent s
     \<and> (j = l_sent s \<longrightarrow> \<not> g \<longrightarrow> ly_tgap s = None) \<and> (d \<longrightarrow> l_closed s)"

definition sees_lhead :: "('q, 't, 'm) lsys \<Rightarrow> usize \<Rightarrow> nat \<Rightarrow> bool \<Rightarrow> bool \<Rightarrow> bool" where
  "sees_lhead s head j g mk \<longleftrightarrow>
     head = iw (place j g) mk \<and> gap_ok j g \<and> j \<le> ly_taken s
     \<and> (j = ly_taken s \<longrightarrow> \<not> g \<longrightarrow> ly_hgap s = None)
     \<and> (mk \<longrightarrow> \<not> g \<longrightarrow> 31 * Suc (j div 31) \<le> l_sent s)"

text \<open>\<open>b\<close> is block \<open>n\<close> of the list.\<close>

definition nth_block :: "('q, 't, 'm) lsys \<Rightarrow> nat \<Rightarrow> nat \<Rightarrow> bool" where
  "nth_block s b n \<longleftrightarrow> n < length (ly_blocks s) \<and> b = ly_blocks s ! n"

text \<open>Thread \<open>i\<close> writes or reads message \<open>k\<close> in slot \<open>j\<close> of block \<open>b\<close>.\<close>

definition has_lslot :: "('q, 't, 'm) lsys \<Rightarrow> nat \<Rightarrow> bool \<Rightarrow> nat \<Rightarrow> nat \<Rightarrow> nat \<Rightarrow> bool" where
  "has_lslot s i d b j k \<longleftrightarrow> ly_own s i = Some (d, k) \<and> nth_block s b (k div 31) \<and> j = k mod 31"

text \<open>The thread has taken the last message of a block and moves the head on.\<close>

definition moves_head :: "('q, 't, 'm) lsys \<Rightarrow> nat \<Rightarrow> nat \<Rightarrow> nat \<Rightarrow> bool" where
  "moves_head s i b h \<longleftrightarrow> has_lslot s i False b 30 h \<and> ly_taken s = Suc h"

text \<open>The head was \<open>n\<close> messages before the place \<open>j\<close> of the tail when it was loaded.\<close>

definition head_before :: "usize \<Rightarrow> nat \<Rightarrow> bool \<Rightarrow> nat \<Rightarrow> bool" where
  "head_before head j g n \<longleftrightarrow>
     (\<exists>h hg mk. head = iw (place h hg) mk \<and> gap_ok h hg \<and> j = h + n \<and> (g \<longrightarrow> h = j \<longrightarrow> hg))"

fun l_knows :: "('q, 't, 'm) lsys \<Rightarrow> nat \<Rightarrow> ('m, 't) list_pc \<Rightarrow> bool" where
  "l_knows s i (UBlock k m nb tail) \<longleftrightarrow> (\<exists>j g d. sees_ltail s tail j g d)"
| "l_knows s i (USwap k m nb tail new) \<longleftrightarrow> tail = 0 \<and> nb \<noteq> Some new"
| "l_knows s i (UHead k m nb tail new) \<longleftrightarrow> tail = 0 \<and> nth_block s new 0"
| "l_knows s i (UCas k m nb tail b) \<longleftrightarrow>
     (\<exists>j. sees_ltail s tail j False False \<and> (j = l_sent s \<longrightarrow> nth_block s b (j div 31))
       \<and> (j mod 31 = 30 \<longrightarrow> nb \<noteq> None))"
| "l_knows s i (UStore a m b new) \<longleftrightarrow>
     (\<exists>k. has_lslot s i True b 30 k \<and> l_sent s = Suc k \<and> length (ly_blocks s) = Suc (k div 31) \<and> ly_log s ! k = m)"
| "l_knows s i (UAdd a m b new) \<longleftrightarrow>
     (\<exists>k. has_lslot s i True b 30 k \<and> l_sent s = Suc k \<and> length (ly_blocks s) = Suc (Suc (k div 31))
       \<and> nth_block s new (Suc (k div 31)) \<and> ly_log s ! k = m)"
| "l_knows s i (ULink a m b new) \<longleftrightarrow>
     (\<exists>k. has_lslot s i True b 30 k \<and> linked s (k div 31) \<and> nth_block s new (Suc (k div 31)) \<and> ly_log s ! k = m)"
| "l_knows s i (UWrite a m b j) \<longleftrightarrow> (\<exists>k. has_lslot s i True b j k \<and> ly_log s ! k = m)"
| "l_knows s i (UState a b j) \<longleftrightarrow>
     (\<exists>k. has_lslot s i True b j k \<and> ls_msg (l_slot s k) = Some (ly_log s ! k))"
| "l_knows s i (VBlock k head) \<longleftrightarrow> (\<exists>j g mk. sees_lhead s head j g mk)"
| "l_knows s i (VTail k head block) \<longleftrightarrow>
     (\<exists>j. sees_lhead s head j False False
       \<and> (\<forall>b. block = Some b \<longrightarrow> po_block (l_head s) \<noteq> None \<and> (j = ly_taken s \<longrightarrow> nth_block s b (j div 31))))"
| "l_knows s i (VCas k head new b) \<longleftrightarrow>
     po_block (l_head s) \<noteq> None \<and>
     (\<exists>j mk mk'. sees_lhead s head j False mk \<and> (j = ly_taken s \<longrightarrow> nth_block s b (j div 31))
       \<and> new = iw (Suc (lidx j)) mk' \<and> j < l_sent s \<and> (mk' \<longrightarrow> 31 * Suc (j div 31) \<le> l_sent s))"
| "l_knows s i (VNext k b new) \<longleftrightarrow> (\<exists>h mk. moves_head s i b h \<and> new = iw (Suc (lidx h)) mk)"
| "l_knows s i (VPeek k b new nx) \<longleftrightarrow>
     (\<exists>h mk. moves_head s i b h \<and> new = iw (Suc (lidx h)) mk \<and> linked s (h div 31) \<and> nth_block s nx (Suc (h div 31)))"
| "l_knows s i (VHead k b ix nx) \<longleftrightarrow>
     (\<exists>h mk. moves_head s i b h \<and> ix = lw (Suc h) mk \<and> (mk \<longrightarrow> 31 * Suc (Suc h div 31) \<le> l_sent s)
       \<and> linked s (h div 31) \<and> nth_block s nx (Suc (h div 31)))"
| "l_knows s i (VIndex k b ix) \<longleftrightarrow>
     (\<exists>h mk. moves_head s i b h \<and> ix = lw (Suc h) mk \<and> (mk \<longrightarrow> 31 * Suc (Suc h div 31) \<le> l_sent s)
       \<and> linked s (h div 31) \<and> po_block (l_head s) = Some (ly_blocks s ! Suc (h div 31)))"
| "l_knows s i (VWait k b j) \<longleftrightarrow> (\<exists>h. has_lslot s i False b j h)"
| "l_knows s i (VRead k b j) \<longleftrightarrow> (\<exists>h. has_lslot s i False b j h \<and> written s h)"
| "l_knows s i (VMark k b j m) \<longleftrightarrow>
     (\<exists>h. has_lslot s i False b j h \<and> written s h \<and> m = ly_log s ! h \<and> j \<noteq> 30)"
| "l_knows s i (VScan a b j) \<longleftrightarrow> j \<le> 30 \<and> (\<exists>n. nth_block s b n \<and> (\<forall>l < j. finished s (31 * n + l)))"
| "l_knows s i (VFlag a b j) \<longleftrightarrow> j < 30 \<and> (\<exists>n. nth_block s b n \<and> (\<forall>l < j. finished s (31 * n + l)))"
| "l_knows s i (NHead tail) \<longleftrightarrow> (\<exists>j g d. sees_ltail s tail j g d)"
| "l_knows s i (NCheck tail head n) \<longleftrightarrow>
     (\<exists>j g d. sees_ltail s tail j g d \<and> (po_index (l_tail s) = tail \<longrightarrow> head_before head j g n))"
| "l_knows s i pc \<longleftrightarrow> True"

definition l_at :: "('q, 't, 'm) lsys \<Rightarrow> nat \<Rightarrow> ('m, 't) list_pc \<Rightarrow> bool" where
  "l_at s i pc \<longleftrightarrow> duties_of s i = pc_duties pc \<and> l_knows s i pc"

section \<open>What a step may do to other threads\<close>

definition l_guar :: "nat \<Rightarrow> ('q, 't, 'm) lsys \<Rightarrow> ('q, 't, 'm) lsys \<Rightarrow> bool" where
  "l_guar i s s' \<longleftrightarrow>
     l_sent s \<le> l_sent s' \<and> ly_taken s \<le> ly_taken s'
     \<and> (\<forall>k < l_sent s. ly_log s' ! k = ly_log s ! k)
     \<and> (\<forall>b n. nth_block s b n \<longrightarrow> nth_block s' b n)
     \<and> (l_closed s \<longrightarrow> l_closed s')
     \<and> (l_sent s' = l_sent s \<longrightarrow> ly_tgap s = None \<longrightarrow> ly_tgap s' = None)
     \<and> (ly_taken s' = ly_taken s \<longrightarrow> ly_hgap s = None \<longrightarrow> ly_hgap s' = None)
     \<and> (po_block (l_head s) \<noteq> None \<longrightarrow> po_block (l_head s') \<noteq> None)
     \<and> (\<forall>k. written s k \<longrightarrow> written s' k) \<and> (\<forall>k. finished s k \<longrightarrow> finished s' k)
     \<and> (\<forall>j. j \<noteq> i \<longrightarrow>
          ly_own s' j = ly_own s j \<and> duties_of s' j = duties_of s j
          \<and> (ly_tgap s = Some j \<longrightarrow> l_sent s' = l_sent s \<and> ly_blocks s' = ly_blocks s)
          \<and> (ly_hgap s = Some j \<longrightarrow> ly_taken s' = ly_taken s \<and> po_block (l_head s') = po_block (l_head s))
          \<and> (\<forall>k. ly_own s j = Some (True, k) \<longrightarrow> ls_msg (l_slot s' k) = ls_msg (l_slot s k)))"

lemma l_guarD:
  assumes "l_guar i s s'"
  shows "l_sent s \<le> l_sent s'" "ly_taken s \<le> ly_taken s'"
    "k < l_sent s \<Longrightarrow> ly_log s' ! k = ly_log s ! k"
    "nth_block s b n \<Longrightarrow> nth_block s' b n" "l_closed s \<Longrightarrow> l_closed s'"
    "l_sent s' = l_sent s \<Longrightarrow> ly_tgap s = None \<Longrightarrow> ly_tgap s' = None"
    "ly_taken s' = ly_taken s \<Longrightarrow> ly_hgap s = None \<Longrightarrow> ly_hgap s' = None"
    "written s k \<Longrightarrow> written s' k" "finished s k \<Longrightarrow> finished s' k"
    "po_block (l_head s) \<noteq> None \<Longrightarrow> po_block (l_head s') \<noteq> None"
  using assms unfolding l_guar_def by blast+

lemma l_guar_others:
  assumes "l_guar i s s'" "j \<noteq> i"
  shows "ly_own s' j = ly_own s j" "duties_of s' j = duties_of s j"
    "ly_tgap s = Some j \<Longrightarrow> l_sent s' = l_sent s" "ly_tgap s = Some j \<Longrightarrow> ly_blocks s' = ly_blocks s"
    "ly_hgap s = Some j \<Longrightarrow> ly_taken s' = ly_taken s"
    "ly_hgap s = Some j \<Longrightarrow> po_block (l_head s') = po_block (l_head s)"
    "ly_own s j = Some (True, k) \<Longrightarrow> ls_msg (l_slot s' k) = ls_msg (l_slot s k)"
  using assms unfolding l_guar_def by blast+

lemma sees_ltail_guar:
  assumes g: "l_guar i s s'" and t: "sees_ltail s tail j g' d"
  shows "sees_ltail s' tail j g' d"
proof -
  have le: "j \<le> l_sent s" using t by (simp add: sees_ltail_def)
  with l_guarD(1) [OF g] have "j = l_sent s' \<Longrightarrow> j = l_sent s \<and> l_sent s' = l_sent s" by simp
  then show ?thesis using t l_guarD(1,5,6) [OF g] le unfolding sees_ltail_def by auto
qed

lemma sees_lhead_guar:
  assumes g: "l_guar i s s'" and t: "sees_lhead s head j g' mk"
  shows "sees_lhead s' head j g' mk"
proof -
  have le: "j \<le> ly_taken s" using t by (simp add: sees_lhead_def)
  with l_guarD(2) [OF g] have "j = ly_taken s' \<Longrightarrow> j = ly_taken s \<and> ly_taken s' = ly_taken s" by simp
  then show ?thesis using t l_guarD(1,2,7) [OF g] le unfolding sees_lhead_def by auto
qed

lemma linked_guar: "l_guar i s s' \<Longrightarrow> linked s n \<Longrightarrow> linked s' n"
  using l_guarD(1,6) [of i s s'] unfolding linked_def by fastforce

lemma has_lslot_guar: "l_guar i s s' \<Longrightarrow> j \<noteq> i \<Longrightarrow> has_lslot s j d b l k \<Longrightarrow> has_lslot s' j d b l k"
  using l_guarD(4) [of i s s'] l_guar_others(1) [of i s s' j] by (auto simp: has_lslot_def)

lemma moves_head_guar:
  assumes "l_guar i s s'" "j \<noteq> i" "ly_hgap s = Some j" "moves_head s j b h"
  shows "moves_head s' j b h"
  using has_lslot_guar [OF assms(1,2)] l_guar_others(5) [OF assms(1-3)] assms(4) by (auto simp: moves_head_def)

lemma duties_sel:
  assumes "duties_of s i = d"
  shows "ly_own s i \<noteq> None \<longleftrightarrow> du_slot d" "ly_box s a = Some i \<longleftrightarrow> a \<in> du_boxes d"
    "ly_baton s a = Held i \<longleftrightarrow> a \<in> du_blocks d" "ly_tgap s = Some i \<longleftrightarrow> du_tail d"
    "ly_hgap s = Some i \<longleftrightarrow> du_head d" "ly_first s = Some i \<longleftrightarrow> du_first d"
  using assms by (auto simp: duties_of_def)

lemma no_duties_sel [simp]:
  "\<not> du_slot no_duties" "du_boxes no_duties = {}" "du_blocks no_duties = {}" "\<not> du_tail no_duties"
  "\<not> du_head no_duties" "\<not> du_first no_duties"
  by (simp_all add: no_duties_def)

text \<open>Once the tail has left a place, it does not return to it.\<close>

lemma tail_no_return:
  assumes c: "chain s" "chain s'" and g: "l_guar i s s'" and t: "sees_ltail s tail j g' d"
    and w: "po_index (l_tail s') = tail"
  shows "po_index (l_tail s) = tail"
proof -
  have j: "tail = iw (place j g') d" "gap_ok j g'" "j \<le> l_sent s"
    "j = l_sent s \<Longrightarrow> \<not> g' \<Longrightarrow> ly_tgap s = None" "d \<Longrightarrow> l_closed s"
    using t by (auto simp: sees_ltail_def)
  have "j \<le> l_sent s'" using j(3) l_guarD(1) [OF g] by simp
  from tail_word_place [OF c(2) j(2) this] w j(1)
  have s': "l_sent s' = j" "(ly_tgap s' \<noteq> None) = g'" "l_closed s' = d" by auto
  then have e: "l_sent s = j" using j(3) l_guarD(1) [OF g] by simp
  moreover have "(ly_tgap s \<noteq> None) = g'"
    using s'(1,2) j(4) e l_guarD(6) [OF g] by metis
  moreover have "l_closed s = d" using s'(3) j(5) l_guarD(5) [OF g] by blast
  moreover have "po_index (l_tail s) = iw (place (l_sent s) (ly_tgap s \<noteq> None)) (l_closed s)"
    using chainD(2) [OF c(1)] unfolding tail_ok_def by blast
  ultimately show ?thesis by (simp only: j(1))
qed

lemma l_knows_guar:
  assumes g: "l_guar i s s'" and ne: "j \<noteq> i" and c: "chain s" "chain s'"
    and du: "duties_of s j = pc_duties pc" and a: "l_knows s j pc"
  shows "l_knows s' j pc"
proof -
  note D = l_guarD [OF g] and O = l_guar_others [OF g ne] and du = duties_sel [OF du]
  note slot = has_lslot_guar [OF g ne] and log = D(3) [OF owned_sent [OF c(1)]]
  show ?thesis
  proof (cases pc)
    case (UBlock k m nb tail)
    with a show ?thesis using sees_ltail_guar [OF g] by simp blast
  next
    case (UHead k m nb tail new)
    with a show ?thesis using D(4) by simp
  next
    case (UCas k m nb tail b)
    with a obtain l where l: "sees_ltail s tail l False False" "l = l_sent s \<Longrightarrow> nth_block s b (l div 31)"
      "l mod 31 = 30 \<Longrightarrow> nb \<noteq> None" by auto
    have "nth_block s' b (l div 31)" if "l = l_sent s'"
      using that l(1,2) D(1,4) by (auto simp: sees_ltail_def)
    with UCas l(3) sees_ltail_guar [OF g l(1)] show ?thesis by auto
  next
    case (UStore b m bl new)
    then have t: "ly_tgap s = Some j" using du(4) by simp
    with UStore a O(3,4) [OF t] show ?thesis using slot log by (auto simp: has_lslot_def)
  next
    case (UAdd b m bl new)
    then have t: "ly_tgap s = Some j" using du(4) by simp
    with UAdd a O(3,4) [OF t] show ?thesis using slot log D(4) by (auto simp: has_lslot_def)
  next
    case (ULink b m bl new)
    with a show ?thesis using slot log D(4) linked_guar [OF g] by (auto simp: has_lslot_def)
  next
    case (UWrite b m bl l)
    with a show ?thesis using slot log by (auto simp: has_lslot_def)
  next
    case (UState b bl l)
    with a obtain k where k: "has_lslot s j True bl l k" "ls_msg (l_slot s k) = Some (ly_log s ! k)" by auto
    then have "ly_own s j = Some (True, k)" by (simp add: has_lslot_def)
    from O(7) [OF this] log [OF this] k(2) slot [OF k(1)] UState show ?thesis by auto
  next
    case (VBlock k head)
    with a show ?thesis using sees_lhead_guar [OF g] by simp blast
  next
    case (VTail k head block)
    with a obtain l where l: "sees_lhead s head l False False"
      "\<And>b. block = Some b \<Longrightarrow> l = ly_taken s \<Longrightarrow> nth_block s b (l div 31)"
      "\<And>b. block = Some b \<Longrightarrow> po_block (l_head s) \<noteq> None" by auto
    have "nth_block s' b (l div 31)" if "block = Some b" "l = ly_taken s'" for b
      using that l D(2,4) by (auto simp: sees_lhead_def)
    moreover have "po_block (l_head s') \<noteq> None" if "block = Some b" for b using l(3) [OF that] D(10) by blast
    ultimately show ?thesis using VTail sees_lhead_guar [OF g l(1)] by auto
  next
    case (VCas k head new b)
    with a obtain l mk mk' where l: "sees_lhead s head l False mk" "l = ly_taken s \<Longrightarrow> nth_block s b (l div 31)"
      "new = iw (Suc (lidx l)) mk'" "l < l_sent s" "mk' \<Longrightarrow> 31 * Suc (l div 31) \<le> l_sent s"
      "po_block (l_head s) \<noteq> None" by auto
    have "nth_block s' b (l div 31)" if "l = ly_taken s'"
      using that l(1,2) D(2,4) by (auto simp: sees_lhead_def)
    moreover have "l < l_sent s'" "mk' \<Longrightarrow> 31 * Suc (l div 31) \<le> l_sent s'" using l(4,5) D(1) by auto
    ultimately show ?thesis using VCas sees_lhead_guar [OF g l(1)] l(3) D(10) [OF l(6)] by auto
  next
    case (VNext k b new)
    then have t: "ly_hgap s = Some j" using du(5) by simp
    from VNext a moves_head_guar [OF g ne t] show ?thesis by auto
  next
    case (VPeek k b new nx)
    then have t: "ly_hgap s = Some j" using du(5) by simp
    from VPeek a obtain h mk where "moves_head s j b h" "new = iw (Suc (lidx h)) mk" "linked s (h div 31)"
      "nth_block s nx (Suc (h div 31))" by auto
    with VPeek moves_head_guar [OF g ne t] linked_guar [OF g] D(4) show ?thesis
      by (simp, intro exI [of _ h] conjI exI [of _ mk]) auto
  next
    case (VHead k b ix nx)
    then have t: "ly_hgap s = Some j" using du(5) by simp
    from VHead a obtain h mk where h: "moves_head s j b h" "ix = lw (Suc h) mk"
      "mk \<Longrightarrow> 31 * Suc (Suc h div 31) \<le> l_sent s" "linked s (h div 31)" "nth_block s nx (Suc (h div 31))" by auto
    have "mk \<Longrightarrow> 31 * Suc (Suc h div 31) \<le> l_sent s'" using h(3) D(1) by simp
    with VHead h moves_head_guar [OF g ne t h(1)] linked_guar [OF g] D(4) show ?thesis
      by (simp, intro exI [of _ h] conjI exI [of _ mk]) auto
  next
    case (VIndex k b ix)
    then have t: "ly_hgap s = Some j" using du(5) by simp
    from VIndex a obtain h mk where h: "moves_head s j b h" "ix = lw (Suc h) mk"
      "mk \<Longrightarrow> 31 * Suc (Suc h div 31) \<le> l_sent s" "linked s (h div 31)"
      "po_block (l_head s) = Some (ly_blocks s ! Suc (h div 31))" by auto
    have "mk \<Longrightarrow> 31 * Suc (Suc h div 31) \<le> l_sent s'" using h(3) D(1) by simp
    moreover have "nth_block s (ly_blocks s ! Suc (h div 31)) (Suc (h div 31))"
      using linked_block [OF chainD(2) [OF c(1)] h(4)] by (simp add: nth_block_def)
    from D(4) [OF this] have "ly_blocks s' ! Suc (h div 31) = ly_blocks s ! Suc (h div 31)"
      by (simp add: nth_block_def)
    ultimately show ?thesis
      using VIndex h moves_head_guar [OF g ne t h(1)] linked_guar [OF g] O(6) [OF t]
      by (simp, intro exI [of _ h] conjI exI [of _ mk]) auto
  next
    case (VWait k b l)
    with a obtain h where "has_lslot s j False b l h" by auto
    from slot [OF this] VWait show ?thesis by (simp, intro exI)
  next
    case (VRead k b l)
    with a show ?thesis by (auto intro: slot D(8))
  next
    case (VMark k b l m)
    with a obtain h where "has_lslot s j False b l h" "written s h" "m = ly_log s ! h" "l \<noteq> 30" by auto
    moreover from this have "ly_log s' ! h = ly_log s ! h" using log [of j False h] by (simp add: has_lslot_def)
    ultimately show ?thesis using VMark slot D(8) by (simp, intro exI [of _ h]) simp
  next
    case (VScan b bl l)
    with a show ?thesis by (auto intro: D(4,9))
  next
    case (VFlag b bl l)
    with a show ?thesis by (auto intro: D(4,9))
  next
    case (NHead tail)
    with a show ?thesis using sees_ltail_guar [OF g] by simp blast
  next
    case (NCheck tail head n)
    with a obtain l g' d where l: "sees_ltail s tail l g' d"
      "po_index (l_tail s) = tail \<Longrightarrow> head_before head l g' n" by auto
    with tail_no_return [OF c g l(1)] NCheck sees_ltail_guar [OF g l(1)] show ?thesis by auto
  qed (use a in simp_all)
qed

lemma l_at_guar:
  assumes "l_guar i s s'" "j \<noteq> i" "chain s" "chain s'" "l_at s j pc"
  shows "l_at s' j pc"
  using l_knows_guar [OF assms(1-4)] l_guar_others(2) [OF assms(1,2)] assms(5) by (simp add: l_at_def)

end
