(* ===== verification/List_Moves.thy ===== *)
theory List_Moves
  imports List_Know
begin

text \<open>
  The changes that steps of a thread of the concurrent unbounded channel make to its
  state: each keeps the invariant and is one the other threads can bear.
\<close>

unbundle bit_operations_syntax

section \<open>Frames\<close>

lemma chainI:
  "few s \<Longrightarrow> tail_ok s \<Longrightarrow> head_ok s \<Longrightarrow> lowners_ok s \<Longrightarrow> heap_ok s \<Longrightarrow> blocks_ok s \<Longrightarrow> chain s"
  by (simp add: chain_def)

lemma list_is_shutdown_frame [simp]:
  "list_is_shutdown (ch\<lparr>lc_head := h\<rparr>) = list_is_shutdown ch"
  "list_is_shutdown (ch\<lparr>lc_heap := hp\<rparr>) = list_is_shutdown ch"
  "list_is_shutdown (ch\<lparr>lc_fresh := f\<rparr>) = list_is_shutdown ch"
  "list_is_shutdown (ch\<lparr>lc_tail := p\<lparr>po_block := b\<rparr>\<rparr>) = (po_index p AND MARK_BIT \<noteq> 0)"
  by (simp_all add: list_is_shutdown_def)

lemma slot_ok_keep:
  assumes "slot_ok s bt k sl" "written s' k = written s k" "finished s' k = finished s k"
    "bt' = Left (k mod 31) \<longleftrightarrow> bt = Left (k mod 31)" "written s k \<Longrightarrow> ly_log s' ! k = ly_log s ! k"
  shows "slot_ok s' bt' k sl"
  using assms by (simp add: slot_ok_def)

lemma block_ok_keep:
  assumes b: "block_ok s n bl"
    and w: "\<And>j. j < 31 \<Longrightarrow> written s' (31 * n + j) = written s (31 * n + j)"
    and f: "\<And>j. j < 31 \<Longrightarrow> finished s' (31 * n + j) = finished s (31 * n + j)"
    and bt: "ly_baton s' (ly_blocks s' ! n) = ly_baton s (ly_blocks s ! n)"
    and l: "linked s n \<Longrightarrow> linked s' n \<and> ly_blocks s' ! Suc n = ly_blocks s ! Suc n"
    and log: "\<And>k. k < l_sent s \<Longrightarrow> ly_log s' ! k = ly_log s ! k"
  shows "block_ok s' n bl"
proof -
  have "slot_ok s' (ly_baton s' (ly_blocks s' ! n)) (31 * n + j) (bl_slots bl ! j)" if j: "j < 31" for j
  proof (rule slot_ok_keep)
    show "slot_ok s (ly_baton s (ly_blocks s ! n)) (31 * n + j) (bl_slots bl ! j)"
      using b j by (simp add: block_ok_def)
  qed (use w f bt j log in \<open>simp_all add: written_def\<close>)
  with b l show ?thesis by (simp add: block_ok_def)
qed

lemma baton_ok_keep:
  assumes "baton_ok s n bt" "\<And>j. j < 31 \<Longrightarrow> finished s' (31 * n + j) = finished s (31 * n + j)"
  shows "baton_ok s' n bt"
  using assms by (cases bt) auto

lemma blocks_ok_keep:
  assumes b: "blocks_ok s" and eq: "ly_blocks s' = ly_blocks s" "ly_baton s' = ly_baton s"
    and hp: "\<And>a. a \<in> set (ly_blocks s) \<Longrightarrow> l_heap s' a = l_heap s a"
    and w: "\<And>k. written s' k = written s k" and f: "\<And>k. finished s' k = finished s k"
    and l: "\<And>n. linked s n \<Longrightarrow> linked s' n"
    and log: "\<And>k. k < l_sent s \<Longrightarrow> ly_log s' ! k = ly_log s ! k"
  shows "blocks_ok s'"
proof -
  have "baton_ok s' n (ly_baton s' (ly_blocks s' ! n)) \<and> (ly_baton s' (ly_blocks s' ! n) \<noteq> Gone \<longrightarrow>
      (\<exists>bl. l_heap s' (ly_blocks s' ! n) = Some bl \<and> block_ok s' n bl))" if n: "n < length (ly_blocks s)" for n
  proof -
    note B = b [unfolded blocks_ok_def, rule_format, OF n]
    have "l_heap s' (ly_blocks s ! n) = l_heap s (ly_blocks s ! n)" using hp n by simp
    with B block_ok_keep [of s n _ s'] baton_ok_keep [of s n _ s'] w f l log show ?thesis by (auto simp: eq)
  qed
  then show ?thesis by (simp add: blocks_ok_def eq)
qed

lemma busy_take:
  assumes "ly_own s i = None" "ly_own s' = (ly_own s)(i := Some (d, k))"
  shows "l_busy s' e l \<longleftrightarrow> e = d \<and> l = k \<or> l_busy s e l"
proof
  assume "l_busy s' e l"
  then show "e = d \<and> l = k \<or> l_busy s e l" using assms(2) by (auto simp: l_busy_def split: if_splits)
next
  assume "e = d \<and> l = k \<or> l_busy s e l"
  then show "l_busy s' e l"
  proof
    assume "l_busy s e l"
    then obtain j where "ly_own s j = Some (e, l)" by (auto simp: l_busy_def)
    moreover from this have "j \<noteq> i" using assms(1) by auto
    ultimately show ?thesis using assms(2) by (auto simp: l_busy_def)
  qed (use assms(2) in \<open>auto simp: l_busy_def\<close>)
qed

lemma busy_release:
  assumes o: "lowners_ok s" and i: "ly_own s i = Some (d, k)" "ly_own s' = (ly_own s)(i := None)"
  shows "l_busy s' e l \<longleftrightarrow> l_busy s e l \<and> (e, l) \<noteq> (d, k)"
proof
  assume "l_busy s' e l"
  then obtain j where j: "j \<noteq> i" "ly_own s j = Some (e, l)" using i(2) by (auto simp: l_busy_def split: if_splits)
  moreover have "(e, l) \<noteq> (d, k)" using lownersD(3) [OF o i(1), of j] j by auto
  ultimately show "l_busy s e l \<and> (e, l) \<noteq> (d, k)" by (auto simp: l_busy_def)
next
  assume "l_busy s e l \<and> (e, l) \<noteq> (d, k)"
  then obtain j where "ly_own s j = Some (e, l)" "(e, l) \<noteq> (d, k)" by (auto simp: l_busy_def)
  moreover from this have "j \<noteq> i" using i(1) by auto
  ultimately show "l_busy s' e l" using i(2) by (auto simp: l_busy_def)
qed

lemma lownersI:
  assumes "\<And>i k. ly_own s i = Some (True, k) \<Longrightarrow> k < l_sent s"
    "\<And>i k. ly_own s i = Some (False, k) \<Longrightarrow> k < ly_taken s"
    "\<And>i j x. ly_own s i = Some x \<Longrightarrow> ly_own s j = Some x \<Longrightarrow> i = j"
    "\<And>k. finished s k \<Longrightarrow> written s k"
  shows "lowners_ok s"
  unfolding lowners_ok_def using assms by blast

lemma release_owners:
  assumes o: "lowners_ok s" and i: "ly_own s i = Some (d, k)" "ly_own s' = (ly_own s)(i := None)"
    and eq: "l_sent s' = l_sent s" "ly_taken s' = ly_taken s" and w: "\<not> d \<Longrightarrow> written s k"
  shows "lowners_ok s'"
    "written s' l \<longleftrightarrow> written s l \<or> d \<and> l = k" "finished s' l \<longleftrightarrow> finished s l \<or> \<not> d \<and> l = k"
proof -
  note b = busy_release [OF o i]
  have lt: "d \<Longrightarrow> k < l_sent s" "\<not> d \<Longrightarrow> k < ly_taken s" using lownersD(1,2) [OF o, of i k] i(1) by auto
  have W: "written s' l \<longleftrightarrow> written s l \<or> d \<and> l = k" for l
    using lt(1) by (auto simp: written_def b eq)
  have F: "finished s' l \<longleftrightarrow> finished s l \<or> \<not> d \<and> l = k" for l
    using lt(2) by (auto simp: finished_def b eq)
  show "written s' l \<longleftrightarrow> written s l \<or> d \<and> l = k" "finished s' l \<longleftrightarrow> finished s l \<or> \<not> d \<and> l = k"
    by (rule W, rule F)
  have own: "ly_own s' j = Some x \<Longrightarrow> ly_own s j = Some x" for j x
    using i(2) by (simp split: if_splits)
  show "lowners_ok s'"
  proof (rule lownersI)
    show "finished s' l \<Longrightarrow> written s' l" for l
      using lownersD(4) [OF o, of l] w by (auto simp: W F)
    show "ly_own s' j = Some (True, l) \<Longrightarrow> l < l_sent s'" "ly_own s' j = Some (False, l) \<Longrightarrow> l < ly_taken s'" for j l
      using lownersD(1,2) [OF o own] by (simp_all add: eq)
    show "ly_own s' j = Some x \<Longrightarrow> ly_own s' l = Some x \<Longrightarrow> j = l" for j l x
      using lownersD(3) [OF o own own] .
  qed
qed

text \<open>What stays when only ghosts of thread \<open>i\<close>, its boxes and its batons change.\<close>

lemma duties_keep:
  assumes "ly_own s' j = ly_own s j" "\<And>a. ly_box s' a = Some j \<longleftrightarrow> ly_box s a = Some j"
    "\<And>b. ly_baton s' b = Held j \<longleftrightarrow> ly_baton s b = Held j" "ly_tgap s' = Some j \<longleftrightarrow> ly_tgap s = Some j"
    "ly_hgap s' = Some j \<longleftrightarrow> ly_hgap s = Some j" "ly_first s' = Some j \<longleftrightarrow> ly_first s = Some j"
  shows "duties_of s' j = duties_of s j"
  using assms by (simp add: duties_of_def)

lemma l_guarI:
  assumes "l_sent s \<le> l_sent s'" "ly_taken s \<le> ly_taken s'"
    "\<And>k. k < l_sent s \<Longrightarrow> ly_log s' ! k = ly_log s ! k"
    "\<And>n. n < length (ly_blocks s) \<Longrightarrow> n < length (ly_blocks s') \<and> ly_blocks s' ! n = ly_blocks s ! n"
    "l_closed s \<Longrightarrow> l_closed s'"
    "l_sent s' = l_sent s \<Longrightarrow> ly_tgap s = None \<Longrightarrow> ly_tgap s' = None"
    "ly_taken s' = ly_taken s \<Longrightarrow> ly_hgap s = None \<Longrightarrow> ly_hgap s' = None"
    "\<And>k. written s k \<Longrightarrow> written s' k" "\<And>k. finished s k \<Longrightarrow> finished s' k"
    "po_block (l_head s) \<noteq> None \<Longrightarrow> po_block (l_head s') \<noteq> None"
    "\<And>j. j \<noteq> i \<Longrightarrow> ly_own s' j = ly_own s j" "\<And>j. j \<noteq> i \<Longrightarrow> duties_of s' j = duties_of s j"
    "\<And>j. j \<noteq> i \<Longrightarrow> ly_tgap s = Some j \<Longrightarrow> l_sent s' = l_sent s \<and> ly_blocks s' = ly_blocks s"
    "\<And>j. j \<noteq> i \<Longrightarrow> ly_hgap s = Some j \<Longrightarrow> ly_taken s' = ly_taken s \<and> po_block (l_head s') = po_block (l_head s)"
    "\<And>j k. j \<noteq> i \<Longrightarrow> ly_own s j = Some (True, k) \<Longrightarrow> ls_msg (l_slot s' k) = ls_msg (l_slot s k)"
  shows "l_guar i s s'"
proof -
  have nb: "nth_block s b n \<Longrightarrow> nth_block s' b n" for b n
    using assms(4) by (simp add: nth_block_def)
  note t = assms(13) [THEN conjunct1] assms(13) [THEN conjunct2]
    assms(14) [THEN conjunct1] assms(14) [THEN conjunct2]
  show ?thesis
    unfolding l_guar_def by (intro conjI allI impI) (assumption | rule nb | rule t | rule assms)+
qed

lemma l_guar_trans:
  assumes a: "l_guar i s s1" and b: "l_guar i s1 s2" and c: "chain s"
  shows "l_guar i s s2"
proof (rule l_guarI)
  note A = l_guarD [OF a] and B = l_guarD [OF b]
  show "l_sent s \<le> l_sent s2" "ly_taken s \<le> ly_taken s2" using A(1,2) B(1,2) by simp_all
  show "k < l_sent s \<Longrightarrow> ly_log s2 ! k = ly_log s ! k" for k using A(1,3) B(3) by simp
  show "n < length (ly_blocks s2) \<and> ly_blocks s2 ! n = ly_blocks s ! n" if "n < length (ly_blocks s)" for n
    using B(4) [OF A(4), of "ly_blocks s ! n" n] that by (simp add: nth_block_def)
  show "l_closed s \<Longrightarrow> l_closed s2" using A(5) B(5) by blast
  show "l_sent s2 = l_sent s \<Longrightarrow> ly_tgap s = None \<Longrightarrow> ly_tgap s2 = None" using A(1,6) B(1,6) by simp
  show "ly_taken s2 = ly_taken s \<Longrightarrow> ly_hgap s = None \<Longrightarrow> ly_hgap s2 = None" using A(2,7) B(2,7) by simp
  show "po_block (l_head s) \<noteq> None \<Longrightarrow> po_block (l_head s2) \<noteq> None" using A(10) B(10) by blast
  show "written s k \<Longrightarrow> written s2 k" "finished s k \<Longrightarrow> finished s2 k" for k using A(8,9) B(8,9) by blast+
  fix j
  assume ne: "j \<noteq> i"
  note A = l_guar_others [OF a ne] and B = l_guar_others [OF b ne]
  show "ly_own s2 j = ly_own s j" "duties_of s2 j = duties_of s j" using A(1,2) B(1,2) by simp_all
  have d: "ly_tgap s1 = Some j \<longleftrightarrow> ly_tgap s = Some j" "ly_hgap s1 = Some j \<longleftrightarrow> ly_hgap s = Some j"
    using A(2) by (simp_all add: duties_of_def)
  show "ly_tgap s = Some j \<Longrightarrow> l_sent s2 = l_sent s \<and> ly_blocks s2 = ly_blocks s"
    using A(3,4) B(3,4) d by simp
  show "ly_hgap s = Some j \<Longrightarrow> ly_taken s2 = ly_taken s \<and> po_block (l_head s2) = po_block (l_head s)"
    using A(5,6) B(5,6) d by simp
  show "ls_msg (l_slot s2 k) = ls_msg (l_slot s k)" if "ly_own s j = Some (True, k)" for k
    using A(1) A(7) [OF that] B(7) that by simp
qed

section \<open>Changes that leave the list alone\<close>

definition l_calm :: "('q, 't, 'm) lsys \<Rightarrow> ('q, 't, 'm) lsys \<Rightarrow> bool" where
  "l_calm s s' \<longleftrightarrow>
     (\<exists>w b. s' = l_set ((ly_chan s)\<lparr>lc_receivers := w, lc_first := b\<rparr>) s)"

lemma l_calm_simps [simp]:
  "l_calm s s" "l_calm s (l_set ((ly_chan s)\<lparr>lc_receivers := w\<rparr>) s)" "l_calm s (l_set ((ly_chan s)\<lparr>lc_first := b\<rparr>) s)"
proof -
  have "s = l_set ((ly_chan s)\<lparr>lc_receivers := lc_receivers (ly_chan s), lc_first := lc_first (ly_chan s)\<rparr>) s"
    "l_set ((ly_chan s)\<lparr>lc_receivers := w\<rparr>) s
      = l_set ((ly_chan s)\<lparr>lc_receivers := w, lc_first := lc_first (ly_chan s)\<rparr>) s"
    "l_set ((ly_chan s)\<lparr>lc_first := b\<rparr>) s
      = l_set ((ly_chan s)\<lparr>lc_receivers := lc_receivers (ly_chan s), lc_first := b\<rparr>) s"
    by (simp_all add: l_set_def)
  then show "l_calm s s" "l_calm s (l_set ((ly_chan s)\<lparr>lc_receivers := w\<rparr>) s)"
    "l_calm s (l_set ((ly_chan s)\<lparr>lc_first := b\<rparr>) s)" unfolding l_calm_def by blast+
qed

lemma l_calm_same:
  assumes "l_calm s s'"
  shows "ly_log s' = ly_log s" "ly_taken s' = ly_taken s" "ly_own s' = ly_own s" "ly_blocks s' = ly_blocks s"
    "ly_tgap s' = ly_tgap s" "ly_hgap s' = ly_hgap s" "ly_first s' = ly_first s" "ly_box s' = ly_box s"
    "ly_baton s' = ly_baton s" "l_head s' = l_head s" "l_tail s' = l_tail s" "l_heap s' = l_heap s"
    "lc_fresh (ly_chan s') = lc_fresh (ly_chan s)" "l_closed s' = l_closed s"
  using assms by (auto simp: l_calm_def l_set_def list_is_shutdown_def)

text \<open>The parts of the state that the knowledge of a thread is about, boxes apart.\<close>

definition l_same :: "('q, 't, 'm) lsys \<Rightarrow> ('q, 't, 'm) lsys \<Rightarrow> bool" where
  "l_same s s' \<longleftrightarrow> ly_log s' = ly_log s \<and> ly_taken s' = ly_taken s \<and> ly_own s' = ly_own s
     \<and> ly_blocks s' = ly_blocks s \<and> ly_tgap s' = ly_tgap s \<and> ly_hgap s' = ly_hgap s
     \<and> ly_first s' = ly_first s \<and> ly_baton s' = ly_baton s \<and> l_head s' = l_head s \<and> l_tail s' = l_tail s
     \<and> (\<forall>a \<in> set (ly_blocks s). l_heap s' a = l_heap s a)"

lemma l_sameD:
  assumes "l_same s s'"
  shows "ly_log s' = ly_log s" "ly_taken s' = ly_taken s" "ly_own s' = ly_own s" "ly_blocks s' = ly_blocks s"
    "ly_tgap s' = ly_tgap s" "ly_hgap s' = ly_hgap s" "ly_first s' = ly_first s" "ly_baton s' = ly_baton s"
    "l_head s' = l_head s" "l_tail s' = l_tail s" "l_closed s' = l_closed s"
    "a \<in> set (ly_blocks s) \<Longrightarrow> l_heap s' a = l_heap s a"
    "written s' = written s" "finished s' = finished s" "linked s' = linked s" "nth_block s' = nth_block s"
    "sees_ltail s' = sees_ltail s" "sees_lhead s' = sees_lhead s" "has_lslot s' = has_lslot s"
  using assms
  by (simp_all add: l_same_def list_is_shutdown_def written_def finished_def linked_def nth_block_def
      sees_ltail_def sees_lhead_def has_lslot_def l_busy_def fun_eq_iff)

lemma l_calm_l_same: "l_calm s s' \<Longrightarrow> l_same s s'"
  using l_calm_same [of s s'] by (simp add: l_same_def)

lemma l_same_chain:
  assumes "l_same s s'" "chain s" "heap_ok s'"
  shows "chain s'"
proof (rule chainI)
  note S = l_sameD [OF assms(1)]
  show "few s'" "tail_ok s'" "head_ok s'"
    using chainD(1-3) [OF assms(2)] by (simp_all add: few_def tail_ok_def head_ok_def S)
  show "lowners_ok s'" using chainD(4) [OF assms(2)] by (simp add: lowners_ok_def S)
  show "blocks_ok s'" by (rule blocks_ok_keep [OF chainD(6) [OF assms(2)]]) (simp_all add: S)
qed (rule assms(3))

lemma l_slot_same: "l_same s s' \<Longrightarrow> chain s \<Longrightarrow> k < l_sent s \<Longrightarrow> l_slot s' k = l_slot s k"
  using sent_block [OF chainD(2), of s k] l_sameD [of s s'] by (simp add: l_slot_def)

lemma l_same_guar:
  assumes s: "l_same s s'" and c: "chain s"
    and b: "\<And>j a. j \<noteq> i \<Longrightarrow> ly_box s' a = Some j \<longleftrightarrow> ly_box s a = Some j"
  shows "l_guar i s s'"
proof (rule l_guarI)
  note S = l_sameD [OF s]
  show "ls_msg (l_slot s' k) = ls_msg (l_slot s k)" if "ly_own s j = Some (True, k)" for j k
    using l_slot_same [OF s c owned_sent [OF c that]] by simp
  show "duties_of s' j = duties_of s j" if "j \<noteq> i" for j
    using b [OF that] by (simp add: duties_of_def S)
qed (simp_all add: l_sameD [OF s])

lemma l_calm_good:
  assumes "l_calm s s'" "chain s"
  shows "chain s'" "l_guar i s s'" "l_at s' i pc = l_at s i pc"
proof -
  note C = l_calm_same [OF assms(1)] and s = l_calm_l_same [OF assms(1)]
  have "heap_ok s'" using chainD(5) [OF assms(2)] by (simp add: heap_ok_def C)
  with l_same_chain [OF s assms(2)] show "chain s'" .
  show "l_guar i s s'" by (rule l_same_guar [OF s assms(2)]) (simp add: C)
  have "l_slot s' = l_slot s" by (simp add: l_slot_def C fun_eq_iff)
  then show "l_at s' i pc = l_at s i pc"
    unfolding l_at_def duties_of_def by (cases pc) (simp_all add: C l_sameD(11,13-19) [OF s] moves_head_def)
qed

text \<open>A block is allocated.\<close>

lemma box_new_good:
  assumes c: "chain s" and n: "box_new i s = (a, s')"
  shows "chain s'" "l_guar i s s'" "l_same s s'"
    "duties_of s' i = (duties_of s i)\<lparr>du_boxes := insert a (du_boxes (duties_of s i))\<rparr>" "a \<notin> du_boxes (duties_of s i)"
proof -
  note h = chainD(5) [OF c, unfolded heap_ok_def]
  from n have a: "a = lc_fresh (ly_chan s)" and s': "s' = s\<lparr>ly_chan := (ly_chan s)\<lparr>lc_heap := (l_heap s)(a := Some block_new),
      lc_fresh := Suc a\<rparr>, ly_box := (ly_box s)(a := Some i)\<rparr>"
    by (auto simp: box_new_def list_alloc_def)
  have new: "a \<notin> set (ly_blocks s)" "ly_box s a = None"
    using heap_okD(2,4) [OF chainD(5) [OF c], of a] a by (auto simp del: not_None_eq) (cases "ly_box s a", auto)
  show same: "l_same s s'" using new by (auto simp: l_same_def s')
  have "heap_ok s'"
    using h new a unfolding heap_ok_def s' by (auto simp: less_Suc_eq)
  with same c show "chain s'" by (rule l_same_chain)
  show "l_guar i s s'" by (rule l_same_guar [OF same c]) (use new in \<open>auto simp: s'\<close>)
  show "duties_of s' i = (duties_of s i)\<lparr>du_boxes := insert a (du_boxes (duties_of s i))\<rparr>"
    using new by (auto simp: duties_of_def s')
  show "a \<notin> du_boxes (duties_of s i)" using new by (simp add: duties_of_def)
qed

text \<open>A block that was not needed is dropped.\<close>

lemma box_drop_good:
  assumes c: "chain s" and nb: "\<And>b. nb = Some b \<Longrightarrow> ly_box s b = Some i"
  obtains s' where "box_drop nb s = Done s'" "chain s'" "l_guar i s s'" "l_same s s'"
    "duties_of s' i = (duties_of s i)\<lparr>du_boxes := du_boxes (duties_of s i) - set_option nb\<rparr>"
proof (cases nb)
  case None
  have "l_guar i s s" by (rule l_same_guar [OF _ c]) (simp_all add: l_same_def)
  with None that [of s] c show thesis by (simp add: box_drop_def l_same_def)
next
  case (Some b)
  note h = chainD(5) [OF c, unfolded heap_ok_def]
  have b: "ly_box s b = Some i" using nb Some by simp
  then have hb: "l_heap s b = Some block_new" "b \<notin> set (ly_blocks s)" using h by auto
  let ?s = "s\<lparr>ly_chan := (ly_chan s)\<lparr>lc_heap := (l_heap s)(b := None)\<rparr>, ly_box := (ly_box s)(b := None)\<rparr>"
  have same: "l_same s ?s" using hb by (auto simp: l_same_def)
  have "heap_ok ?s" using h hb unfolding heap_ok_def by (auto split: if_splits)
  then have "chain ?s" by (rule l_same_chain [OF same c])
  moreover have "l_guar i s ?s" by (rule l_same_guar [OF same c]) (use b in auto)
  moreover have "box_drop nb s = Done ?s" using hb by (simp add: box_drop_def list_free_def Some)
  moreover have "duties_of ?s i = (duties_of s i)\<lparr>du_boxes := du_boxes (duties_of s i) - set_option nb\<rparr>"
    by (auto simp: duties_of_def Some)
  ultimately show thesis using that same by blast
qed

end
