(* ===== verification/List_Change.thy ===== *)
theory List_Change
  imports List_Moves
begin

text \<open>
  The changes that steps of a thread of the concurrent unbounded channel make to the list
  of blocks, to the head and the tail, and to the slots.
\<close>

unbundle bit_operations_syntax

section \<open>A block is put into the list\<close>

lemma tail_okD:
  assumes "tail_ok s"
  shows "gap_ok (l_sent s) (ly_tgap s \<noteq> None)"
    "po_index (l_tail s) = iw (place (l_sent s) (ly_tgap s \<noteq> None)) (l_closed s)"
    "po_block (l_tail s) = (if ly_blocks s = [] then None else Some (last (ly_blocks s)))"
    "length (ly_blocks s) = Suc (l_sent s div 31)
        \<or> ly_tgap s \<noteq> None \<and> length (ly_blocks s) = l_sent s div 31 \<or> ly_blocks s = [] \<and> l_sent s = 0"
  using assms unfolding tail_ok_def by blast+

lemma head_okD:
  assumes "head_ok s"
  shows "ly_taken s \<le> l_sent s" "gap_ok (ly_taken s) (ly_hgap s \<noteq> None)"
    "\<exists>mk. po_index (l_head s) = iw (place (ly_taken s) (ly_hgap s \<noteq> None)) mk
          \<and> (mk \<longrightarrow> ly_hgap s = None \<longrightarrow> 31 * Suc (ly_taken s div 31) \<le> l_sent s)"
    "ly_tgap s \<noteq> None \<Longrightarrow> ly_taken s = l_sent s \<Longrightarrow> ly_hgap s \<noteq> None"
    "po_block (l_head s) = None \<Longrightarrow> ly_taken s = 0"
    "po_block (l_head s) = Some b \<Longrightarrow> ly_hgap s = None \<Longrightarrow> ly_blocks s \<noteq> [] \<and> b = ly_blocks s ! (ly_taken s div 31)"
    "ly_first s \<noteq> None \<Longrightarrow> po_block (l_head s) = None" "ly_first s \<noteq> None \<Longrightarrow> ly_blocks s \<noteq> []"
  using assms unfolding head_ok_def by blast+

lemma sent_blocks:
  assumes "tail_ok s"
  shows "l_sent s \<le> 31 * length (ly_blocks s)"
proof (cases "l_sent s")
  case (Suc k)
  then have "k div 31 < length (ly_blocks s)" using sent_block [OF assms, of k] by simp
  then have "k < 31 * length (ly_blocks s)" by (simp add: div_less_iff_less_mult mult.commute)
  with Suc show ?thesis by simp
qed simp

lemma written_sent: "written s k \<Longrightarrow> k < l_sent s"
  by (simp add: written_def)

lemma new_block_ok:
  assumes "\<And>j. j < 31 \<Longrightarrow> \<not> written s (31 * n + j)" "\<And>j. j < 31 \<Longrightarrow> \<not> finished s (31 * n + j)"
    "ly_baton s (ly_blocks s ! n) = Whole"
  shows "block_ok s n block_new" "baton_ok s n (ly_baton s (ly_blocks s ! n))"
  using assms by (simp_all add: block_ok_def block_new_def slot_ok_def index_simps)

lemma blocks_ok_append:
  assumes c: "chain s" and new: "ly_box s new = Some i"
    and eq: "ly_blocks s' = ly_blocks s @ [new]" "ly_baton s' = ly_baton s" "l_heap s' = l_heap s"
      "ly_log s' = ly_log s" "ly_taken s' = ly_taken s" "ly_own s' = ly_own s" "ly_tgap s' = ly_tgap s"
  shows "blocks_ok s'" "distinct (ly_blocks s')" "nth_block s' new (length (ly_blocks s))"
proof -
  note H = heap_okD [OF chainD(5) [OF c]] and T = chainD(2) [OF c]
  have same: "written s' = written s" "finished s' = finished s" "linked s' = linked s"
    by (simp_all add: written_def finished_def linked_def l_busy_def eq fun_eq_iff)
  have notin: "new \<notin> set (ly_blocks s)" using H(3) [of new] new by auto
  with H(1) show "distinct (ly_blocks s')" by (simp add: eq)
  show "nth_block s' new (length (ly_blocks s))" by (simp add: nth_block_def eq)
  have "baton_ok s' n (ly_baton s' (ly_blocks s' ! n)) \<and> (ly_baton s' (ly_blocks s' ! n) \<noteq> Gone \<longrightarrow>
      (\<exists>bl. l_heap s' (ly_blocks s' ! n) = Some bl \<and> block_ok s' n bl))" if n: "n \<le> length (ly_blocks s)" for n
  proof (cases "n = length (ly_blocks s)")
    case True
    have "\<not> written s (31 * n + j)" for j
      using written_sent [of s "31 * n + j"] sent_blocks [OF T] True by auto
    moreover from this have "\<not> finished s (31 * n + j)" for j
      using lownersD(4) [OF chainD(4) [OF c]] by blast
    moreover have b: "ly_blocks s' ! n = new" by (simp add: True eq)
    moreover have "ly_baton s' new = Whole" using H(7) [OF notin] by (simp add: eq)
    ultimately have "block_ok s' n block_new" "baton_ok s' n (ly_baton s' (ly_blocks s' ! n))"
      by (intro new_block_ok; simp add: same)+
    moreover have "l_heap s' (ly_blocks s' ! n) = Some block_new" using H(5) [OF new] b eq by simp
    ultimately show ?thesis by blast
  next
    case False
    with n have n: "n < length (ly_blocks s)" by simp
    note B = chainD(6) [OF c, unfolded blocks_ok_def, rule_format, OF n]
    have b: "ly_blocks s' ! n = ly_blocks s ! n" using n by (simp add: eq nth_append)
    have l: "linked s n \<Longrightarrow> linked s' n \<and> ly_blocks s' ! Suc n = ly_blocks s ! Suc n"
      using linked_block [OF T, of n] by (simp add: same eq nth_append)
    from B have "baton_ok s' n (ly_baton s' (ly_blocks s' ! n))"
      using baton_ok_keep [of s n _ s'] by (simp add: b same eq(2))
    moreover have "block_ok s n bl \<Longrightarrow> block_ok s' n bl" for bl
      by (rule block_ok_keep [OF _ _ _ _ l]) (simp_all add: same b eq(2-))
    ultimately show ?thesis using B by (auto simp: b eq(2,3))
  qed
  then show "blocks_ok s'" by (simp add: blocks_ok_def eq less_Suc_eq_le)
qed

lemma append_heap_ok:
  assumes c: "chain s" and new: "ly_box s new = Some i"
    and eq: "ly_blocks s' = ly_blocks s @ [new]" "ly_baton s' = ly_baton s" "l_heap s' = l_heap s"
      "ly_box s' = (ly_box s)(new := None)" "lc_fresh (ly_chan s') = lc_fresh (ly_chan s)"
      "distinct (ly_blocks s')"
  shows "heap_ok s'"
proof -
  note H = heap_okD [OF chainD(5) [OF c]]
  have notin: "new \<notin> set (ly_blocks s)" using H(3) [of new] new by auto
  show ?thesis
  proof (rule heap_okI)
    show "distinct (ly_blocks s')" by (rule eq(6))
    show "a \<in> set (ly_blocks s') \<Longrightarrow> a < lc_fresh (ly_chan s')" "a \<in> set (ly_blocks s') \<Longrightarrow> ly_box s' a = None"
      "a \<notin> set (ly_blocks s') \<Longrightarrow> ly_baton s' a = Whole" for a
      using H(2,3,7) H(4) [OF new] by (auto simp: eq)
    show "ly_box s' a = Some j \<Longrightarrow> a < lc_fresh (ly_chan s')" "ly_box s' a = Some j \<Longrightarrow> l_heap s' a = Some block_new" for a j
      using H(4,5) [of a j] by (simp_all add: eq split: if_splits)
    show "a \<in> set (ly_blocks s') \<and> ly_baton s' a \<noteq> Gone" if "l_heap s' a = Some bl" "ly_box s' a = None" for a bl
      using that H(6) [of a bl] H(7) [OF notin] by (cases "a = new") (auto simp: eq)
  qed
qed

text \<open>The \<open>compare_and_swap\<close> on the null pointer of the tail.\<close>

lemma install_first:
  assumes c: "chain s" and nul: "po_block (l_tail s) = None" and new: "ly_box s new = Some i"
    and s': "s' = s\<lparr>ly_chan := (ly_chan s)\<lparr>lc_tail := (l_tail s)\<lparr>po_block := Some new\<rparr>\<rparr>,
      ly_blocks := ly_blocks s @ [new], ly_box := (ly_box s)(new := None), ly_first := Some i\<rparr>"
  shows "chain s'" "l_guar i s s'" "nth_block s' new 0"
    "duties_of s' i = (duties_of s i)\<lparr>du_boxes := du_boxes (duties_of s i) - {new}, du_first := True\<rparr>"
proof -
  note T = tail_okD [OF chainD(2) [OF c]] and H = head_okD [OF chainD(3) [OF c]]
  have e: "ly_blocks s = []" using T(3) nul by (simp split: if_splits)
  have N: "l_sent s = 0" using T(1,4) e by (auto simp: gap_ok_def)
  have gap: "ly_tgap s = None" "ly_taken s = 0" "ly_hgap s = None"
    using T(1) H(1,2) N by (auto simp: gap_ok_def)
  have first: "ly_first s = None" using H(8) e by blast
  have hd: "po_block (l_head s) = None" using H(6) gap(3) e by (cases "po_block (l_head s)") auto
  have B: "blocks_ok s'" "distinct (ly_blocks s')" "nth_block s' new (length (ly_blocks s))"
    using blocks_ok_append [OF c new, of s'] by (simp_all add: s')
  have own: "written s' = written s" "finished s' = finished s"
    by (simp_all add: written_def finished_def l_busy_def s' fun_eq_iff)
  show "chain s'"
  proof (rule chainI)
    show "few s'" using chainD(1) [OF c] by (simp add: few_def s')
    show "tail_ok s'"
      using T e N gap by (simp add: tail_ok_def s' list_is_shutdown_def)
    show "head_ok s'" using H gap N hd by (simp add: head_ok_def s')
    show "lowners_ok s'" using chainD(4) [OF c] unfolding lowners_ok_def own by (simp add: s')
    show "heap_ok s'" by (rule append_heap_ok [OF c new _ _ _ _ _ B(2)]) (simp_all add: s')
  qed (rule B(1))
  show "nth_block s' new 0" using B(3) e by simp
  show "l_guar i s s'"
  proof (rule l_guarI)
    show "duties_of s' j = duties_of s j" if "j \<noteq> i" for j
      by (rule duties_keep) (use that new first in \<open>auto simp: s'\<close>)
    show "ls_msg (l_slot s' k) = ls_msg (l_slot s k)" if "ly_own s j = Some (True, k)" for j k
      using owned_sent [OF c that] N by simp
    show "l_closed s \<Longrightarrow> l_closed s'" by (simp add: s' list_is_shutdown_def)
  qed (simp_all add: own, simp_all add: s' e gap)
  show "duties_of s' i = (duties_of s i)\<lparr>du_boxes := du_boxes (duties_of s i) - {new}, du_first := True\<rparr>"
    by (auto simp: duties_of_def s')
qed

text \<open>The first block becomes that of the head.\<close>

lemma install_head:
  assumes c: "chain s" and f: "ly_first s = Some i" and b: "nth_block s new 0"
    and s': "s' = s\<lparr>ly_chan := (ly_chan s)\<lparr>lc_head := (l_head s)\<lparr>po_block := Some new\<rparr>\<rparr>, ly_first := None\<rparr>"
  shows "chain s'" "l_guar i s s'" "duties_of s' i = (duties_of s i)\<lparr>du_first := False\<rparr>"
proof -
  note H = head_okD [OF chainD(3) [OF c]]
  have z: "po_block (l_head s) = None" "ly_taken s = 0" using H(5,7) f by simp_all
  then have gap: "ly_hgap s = None" using H(2) by (auto simp: gap_ok_def)
  have same: "written s' = written s" "finished s' = finished s" "linked s' = linked s"
    by (simp_all add: written_def finished_def linked_def l_busy_def s' fun_eq_iff)
  show "chain s'"
  proof (rule chainI)
    show "few s'" "tail_ok s'" using chainD(1,2) [OF c] by (simp_all add: few_def tail_ok_def s' list_is_shutdown_def)
    show "head_ok s'" using H z gap b by (auto simp add: head_ok_def s' nth_block_def)
    show "lowners_ok s'" using chainD(4) [OF c] unfolding lowners_ok_def same by (simp add: s')
    show "heap_ok s'" using chainD(5) [OF c] by (simp add: heap_ok_def s')
    show "blocks_ok s'" by (rule blocks_ok_keep [OF chainD(6) [OF c]]) (simp_all add: same, simp_all add: s')
  qed
  show "l_guar i s s'"
  proof (rule l_guarI)
    show "duties_of s' j = duties_of s j" if "j \<noteq> i" for j
      by (rule duties_keep) (use that f in \<open>auto simp: s'\<close>)
    show "l_closed s \<Longrightarrow> l_closed s'" by (simp add: s' list_is_shutdown_def)
    show "ls_msg (l_slot s' k) = ls_msg (l_slot s k)" for k by (simp add: l_slot_def s')
  qed (simp_all add: same, simp_all add: s' gap)
  show "duties_of s' i = (duties_of s i)\<lparr>du_first := False\<rparr>" by (auto simp: duties_of_def s')
qed

section \<open>The tail moves\<close>

lemma place_Suc: "place (Suc k) (k mod 31 = 30) = Suc (lidx k)" "gap_ok (Suc k) (k mod 31 = 30)"
  by (auto simp: place_def gap_ok_def lidx_Suc mod_Suc)

lemma div_Suc_31: "Suc k div 31 = (if k mod 31 = 30 then Suc (k div 31) else k div 31)"
  by (simp add: div_Suc mod_Suc)

lemma Suc_mod_31: "Suc k mod 31 = 0 \<longleftrightarrow> k mod 31 = 30"
  by presburger

lemma iw_closed: "iw r d AND MARK_BIT \<noteq> 0 \<longleftrightarrow> d"
  by (simp add: MARK_BIT_def)

lemma reserve_tail:
  assumes c: "chain s" and own: "ly_own s i = None" and gap: "ly_tgap s = None" and opn: "\<not> l_closed s"
    and b: "nth_block s b (l_sent s div 31)"
    and eq: "l_tail s' = (l_tail s)\<lparr>po_index := iw (Suc (lidx (l_sent s))) False\<rparr>"
      "ly_log s' = ly_log s @ [m]" "ly_own s' = (ly_own s)(i := Some (True, l_sent s))"
      "ly_tgap s' = (if l_sent s mod 31 = 30 then Some i else None)"
      "ly_taken s' = ly_taken s" "ly_blocks s' = ly_blocks s" "ly_hgap s' = ly_hgap s" "ly_first s' = ly_first s"
      "ly_box s' = ly_box s" "ly_baton s' = ly_baton s" "l_head s' = l_head s" "l_heap s' = l_heap s"
      "lc_fresh (ly_chan s') = lc_fresh (ly_chan s)"
    and few: "few s'"
  shows "chain s'" "l_guar i s s'" "\<not> l_closed s'"
    "duties_of s' i = (duties_of s i)\<lparr>du_slot := True, du_tail := (l_sent s mod 31 = 30)\<rparr>"
proof -
  note T = tail_okD [OF chainD(2) [OF c]] and H = head_okD [OF chainD(3) [OF c]] and O = chainD(4) [OF c]
  let ?N = "l_sent s"
  have len: "length (ly_blocks s) = Suc (?N div 31)" using T(4) gap b by (auto simp: nth_block_def)
  have busy: "l_busy s' e l \<longleftrightarrow> e \<and> l = ?N \<or> l_busy s e l" for e l
    using busy_take [OF own eq(3)] by auto
  have same: "written s' = written s" "finished s' = finished s"
    by (auto simp: written_def finished_def busy eq(2,5) fun_eq_iff less_Suc_eq)
  show closed: "\<not> l_closed s'" by (simp add: list_is_shutdown_def eq(1) iw_closed)
  show "chain s'"
  proof (rule chainI)
    have gap': "(ly_tgap s' \<noteq> None) = (?N mod 31 = 30)" by (simp add: eq(4))
    have len': "length (ly_blocks s') = length (ly_blocks s)" "l_sent s' = Suc ?N" by (simp_all add: eq)
    show "tail_ok s'"
      unfolding tail_ok_def gap' len' len using place_Suc [of ?N] T(3) closed
      by (simp add: eq(1,6) div_Suc_31)
    show "head_ok s'" using H gap by (auto simp: head_ok_def eq)
    show "lowners_ok s'"
    proof (rule lownersI)
      show "ly_own s' j = Some (True, k) \<Longrightarrow> k < l_sent s'" for j k
        using lownersD(1) [OF O, of j k] by (auto simp: eq split: if_splits)
      show "ly_own s' j = Some (False, k) \<Longrightarrow> k < ly_taken s'" for j k
        using lownersD(2) [OF O, of j k] by (auto simp: eq split: if_splits)
      show "ly_own s' j = Some x \<Longrightarrow> ly_own s' l = Some x \<Longrightarrow> j = l" for j l x
        using lownersD(3) [OF O, of j x l] lownersD(1) [OF O, of _ ?N] by (auto simp: eq split: if_splits)
      show "finished s' k \<Longrightarrow> written s' k" for k using lownersD(4) [OF O] by (simp add: same)
    qed
    show "heap_ok s'" using chainD(5) [OF c] by (simp add: heap_ok_def eq)
    show "blocks_ok s'"
      by (rule blocks_ok_keep [OF chainD(6) [OF c]]) (auto simp: same eq(2,6,10,12) linked_def nth_append)
  qed (rule few)
  show "l_guar i s s'"
  proof (rule l_guarI)
    show "duties_of s' j = duties_of s j" if "j \<noteq> i" for j
      by (rule duties_keep) (use that gap in \<open>auto simp: eq\<close>)
    show "ls_msg (l_slot s' k) = ls_msg (l_slot s k)" for k by (simp add: l_slot_def eq)
  qed (use gap opn in \<open>simp_all add: same\<close>, simp_all add: eq nth_append)
  show "duties_of s' i = (duties_of s i)\<lparr>du_slot := True, du_tail := (?N mod 31 = 30)\<rparr>"
    using gap by (auto simp: duties_of_def eq)
qed

text \<open>The next block becomes that of the tail.\<close>

lemma install_next:
  assumes c: "chain s" and gap: "ly_tgap s = Some i" and new: "ly_box s new = Some i"
    and len: "length (ly_blocks s) = l_sent s div 31"
    and s': "s' = s\<lparr>ly_chan := (ly_chan s)\<lparr>lc_tail := (l_tail s)\<lparr>po_block := Some new\<rparr>\<rparr>,
      ly_blocks := ly_blocks s @ [new], ly_box := (ly_box s)(new := None)\<rparr>"
  shows "chain s'" "l_guar i s s'" "nth_block s' new (length (ly_blocks s))"
    "duties_of s' i = (duties_of s i)\<lparr>du_boxes := du_boxes (duties_of s i) - {new}\<rparr>"
proof -
  note T = tail_okD [OF chainD(2) [OF c]] and H = head_okD [OF chainD(3) [OF c]]
  have B: "blocks_ok s'" "distinct (ly_blocks s')" "nth_block s' new (length (ly_blocks s))"
    using blocks_ok_append [OF c new, of s'] by (simp_all add: s')
  have own: "written s' = written s" "finished s' = finished s"
    by (simp_all add: written_def finished_def l_busy_def s' fun_eq_iff)
  have closed: "l_closed s' = l_closed s" by (simp add: s' list_is_shutdown_def)
  have ht: "ly_taken s div 31 < length (ly_blocks s)" if "ly_hgap s = None"
    using sent_block [OF chainD(2) [OF c], of "ly_taken s"] H(1,4) gap that by (auto simp: le_less)
  show "chain s'"
  proof (rule chainI)
    show "few s'" using chainD(1) [OF c] by (simp add: few_def s')
    show "tail_ok s'"
      using T len unfolding tail_ok_def closed by (simp add: s')
    show "head_ok s'" using H ht by (auto simp: head_ok_def s' nth_append)
    show "lowners_ok s'" using chainD(4) [OF c] unfolding lowners_ok_def own by (simp add: s')
    show "heap_ok s'" by (rule append_heap_ok [OF c new _ _ _ _ _ B(2)]) (simp_all add: s')
  qed (rule B(1))
  show "nth_block s' new (length (ly_blocks s))" by (rule B(3))
  show "l_guar i s s'"
  proof (rule l_guarI)
    show "duties_of s' j = duties_of s j" if "j \<noteq> i" for j
      by (rule duties_keep) (use that new in \<open>auto simp: s'\<close>)
    show "ls_msg (l_slot s' k) = ls_msg (l_slot s k)" if "ly_own s j = Some (True, k)" for j k
      using sent_block [OF chainD(2) [OF c] owned_sent [OF c that]] by (simp add: l_slot_def s' nth_append)
  qed (use closed gap in \<open>simp_all add: own\<close>, simp_all add: s' nth_append)
  show "duties_of s' i = (duties_of s i)\<lparr>du_boxes := du_boxes (duties_of s i) - {new}\<rparr>"
    by (auto simp: duties_of_def s')
qed

text \<open>The tail enters the next block.\<close>

lemma enter_tail:
  assumes c: "chain s" and gap: "ly_tgap s = Some i"
    and len: "length (ly_blocks s) = Suc (l_sent s div 31)"
    and s': "s' = s\<lparr>ly_chan := (ly_chan s)\<lparr>lc_tail := (l_tail s)\<lparr>po_index := po_index (l_tail s) + one_shift\<rparr>\<rparr>,
      ly_tgap := None\<rparr>"
  shows "chain s'" "l_guar i s s'" "l_closed s' = l_closed s" "\<And>n. l_sent s = 31 * Suc n \<Longrightarrow> linked s' n"
    "duties_of s' i = (duties_of s i)\<lparr>du_tail := False\<rparr>"
proof -
  note T = tail_okD [OF chainD(2) [OF c]] and H = head_okD [OF chainD(3) [OF c]]
  obtain n where n: "l_sent s = 31 * Suc n" "lidx (l_sent s) = 32 * Suc n" "place (l_sent s) True = 32 * n + 31"
    using T(1) gap by (auto elim: place_gap)
  have ix: "po_index (l_tail s') = iw (lidx (l_sent s)) (l_closed s)"
    using T(2) gap n by (simp add: s' iw_add_2)
  then show closed: "l_closed s' = l_closed s" by (simp add: list_is_shutdown_def iw_closed)
  have own: "written s' = written s" "finished s' = finished s"
    by (simp_all add: written_def finished_def l_busy_def s' fun_eq_iff)
  have "l_tail s' = (l_tail s)\<lparr>po_index := po_index (l_tail s')\<rparr>" by (simp add: s')
  show "chain s'"
  proof (rule chainI)
    show "few s'" using chainD(1) [OF c] by (simp add: few_def s')
    show "tail_ok s'"
      using T(3) len unfolding tail_ok_def ix closed by (simp add: s')
    show "head_ok s'" using H by (auto simp: head_ok_def s')
    show "lowners_ok s'" using chainD(4) [OF c] unfolding lowners_ok_def own by (simp add: s')
    show "heap_ok s'" using chainD(5) [OF c] by (simp add: heap_ok_def s')
    show "blocks_ok s'"
      by (rule blocks_ok_keep [OF chainD(6) [OF c]]) (simp_all add: own linked_def, auto simp: s')
  qed
  show "l_guar i s s'"
  proof (rule l_guarI)
    show "duties_of s' j = duties_of s j" if "j \<noteq> i" for j
      by (rule duties_keep) (use that gap in \<open>auto simp: s'\<close>)
    show "ls_msg (l_slot s' k) = ls_msg (l_slot s k)" for k by (simp add: l_slot_def s')
  qed (simp_all add: own closed, simp_all add: s')
  show "\<And>n. l_sent s = 31 * Suc n \<Longrightarrow> linked s' n" by (simp add: linked_def s')
  show "duties_of s' i = (duties_of s i)\<lparr>du_tail := False\<rparr>" by (simp add: duties_of_def s')
qed

text \<open>The tail is marked.\<close>

lemma close_tail:
  assumes c: "chain s"
    and s': "s' = l_set ((ly_chan s)\<lparr>lc_tail := (l_tail s)\<lparr>po_index := po_index (l_tail s) OR MARK_BIT\<rparr>\<rparr>) s"
  shows "chain s'" "l_guar i s s'" "l_closed s'" "duties_of s' i = duties_of s i"
proof -
  note T = tail_okD [OF chainD(2) [OF c]] and H = head_okD [OF chainD(3) [OF c]]
  have ix: "po_index (l_tail s') = iw (place (l_sent s) (ly_tgap s \<noteq> None)) True"
    using T(2) by (simp add: s' l_set_def MARK_BIT_def iw_or_mark)
  then show closed: "l_closed s'" by (simp add: list_is_shutdown_def iw_closed)
  have own: "written s' = written s" "finished s' = finished s" "linked s' = linked s"
    by (simp_all add: written_def finished_def linked_def l_busy_def s' l_set_def fun_eq_iff)
  show "chain s'"
  proof (rule chainI)
    show "few s'" using chainD(1) [OF c] by (simp add: few_def s' l_set_def)
    show "tail_ok s'"
      using T closed unfolding tail_ok_def ix by (simp add: s' l_set_def)
    show "head_ok s'" using H by (auto simp: head_ok_def s' l_set_def)
    show "lowners_ok s'" using chainD(4) [OF c] unfolding lowners_ok_def own by (simp add: s' l_set_def)
    show "heap_ok s'" using chainD(5) [OF c] by (simp add: heap_ok_def s' l_set_def)
    show "blocks_ok s'"
      by (rule blocks_ok_keep [OF chainD(6) [OF c]]) (simp_all add: own, simp_all add: s' l_set_def)
  qed
  show d: "duties_of s' j = duties_of s j" for j by (simp add: duties_of_def s' l_set_def)
  show "l_guar i s s'"
  proof (rule l_guarI)
    show "ls_msg (l_slot s' k) = ls_msg (l_slot s k)" for k by (simp add: l_slot_def s' l_set_def)
  qed (simp_all add: own closed d, simp_all add: s' l_set_def)
qed

section \<open>The head moves\<close>

lemma reserve_head:
  assumes c: "chain s" and own: "ly_own s i = None" and gap: "ly_hgap s = None"
    and b: "nth_block s b (ly_taken s div 31)" and lt: "ly_taken s < l_sent s"
    and mk: "mk \<Longrightarrow> 31 * Suc (ly_taken s div 31) \<le> l_sent s"
    and eq: "l_head s' = (l_head s)\<lparr>po_index := iw (Suc (lidx (ly_taken s))) mk\<rparr>"
      "ly_taken s' = Suc (ly_taken s)" "ly_own s' = (ly_own s)(i := Some (False, ly_taken s))"
      "ly_hgap s' = (if ly_taken s mod 31 = 30 then Some i else None)"
      "ly_log s' = ly_log s" "ly_blocks s' = ly_blocks s" "ly_tgap s' = ly_tgap s" "ly_first s' = ly_first s"
      "ly_box s' = ly_box s" "ly_baton s' = ly_baton s" "l_tail s' = l_tail s" "l_heap s' = l_heap s"
      "lc_fresh (ly_chan s') = lc_fresh (ly_chan s)"
    and nonnull: "po_block (l_head s) \<noteq> None"
  shows "chain s'" "l_guar i s s'" "l_closed s' = l_closed s"
    "duties_of s' i = (duties_of s i)\<lparr>du_slot := True, du_head := (ly_taken s mod 31 = 30)\<rparr>"
proof -
  note T = tail_okD [OF chainD(2) [OF c]] and H = head_okD [OF chainD(3) [OF c]] and O = chainD(4) [OF c]
  let ?H = "ly_taken s"
  obtain b' where hd: "po_block (l_head s) = Some b'" using nonnull by auto
  have first: "ly_first s = None" using H(7) hd by (cases "ly_first s") simp_all
  have busy: "l_busy s' e l \<longleftrightarrow> \<not> e \<and> l = ?H \<or> l_busy s e l" for e l
    using busy_take [OF own eq(3)] by auto
  have same: "written s' = written s" "finished s' = finished s" "linked s' = linked s"
    by (auto simp: written_def finished_def linked_def busy eq(2,5,7) fun_eq_iff less_Suc_eq)
  show closed: "l_closed s' = l_closed s" by (simp add: list_is_shutdown_def eq(11))
  show "chain s'"
  proof (rule chainI)
    show "few s'" using chainD(1) [OF c] by (simp add: few_def eq)
    show "tail_ok s'" using T unfolding tail_ok_def closed by (simp add: eq)
    have gap': "(ly_hgap s' \<noteq> None) = (?H mod 31 = 30)" by (simp add: eq(4))
    have "mk \<longrightarrow> ?H mod 31 \<noteq> 30 \<longrightarrow> 31 * Suc (Suc ?H div 31) \<le> l_sent s"
      using mk by (simp add: div_Suc_31)
    moreover have "l_sent s mod 31 = 0" if "ly_tgap s \<noteq> None" using T(1) that by (simp add: gap_ok_def)
    then have "Suc ?H = l_sent s \<longrightarrow> ly_tgap s \<noteq> None \<longrightarrow> ?H mod 31 = 30"
      using Suc_mod_31 [of ?H] by metis
    moreover have "?H mod 31 \<noteq> 30 \<longrightarrow> Suc ?H div 31 = ?H div 31" by (simp add: div_Suc_31)
    ultimately show "head_ok s'"
      unfolding head_ok_def gap' using place_Suc [of ?H] lt H(6) [OF hd gap] first hd
      by (auto simp: eq)
    show "lowners_ok s'"
    proof (rule lownersI)
      show "ly_own s' j = Some (True, k) \<Longrightarrow> k < l_sent s'" for j k
        using lownersD(1) [OF O, of j k] by (auto simp: eq split: if_splits)
      show "ly_own s' j = Some (False, k) \<Longrightarrow> k < ly_taken s'" for j k
        using lownersD(2) [OF O, of j k] by (auto simp: eq split: if_splits)
      show "ly_own s' j = Some x \<Longrightarrow> ly_own s' l = Some x \<Longrightarrow> j = l" for j l x
        using lownersD(3) [OF O, of j x l] lownersD(2) [OF O, of _ ?H] by (auto simp: eq split: if_splits)
      show "finished s' k \<Longrightarrow> written s' k" for k using lownersD(4) [OF O] by (simp add: same)
    qed
    show "heap_ok s'" using chainD(5) [OF c] by (simp add: heap_ok_def eq)
    show "blocks_ok s'"
      by (rule blocks_ok_keep [OF chainD(6) [OF c]]) (simp_all add: same eq(5,6,10,12))
  qed
  show "l_guar i s s'"
  proof (rule l_guarI)
    show "duties_of s' j = duties_of s j" if "j \<noteq> i" for j
      by (rule duties_keep) (use that gap in \<open>auto simp: eq\<close>)
    show "ls_msg (l_slot s' k) = ls_msg (l_slot s k)" for k by (simp add: l_slot_def eq)
  qed (use gap in \<open>simp_all add: same closed\<close>, simp_all add: eq)
  show "duties_of s' i = (duties_of s i)\<lparr>du_slot := True, du_head := (?H mod 31 = 30)\<rparr>"
    using gap by (auto simp: duties_of_def eq)
qed

text \<open>The block after the head's becomes that of the head.\<close>

lemma advance_block:
  assumes c: "chain s" and gap: "ly_hgap s = Some i"
    and s': "s' = l_set ((ly_chan s)\<lparr>lc_head := (l_head s)\<lparr>po_block := Some b\<rparr>\<rparr>) s"
  shows "chain s'" "l_guar i s s'" "duties_of s' i = duties_of s i"
proof -
  note H = head_okD [OF chainD(3) [OF c]]
  have same: "written s' = written s" "finished s' = finished s" "linked s' = linked s"
    by (simp_all add: written_def finished_def linked_def l_busy_def s' l_set_def fun_eq_iff)
  have "0 < ly_taken s" using H(2) gap by (simp add: gap_ok_def)
  then have "ly_first s = None" using H(5,7) by fastforce
  show "chain s'"
  proof (rule chainI)
    show "few s'" "tail_ok s'" using chainD(1,2) [OF c]
      by (simp_all add: few_def tail_ok_def s' l_set_def)
    show "head_ok s'" using H gap \<open>ly_first s = None\<close> by (auto simp: head_ok_def s' l_set_def)
    show "lowners_ok s'" using chainD(4) [OF c] unfolding lowners_ok_def same by (simp add: s' l_set_def)
    show "heap_ok s'" using chainD(5) [OF c] by (simp add: heap_ok_def s' l_set_def)
    show "blocks_ok s'"
      by (rule blocks_ok_keep [OF chainD(6) [OF c]]) (simp_all add: same, simp_all add: s' l_set_def)
  qed
  show d: "duties_of s' j = duties_of s j" for j by (simp add: duties_of_def s' l_set_def)
  show "l_guar i s s'"
  proof (rule l_guarI)
    show "ls_msg (l_slot s' k) = ls_msg (l_slot s k)" for k by (simp add: l_slot_def s' l_set_def)
  qed (use gap in \<open>simp_all add: same d\<close>, simp_all add: s' l_set_def)
qed

text \<open>The head enters the next block.\<close>

lemma enter_head:
  assumes c: "chain s" and gap: "ly_hgap s = Some i" and n: "ly_taken s = 31 * Suc n" "linked s n"
    and hd: "po_block (l_head s) = Some (ly_blocks s ! Suc n)"
    and mk: "mk \<Longrightarrow> 31 * Suc (ly_taken s div 31) \<le> l_sent s"
    and s': "s' = s\<lparr>ly_chan := (ly_chan s)\<lparr>lc_head := (l_head s)\<lparr>po_index := lw (ly_taken s) mk\<rparr>\<rparr>, ly_hgap := None\<rparr>"
  shows "chain s'" "l_guar i s s'" "duties_of s' i = (duties_of s i)\<lparr>du_head := False\<rparr>"
proof -
  note H = head_okD [OF chainD(3) [OF c]]
  have same: "written s' = written s" "finished s' = finished s" "linked s' = linked s"
    by (simp_all add: written_def finished_def linked_def l_busy_def s' fun_eq_iff)
  have bl: "ly_blocks s \<noteq> []" using linked_block [OF chainD(2) [OF c] n(2)] by auto
  have tg: "ly_taken s = l_sent s \<Longrightarrow> ly_tgap s = None" using n by (auto simp: linked_def)
  have div: "ly_taken s div 31 = Suc n" using n(1) by (simp only: nonzero_mult_div_cancel_left)
  show "chain s'"
  proof (rule chainI)
    show "few s'" "tail_ok s'" using chainD(1,2) [OF c]
      by (simp_all add: few_def tail_ok_def s')
    have "ly_first s = None" using H(7) hd by (cases "ly_first s") simp_all
    then show "head_ok s'" using H(1) mk hd bl tg div n(1) by (auto simp: head_ok_def s')
    show "lowners_ok s'" using chainD(4) [OF c] unfolding lowners_ok_def same by (simp add: s')
    show "heap_ok s'" using chainD(5) [OF c] by (simp add: heap_ok_def s')
    show "blocks_ok s'"
      by (rule blocks_ok_keep [OF chainD(6) [OF c]]) (simp_all add: same, simp_all add: s')
  qed
  show "l_guar i s s'"
  proof (rule l_guarI)
    show "duties_of s' j = duties_of s j" if "j \<noteq> i" for j
      by (rule duties_keep) (use that gap in \<open>auto simp: s'\<close>)
    show "ls_msg (l_slot s' k) = ls_msg (l_slot s k)" for k by (simp add: l_slot_def s')
  qed (use gap in \<open>simp_all add: same\<close>, simp_all add: s')
  show "duties_of s' i = (duties_of s i)\<lparr>du_head := False\<rparr>" by (simp add: duties_of_def s')
qed

section \<open>A block changes\<close>

text \<open>A step of thread \<open>i\<close> on block \<open>b\<close>, its baton and the slot of the thread.\<close>

definition only_block :: "nat \<Rightarrow> nat \<Rightarrow> ('q, 't, 'm) lsys \<Rightarrow> ('q, 't, 'm) lsys \<Rightarrow> bool" where
  "only_block i b s s' \<longleftrightarrow>
     ly_log s' = ly_log s \<and> ly_taken s' = ly_taken s \<and> ly_blocks s' = ly_blocks s \<and> ly_tgap s' = ly_tgap s
     \<and> ly_hgap s' = ly_hgap s \<and> ly_first s' = ly_first s \<and> ly_box s' = ly_box s \<and> l_tail s' = l_tail s
     \<and> l_head s' = l_head s \<and> lc_fresh (ly_chan s') = lc_fresh (ly_chan s)
     \<and> (\<forall>j. j \<noteq> i \<longrightarrow> ly_own s' j = ly_own s j)
     \<and> (\<forall>a. a \<noteq> b \<longrightarrow> l_heap s' a = l_heap s a \<and> ly_baton s' a = ly_baton s a)"

lemma only_blockD:
  assumes "only_block i b s s'"
  shows "ly_log s' = ly_log s" "ly_taken s' = ly_taken s" "ly_blocks s' = ly_blocks s" "ly_tgap s' = ly_tgap s"
    "ly_hgap s' = ly_hgap s" "ly_first s' = ly_first s" "ly_box s' = ly_box s" "l_tail s' = l_tail s"
    "l_head s' = l_head s" "lc_fresh (ly_chan s') = lc_fresh (ly_chan s)" "j \<noteq> i \<Longrightarrow> ly_own s' j = ly_own s j"
    "a \<noteq> b \<Longrightarrow> l_heap s' a = l_heap s a" "a \<noteq> b \<Longrightarrow> ly_baton s' a = ly_baton s a"
    "l_closed s' = l_closed s" "linked s' = linked s" "nth_block s' = nth_block s"
  using assms by (simp_all add: only_block_def list_is_shutdown_def linked_def nth_block_def fun_eq_iff)

lemma change_block:
  assumes c: "chain s" and n: "nth_block s b n" and live: "l_heap s b = Some bl" "ly_baton s b \<noteq> Gone"
    and only: "only_block i b s s'" and new: "l_heap s' b = Some bl'" "ly_baton s' b = bt'"
    and o': "lowners_ok s'" and bt: "bt' \<noteq> Gone" "baton_ok s' n bt'" and ok: "block_ok s' n bl'"
    and w: "\<And>k. k div 31 \<noteq> n \<Longrightarrow> written s' k = written s k" "\<And>k. written s k \<Longrightarrow> written s' k"
    and f: "\<And>k. k div 31 \<noteq> n \<Longrightarrow> finished s' k = finished s k" "\<And>k. finished s k \<Longrightarrow> finished s' k"
    and held: "\<And>j. j \<noteq> i \<Longrightarrow> bt' = Held j \<longleftrightarrow> ly_baton s b = Held j"
    and msg: "\<And>j k. j \<noteq> i \<Longrightarrow> ly_own s j = Some (True, k) \<Longrightarrow> k div 31 = n
      \<Longrightarrow> ls_msg (bl_slots bl' ! (k mod 31)) = ls_msg (bl_slots bl ! (k mod 31))"
  shows "chain s'" "l_guar i s s'"
proof -
  note eq = only_blockD [OF only]
  note T = tail_okD [OF chainD(2) [OF c]] and H = head_okD [OF chainD(3) [OF c]]
    and P = heap_okD [OF chainD(5) [OF c]]
  have b: "n < length (ly_blocks s)" "b = ly_blocks s ! n" using n by (simp_all add: nth_block_def)
  then have inb: "b \<in> set (ly_blocks s)" by simp
  have inj: "ly_blocks s ! m = b \<longleftrightarrow> m = n" if "m < length (ly_blocks s)" for m
    using blocks_inj [OF c that b(1)] b(2) by simp
  show "chain s'"
  proof (rule chainI)
    show "few s'" using chainD(1) [OF c] by (simp add: few_def eq)
    show "tail_ok s'" using chainD(2) [OF c] by (simp add: tail_ok_def eq)
    show "head_ok s'" using chainD(3) [OF c] by (simp add: head_ok_def eq)
    show "heap_ok s'"
    proof (rule heap_okI)
      show "ly_box s' a = Some j \<Longrightarrow> l_heap s' a = Some block_new" for a j
        using P(5) [of a j] P(3) [OF inb] by (cases "a = b") (simp_all add: eq)
      show "l_heap s' a = Some x \<Longrightarrow> ly_box s' a = None \<Longrightarrow> a \<in> set (ly_blocks s') \<and> ly_baton s' a \<noteq> Gone" for a x
        using P(6) [of a x] inb bt(1) by (cases "a = b") (simp_all add: eq new)
      show "a \<notin> set (ly_blocks s') \<Longrightarrow> ly_baton s' a = Whole" for a
        using P(7) [of a] inb by (cases "a = b") (simp_all add: eq)
    qed (use P(1-4) in \<open>simp_all add: eq\<close>)
    have "baton_ok s' m (ly_baton s' (ly_blocks s' ! m)) \<and> (ly_baton s' (ly_blocks s' ! m) \<noteq> Gone \<longrightarrow>
        (\<exists>x. l_heap s' (ly_blocks s' ! m) = Some x \<and> block_ok s' m x))" if m: "m < length (ly_blocks s)" for m
    proof (cases "m = n")
      case True
      with b have "ly_blocks s' ! m = b" by (simp add: eq(3))
      with bt ok new True show ?thesis by simp
    next
      case False
      note B = chainD(6) [OF c, unfolded blocks_ok_def, rule_format, OF m]
      have ne: "ly_blocks s ! m \<noteq> b" using inj [OF m] False by simp
      have d: "(31 * m + j) div 31 \<noteq> n" if "j < 31" for j using that False by simp
      have "block_ok s m x \<Longrightarrow> block_ok s' m x" for x
        by (erule block_ok_keep) (use w(1) [OF d] f(1) [OF d] ne in \<open>simp_all add: eq\<close>)
      moreover have "baton_ok s m bt \<Longrightarrow> baton_ok s' m bt" for bt
        by (erule baton_ok_keep) (rule f(1) [OF d])
      ultimately show ?thesis using B eq(12,13) [OF ne] by (auto simp: eq(3))
    qed
    then show "blocks_ok s'" by (simp add: blocks_ok_def eq)
  qed (rule o')
  show "l_guar i s s'"
  proof (rule l_guarI)
    show "duties_of s' j = duties_of s j" if "j \<noteq> i" for j
    proof (rule duties_keep)
      show "ly_baton s' a = Held j \<longleftrightarrow> ly_baton s a = Held j" for a
        using held [OF that] by (cases "a = b") (simp_all add: eq new)
    qed (use that in \<open>simp_all add: eq\<close>)
    show "ls_msg (l_slot s' k) = ls_msg (l_slot s k)" if j: "j \<noteq> i" "ly_own s j = Some (True, k)" for j k
    proof -
      have "k div 31 < length (ly_blocks s)" using sent_block [OF chainD(2) [OF c] owned_sent [OF c j(2)]] .
      then show ?thesis using inj [of "k div 31"] msg [OF j] live(1)
        by (cases "k div 31 = n") (simp_all add: l_slot_def eq new)
    qed
  qed (use w(2) f(2) in simp_all, simp_all add: eq)
qed

text \<open>A thread changes the slot of its message, and releases it or not.\<close>

lemma change_slot:
  assumes c: "chain s" and own: "ly_own s i = Some (d, k)" and n: "nth_block s b (k div 31)"
    and live: "l_heap s b = Some bl" "ly_baton s b \<noteq> Gone" "block_ok s (k div 31) bl"
    and only: "only_block i b s s'" and new: "ly_baton s' b = bt'"
      "l_heap s' b = Some (bl\<lparr>bl_slots := (bl_slots bl)[k mod 31 := sl]\<rparr>)"
    and o': "lowners_ok s'" and bt: "bt' \<noteq> Gone" "baton_ok s' (k div 31) bt'" and ok: "slot_ok s' bt' k sl"
    and w: "\<And>l. l \<noteq> k \<Longrightarrow> written s' l = written s l" "written s k \<Longrightarrow> written s' k"
    and f: "\<And>l. l \<noteq> k \<Longrightarrow> finished s' l = finished s l"
    and held: "\<And>j. j \<noteq> i \<Longrightarrow> bt' = Held j \<longleftrightarrow> ly_baton s b = Held j"
    and left: "\<And>l. l \<noteq> k mod 31 \<Longrightarrow> bt' = Left l \<longleftrightarrow> ly_baton s b = Left l"
    and msg: "d \<or> ls_msg sl = ls_msg (bl_slots bl ! (k mod 31))"
  shows "chain s'" "l_guar i s s'" "l_slot s' k = sl"
proof -
  note eq = only_blockD [OF only]
  let ?n = "k div 31" and ?bl = "bl\<lparr>bl_slots := (bl_slots bl)[k mod 31 := sl]\<rparr>"
  have b: "b = ly_blocks s ! ?n" using n by (simp add: nth_block_def)
  have len: "length (bl_slots bl) = 31" using live(3) by (simp add: block_ok_def)
  have f2: "finished s l \<Longrightarrow> finished s' l" for l
    using f [of l] owned_unfinished [OF c own] by (cases "l = k") auto
  have w2: "written s l \<Longrightarrow> written s' l" for l using w by (cases "l = k") auto
  have "slot_ok s' bt' (31 * ?n + j) (bl_slots ?bl ! j)" if j: "j < 31" for j
  proof (cases "j = k mod 31")
    case True
    with ok len show ?thesis by simp
  next
    case False
    then have ne: "31 * ?n + j \<noteq> k" using j by (metis mod_less mod_mult_self4)
    have "slot_ok s (ly_baton s b) (31 * ?n + j) (bl_slots bl ! j)"
      using live(3) j b by (simp add: block_ok_def)
    then have "slot_ok s' bt' (31 * ?n + j) (bl_slots bl ! j)"
      by (rule slot_ok_keep) (use w(1) [OF ne] f [OF ne] left [OF False] j in \<open>simp_all add: eq\<close>)
    with False show ?thesis by simp
  qed
  then have ok': "block_ok s' ?n ?bl"
    using live(3) new(1) by (simp add: block_ok_def eq b)
  have div: "l div 31 \<noteq> ?n \<Longrightarrow> l \<noteq> k" for l by auto
  have msg': "ls_msg (bl_slots ?bl ! (l mod 31)) = ls_msg (bl_slots bl ! (l mod 31))"
    if j: "j \<noteq> i" "ly_own s j = Some (True, l)" "l div 31 = ?n" for j l
  proof (cases "l mod 31 = k mod 31")
    case True
    with j(3) have "l = k" by (metis mult_div_mod_eq)
    with j own have "\<not> d" using lownersD(3) [OF chainD(4) [OF c] own, of j] by auto
    with msg True len show ?thesis by simp
  next
    case False
    then show ?thesis by simp
  qed
  note B = change_block [OF c n live(1,2) only new(2,1) o' bt ok' w(1) [OF div] w2 f [OF div] f2 held msg']
  show "chain s'" by (rule B(1); assumption)
  show "l_guar i s s'" by (rule B(2); assumption)
  show "l_slot s' k = sl" using len b new by (simp add: l_slot_def eq)
qed

text \<open>The block that a thread reads from or writes to.\<close>

lemma own_block:
  assumes c: "chain s" and h: "has_lslot s i d b j k"
  obtains bl where "ly_own s i = Some (d, k)" "nth_block s b (k div 31)" "j = k mod 31"
    "l_heap s b = Some bl" "ly_baton s b \<noteq> Gone" "block_ok s (k div 31) bl" "j < length (bl_slots bl)"
    "slot_ok s (ly_baton s b) k (bl_slots bl ! j)" "l_slot s k = bl_slots bl ! j"
proof -
  have o: "ly_own s i = Some (d, k)" and n: "nth_block s b (k div 31)" and j: "j = k mod 31"
    using h by (simp_all add: has_lslot_def)
  then have b: "b = ly_blocks s ! (k div 31)" by (simp add: nth_block_def)
  obtain bl where bl: "l_heap s b = Some bl" "block_ok s (k div 31) bl" "ly_baton s b \<noteq> Gone"
    using owned_block [OF c o] b by metis
  have "l_slot s k = bl_slots bl ! j" using bl(1) b j by (simp add: l_slot_def)
  with that [OF o n j bl(1) bl(3) bl(2)] block_slot [OF bl(2)] b j show thesis by simp
qed

text \<open>The next pointer of a full block is stored.\<close>

lemma link_next:
  assumes c: "chain s" and h: "has_lslot s i True b 30 k" and l: "linked s (k div 31)"
    and new: "nth_block s new (Suc (k div 31))" and bl: "l_heap s b = Some bl"
    and s': "s' = l_set (set_block (Some b) (bl\<lparr>bl_next := Some new\<rparr>) (ly_chan s)) s"
  shows "chain s'" "l_guar i s s'" "duties_of s' i = duties_of s i" "has_lslot s' = has_lslot s" "ly_log s' = ly_log s"
    "l_closed s' = l_closed s"
proof -
  obtain x where o: "ly_own s i = Some (True, k)" "nth_block s b (k div 31)"
    "l_heap s b = Some x" "ly_baton s b \<noteq> Gone" "block_ok s (k div 31) x"
    using own_block [OF c h] by metis
  with bl have ok: "block_ok s (k div 31) bl" by simp
  have own: "written s' = written s" "finished s' = finished s" "linked s' = linked s"
    by (simp_all add: written_def finished_def linked_def l_busy_def s' l_set_def set_block_def fun_eq_iff)
  have "slot_ok s' bt q sl = slot_ok s bt q sl" for bt q sl
    by (simp add: slot_ok_def own, simp add: s' l_set_def set_block_def)
  with ok l new have ok': "block_ok s' (k div 31) (bl\<lparr>bl_next := Some new\<rparr>)"
    unfolding block_ok_def own by (simp add: s' l_set_def set_block_def nth_block_def)
  have only: "only_block i b s s'" and eq: "l_heap s' b = Some (bl\<lparr>bl_next := Some new\<rparr>)" "ly_baton s' b = ly_baton s b"
    by (simp_all add: only_block_def s' l_set_def set_block_def)
  have bt: "baton_ok s' (k div 31) (ly_baton s b)"
    using chainD(6) [OF c] o(2) baton_ok_keep [of s "k div 31" "ly_baton s b" s']
    by (simp add: blocks_ok_def nth_block_def own)
  have lo: "lowners_ok s'" using chainD(4) [OF c] unfolding lowners_ok_def own by (simp add: s' l_set_def)
  note B = change_block [OF c o(2) bl o(4) only eq lo o(4) bt ok']
  show "chain s'" by (rule B(1)) (simp_all add: own)
  show "l_guar i s s'" by (rule B(2)) (simp_all add: own)
  show "l_closed s' = l_closed s" using only_blockD(14) [OF only] .
  show "duties_of s' i = duties_of s i" "has_lslot s' = has_lslot s" "ly_log s' = ly_log s"
    by (simp_all add: duties_of_def has_lslot_def nth_block_def fun_eq_iff s' l_set_def set_block_def)
qed

text \<open>Bit \<open>p\<close> of the state of a slot is set.\<close>

lemma slot_ok_or:
  assumes sl: "slot_ok s bt k sl" and flag: "\<And>n. bit flag n \<longleftrightarrow> n = (p :: nat)"
    and w: "written s' k \<longleftrightarrow> written s k \<or> p = 0"
    and f: "finished s' k \<and> k mod 31 \<noteq> 30 \<longleftrightarrow> finished s k \<and> k mod 31 \<noteq> 30 \<or> p = 1"
    and bt: "\<not> bit (ls_state sl) 1 \<Longrightarrow> p \<noteq> 1 \<Longrightarrow>
      bt' = Left (k mod 31) \<longleftrightarrow> bt = Left (k mod 31) \<or> p = 2"
    and msg: "written s' k \<Longrightarrow> ls_msg sl = Some (ly_log s' ! k)"
  shows "slot_ok s' bt' k (sl\<lparr>ls_state := ls_state sl OR flag\<rparr>)"
proof -
  have b: "bit (ls_state sl OR flag) n \<longleftrightarrow> bit (ls_state sl) n \<or> p = n" for n
    using flag by (auto simp: bit_or_iff)
  have S: "bit (ls_state sl) 0 \<longleftrightarrow> written s k" "bit (ls_state sl) 1 \<longleftrightarrow> finished s k \<and> k mod 31 \<noteq> 30"
    "\<not> bit (ls_state sl) 1 \<Longrightarrow> bit (ls_state sl) 2 \<longleftrightarrow> bt = Left (k mod 31)"
    using sl unfolding slot_ok_def by blast+
  have "bit (ls_state sl) 0 \<or> p = 0 \<longleftrightarrow> written s' k" using S(1) w by blast
  moreover have "bit (ls_state sl) 1 \<or> p = 1 \<longleftrightarrow> finished s' k \<and> k mod 31 \<noteq> 30" using S(2) f by blast
  moreover have "\<not> (bit (ls_state sl) 1 \<or> p = 1) \<longrightarrow> (bit (ls_state sl) 2 \<or> p = 2 \<longleftrightarrow> bt' = Left (k mod 31))"
    using S(3) bt by blast
  ultimately show ?thesis using msg unfolding slot_ok_def by (simp add: b)
qed

text \<open>\<open>write\<close> stores the message.\<close>

lemma write_message:
  assumes c: "chain s" and h: "has_lslot s i True b j k" and m: "ly_log s ! k = m"
    and bl: "l_heap s b = Some bl"
    and s': "s' = l_set (set_block (Some b)
      (bl\<lparr>bl_slots := (bl_slots bl)[j := (bl_slots bl ! j)\<lparr>ls_msg := Some m\<rparr>]\<rparr>) (ly_chan s)) s"
  shows "chain s'" "l_guar i s s'" "duties_of s' i = duties_of s i" "has_lslot s' i True b j k"
    "ls_msg (l_slot s' k) = Some (ly_log s' ! k)" "ly_log s' = ly_log s" "l_closed s' = l_closed s"
proof -
  obtain x where o: "ly_own s i = Some (True, k)" "nth_block s b (k div 31)" "j = k mod 31"
    "l_heap s b = Some x" "ly_baton s b \<noteq> Gone" "block_ok s (k div 31) x"
    "slot_ok s (ly_baton s b) k (bl_slots x ! j)"
    using own_block [OF c h] by metis
  have x: "x = bl" using bl o(4) by simp
  have own: "written s' = written s" "finished s' = finished s"
    by (simp_all add: written_def finished_def l_busy_def s' l_set_def set_block_def fun_eq_iff)
  have unw: "\<not> written s k" using o(1) by (auto simp: written_def l_busy_def)
  have only: "only_block i b s s'" and eq: "ly_baton s' b = ly_baton s b"
    "l_heap s' b = Some (bl\<lparr>bl_slots := (bl_slots bl)[k mod 31 := (bl_slots bl ! j)\<lparr>ls_msg := Some m\<rparr>]\<rparr>)"
    by (simp_all add: only_block_def s' l_set_def set_block_def o(3))
  have bt: "baton_ok s' (k div 31) (ly_baton s b)"
    using chainD(6) [OF c] o(2) baton_ok_keep [of s "k div 31" "ly_baton s b" s']
    by (simp add: blocks_ok_def nth_block_def own)
  have lo: "lowners_ok s'" using chainD(4) [OF c] unfolding lowners_ok_def own by (simp add: s' l_set_def)
  have ok: "slot_ok s' (ly_baton s b) k ((bl_slots bl ! j)\<lparr>ls_msg := Some m\<rparr>)"
    using o(7) unw by (simp add: slot_ok_def own x)
  note B = change_slot [OF c o(1,2) bl o(5) o(6) [unfolded x] only eq lo o(5) bt ok]
  show "chain s'" by (rule B(1)) (simp_all add: own)
  show "l_guar i s s'" by (rule B(2)) (simp_all add: own)
  show "l_closed s' = l_closed s" using only_blockD(14) [OF only] .
  have "l_slot s' k = (bl_slots bl ! j)\<lparr>ls_msg := Some m\<rparr>" by (rule B(3)) (simp_all add: own)
  then show "ls_msg (l_slot s' k) = Some (ly_log s' ! k)" using m by (simp add: s' l_set_def)
  show "duties_of s' i = duties_of s i" "has_lslot s' i True b j k" "ly_log s' = ly_log s"
    using h by (simp_all add: duties_of_def has_lslot_def nth_block_def s' l_set_def set_block_def)
qed

section \<open>A slot is released\<close>

text \<open>\<open>write\<close> sets \<open>WRITE\<close>.\<close>

lemma publish:
  assumes c: "chain s" and h: "has_lslot s i True b j k" and m: "ls_msg (l_slot s k) = Some (ly_log s ! k)"
    and bl: "l_heap s b = Some bl"
    and s': "s' = l_own i None (l_set (set_block (Some b) (bl\<lparr>bl_slots :=
      (bl_slots bl)[j := (bl_slots bl ! j)\<lparr>ls_state := ls_state (bl_slots bl ! j) OR WRITE\<rparr>]\<rparr>) (ly_chan s)) s)"
  shows "chain s'" "l_guar i s s'" "duties_of s' i = (duties_of s i)\<lparr>du_slot := False\<rparr>" "l_closed s' = l_closed s"
proof -
  obtain x where o: "ly_own s i = Some (True, k)" "nth_block s b (k div 31)" "j = k mod 31"
    "l_heap s b = Some x" "ly_baton s b \<noteq> Gone" "block_ok s (k div 31) x"
    "slot_ok s (ly_baton s b) k (bl_slots x ! j)" "l_slot s k = bl_slots x ! j"
    using own_block [OF c h] by metis
  have x: "x = bl" using bl o(4) by simp
  have eqs: "ly_own s' = (ly_own s)(i := None)" "l_sent s' = l_sent s" "ly_taken s' = ly_taken s" "ly_log s' = ly_log s"
    by (simp_all add: s' l_own_def l_set_def)
  note R = release_owners [OF chainD(4) [OF c] o(1) eqs(1-3), simplified]
  have only: "only_block i b s s'" and eq: "ly_baton s' b = ly_baton s b"
    "l_heap s' b = Some (bl\<lparr>bl_slots := (bl_slots bl)[k mod 31 :=
      (bl_slots bl ! j)\<lparr>ls_state := ls_state (bl_slots bl ! j) OR WRITE\<rparr>]\<rparr>)"
    by (simp_all add: only_block_def s' l_own_def l_set_def set_block_def o(3))
  have bt: "baton_ok s' (k div 31) (ly_baton s b)"
    using chainD(6) [OF c] o(2) baton_ok_keep [of s "k div 31" "ly_baton s b" s']
    by (simp add: blocks_ok_def nth_block_def R(3))
  have ok: "slot_ok s' (ly_baton s b) k ((bl_slots bl ! j)\<lparr>ls_state := ls_state (bl_slots bl ! j) OR WRITE\<rparr>)"
    by (rule slot_ok_or [OF o(7) [unfolded x], where p = 0])
      (use m o(8) x in \<open>simp_all add: flag_bits R(2,3) eqs(4)\<close>)
  note B = change_slot [OF c o(1,2) bl o(5) o(6) [unfolded x] only eq R(1) o(5) bt ok]
  show "chain s'" by (rule B(1)) (simp_all add: R(2,3))
  show "l_guar i s s'" by (rule B(2)) (simp_all add: R(2,3))
  show "l_closed s' = l_closed s" using only_blockD(14) [OF only] .
  show "duties_of s' i = (duties_of s i)\<lparr>du_slot := False\<rparr>"
    by (simp add: duties_of_def s' l_own_def l_set_def set_block_def)
qed

text \<open>The message of the last slot is read: the reader is to destroy the block.\<close>

lemma read_last:
  assumes c: "chain s" and h: "has_lslot s i False b 30 k" and w: "written s k"
    and s': "s' = l_own i None (l_baton b (Held i) s)"
  shows "chain s'" "l_guar i s s'" "l_closed s' = l_closed s" "nth_block s' b (k div 31)"
    "duties_of s' i = (duties_of s i)\<lparr>du_slot := False, du_blocks := insert b (du_blocks (duties_of s i))\<rparr>"
proof -
  obtain bl where o: "ly_own s i = Some (False, k)" "nth_block s b (k div 31)" "30 = k mod 31"
    "l_heap s b = Some bl" "ly_baton s b \<noteq> Gone" "block_ok s (k div 31) bl"
    "slot_ok s (ly_baton s b) k (bl_slots bl ! 30)"
    using own_block [OF c h] by metis
  have k: "31 * (k div 31) + 30 = k" using o(3) div_mod_decomp [of k 31] by simp
  have eqs: "ly_own s' = (ly_own s)(i := None)" "l_sent s' = l_sent s" "ly_taken s' = ly_taken s" "ly_log s' = ly_log s"
    by (simp_all add: s' l_own_def l_baton_def)
  note R = release_owners [OF chainD(4) [OF c] o(1) eqs(1-3), simplified, OF w]
  have "baton_ok s (k div 31) (ly_baton s b)"
    using chainD(6) [OF c] o(2) by (simp add: blocks_ok_def nth_block_def)
  then have whole: "ly_baton s b = Whole"
    using owned_unfinished [OF c o(1)] o(5) k by (cases "ly_baton s b") auto
  have only: "only_block i b s s'" and eq: "ly_baton s' b = Held i"
    "l_heap s' b = Some (bl\<lparr>bl_slots := (bl_slots bl)[k mod 31 := bl_slots bl ! (k mod 31)]\<rparr>)"
    using o(4) by (simp_all add: only_block_def s' l_own_def l_baton_def)
  have bt: "baton_ok s' (k div 31) (Held i)" by (simp add: R(3) k)
  have ok: "slot_ok s' (Held i) k (bl_slots bl ! (k mod 31))"
    using o(7) o(3) whole by (simp add: slot_ok_def R(2,3) eqs(4))
  note B = change_slot [OF c o(1,2,4,5,6) only eq R(1) _ bt ok]
  show "chain s'" by (rule B(1)) (use whole in \<open>simp_all add: R(2,3)\<close>)
  show "l_guar i s s'" by (rule B(2)) (use whole in \<open>simp_all add: R(2,3)\<close>)
  show "l_closed s' = l_closed s" "nth_block s' b (k div 31)" using only_blockD(14,16) [OF only] o(2) by simp_all
  show "duties_of s' i = (duties_of s i)\<lparr>du_slot := False, du_blocks := insert b (du_blocks (duties_of s i))\<rparr>"
    by (auto simp: duties_of_def s' l_own_def l_baton_def)
qed

text \<open>
  \<open>read\<close> sets \<open>READ\<close>: when \<open>DESTROY\<close> was set, all slots before are read, and the thread is to
  go on with the destruction.
\<close>

lemma mark_read:
  assumes c: "chain s" and h: "has_lslot s i False b j k" and w: "written s k" and last: "j \<noteq> 30"
    and bl: "l_heap s b = Some bl" and old: "old = ls_state (bl_slots bl ! j)"
    and s': "s' = l_own i None (l_baton b (if old AND DESTROY \<noteq> 0 then Held i else ly_baton s b)
      (l_set (set_block (Some b) (bl\<lparr>bl_slots :=
        (bl_slots bl)[j := (bl_slots bl ! j)\<lparr>ls_state := old OR READ\<rparr>]\<rparr>) (ly_chan s)) s))"
  shows "chain s'" "l_guar i s s'" "l_closed s' = l_closed s" "nth_block s' b (k div 31)"
    "old AND DESTROY \<noteq> 0 \<Longrightarrow> l < j + 1 \<Longrightarrow> finished s' (31 * (k div 31) + l)"
    "duties_of s' i = (duties_of s i)\<lparr>du_slot := False,
       du_blocks := (if old AND DESTROY \<noteq> 0 then insert b else id) (du_blocks (duties_of s i))\<rparr>"
proof -
  obtain x where o: "ly_own s i = Some (False, k)" "nth_block s b (k div 31)" "j = k mod 31"
    "l_heap s b = Some x" "ly_baton s b \<noteq> Gone" "block_ok s (k div 31) x"
    "slot_ok s (ly_baton s b) k (bl_slots x ! j)" "l_slot s k = bl_slots x ! j"
    using own_block [OF c h] by metis
  have x: "x = bl" using bl o(4) by simp
  let ?bt = "if old AND DESTROY \<noteq> 0 then Held i else ly_baton s b"
  have eqs: "ly_own s' = (ly_own s)(i := None)" "l_sent s' = l_sent s" "ly_taken s' = ly_taken s" "ly_log s' = ly_log s"
    by (simp_all add: s' l_own_def l_baton_def l_set_def)
  note R = release_owners [OF chainD(4) [OF c] o(1) eqs(1-3), simplified, OF w]
  have unf: "\<not> finished s k" using owned_unfinished [OF c o(1)] .
  then have nb: "\<not> bit old 1" using o(7) x old by (auto simp: slot_ok_def)
  with o(7) x old have dest: "old AND DESTROY \<noteq> 0 \<longleftrightarrow> ly_baton s b = Left j"
    by (simp add: slot_ok_def state_bits o(3))
  have bs: "baton_ok s (k div 31) (ly_baton s b)"
    using chainD(6) [OF c] o(2) by (simp add: blocks_ok_def nth_block_def)
  have k: "31 * (k div 31) + l = k \<longleftrightarrow> l = j" if "l < 31" for l
    using that o(3) mult_div_mod_eq [of 31 k] by (metis mod_less mod_mult_self4)
  have only: "only_block i b s s'" and eq: "ly_baton s' b = ?bt"
    "l_heap s' b = Some (bl\<lparr>bl_slots := (bl_slots bl)[k mod 31 := (bl_slots bl ! j)\<lparr>ls_state := old OR READ\<rparr>]\<rparr>)"
    by (simp_all add: only_block_def s' l_own_def l_baton_def l_set_def set_block_def o(3))
  have bt: "baton_ok s' (k div 31) ?bt"
  proof (cases "ly_baton s b")
    case (Left l)
    then show ?thesis using bs dest by (auto simp: R(3) k)
  qed (use bs dest o(5) last in \<open>auto simp: R(3) k\<close>)
  have ok: "slot_ok s' ?bt k ((bl_slots bl ! j)\<lparr>ls_state := old OR READ\<rparr>)"
    unfolding old
    by (rule slot_ok_or [OF o(7) [unfolded x], where p = 1])
      (use w o(7) x last o(3) in \<open>simp_all add: flag_bits R(2,3) eqs(4) slot_ok_def\<close>)
  have live: "?bt \<noteq> Gone" using o(5) by simp
  have held: "?bt = Held l \<longleftrightarrow> ly_baton s b = Held l" if "l \<noteq> i" for l using dest that by auto
  have left: "?bt = Left l \<longleftrightarrow> ly_baton s b = Left l" if "l \<noteq> k mod 31" for l
    using dest that by (auto simp: o(3))
  note B = change_slot [OF c o(1,2) bl o(5) o(6) [unfolded x] only eq R(1) live bt ok _ _ _ held left]
  show "chain s'" by (rule B(1)) (simp_all add: R(2,3) o(3))
  show "l_guar i s s'" by (rule B(2)) (simp_all add: R(2,3) o(3))
  show "l_closed s' = l_closed s" "nth_block s' b (k div 31)" using only_blockD(14,16) [OF only] o(2) by simp_all
  show "finished s' (31 * (k div 31) + l)" if "old AND DESTROY \<noteq> 0" "l < j + 1"
    using bs dest that o(3) by (cases "l = j") (auto simp: R(3))
  show "duties_of s' i = (duties_of s i)\<lparr>du_slot := False,
       du_blocks := (if old AND DESTROY \<noteq> 0 then insert b else id) (du_blocks (duties_of s i))\<rparr>"
    by (auto simp: duties_of_def s' l_own_def l_baton_def l_set_def set_block_def)
qed

section \<open>A block is destroyed\<close>

lemma held_block:
  assumes c: "chain s" and n: "nth_block s b n" and bt: "ly_baton s b = Held i"
  obtains bl where "l_heap s b = Some bl" "block_ok s n bl" "finished s (31 * n + 30)"
proof -
  have "n < length (ly_blocks s)" "b = ly_blocks s ! n" using n by (simp_all add: nth_block_def)
  with chainD(6) [OF c] bt that show thesis unfolding blocks_ok_def by fastforce
qed

text \<open>\<open>destroy\<close> sets \<open>DESTROY\<close>: when the slot is still being read, its reader takes over.\<close>

lemma set_destroy:
  assumes c: "chain s" and n: "nth_block s b n" and bt: "ly_baton s b = Held i" and j: "j < 30"
    and before: "\<And>l. l < j \<Longrightarrow> finished s (31 * n + l)"
    and bl: "l_heap s b = Some bl" and old: "old = ls_state (bl_slots bl ! j)"
    and s': "s' = l_baton b (if old AND READ = 0 then Left j else Held i)
      (l_set (set_block (Some b) (bl\<lparr>bl_slots :=
        (bl_slots bl)[j := (bl_slots bl ! j)\<lparr>ls_state := old OR DESTROY\<rparr>]\<rparr>) (ly_chan s)) s)"
  shows "chain s'" "l_guar i s s'" "l_closed s' = l_closed s" "nth_block s' = nth_block s" "finished s' = finished s"
    "old AND READ \<noteq> 0 \<Longrightarrow> finished s (31 * n + j)"
    "duties_of s' i = (duties_of s i)\<lparr>du_blocks := du_blocks (duties_of s i) - (if old AND READ = 0 then {b} else {})\<rparr>"
proof -
  let ?bt = "if old AND READ = 0 then Left j else Held i" and ?sl = "(bl_slots bl ! j)\<lparr>ls_state := old OR DESTROY\<rparr>"
  obtain x where x: "l_heap s b = Some x" "block_ok s n x" "finished s (31 * n + 30)"
    using held_block [OF c n bt] by metis
  with bl have ok: "block_ok s n bl" by simp
  have b: "b = ly_blocks s ! n" using n by (simp add: nth_block_def)
  have len: "length (bl_slots bl) = 31" using ok by (simp add: block_ok_def)
  have own: "written s' = written s" "finished s' = finished s"
    by (simp_all add: written_def finished_def l_busy_def s' l_set_def l_baton_def fun_eq_iff)
  show "finished s' = finished s" by (rule own(2))
  have sl: "slot_ok s (Held i) (31 * n + l) (bl_slots bl ! l)" if "l < 31" for l
    using ok that bt b by (simp add: block_ok_def)
  have fin: "old AND READ = 0 \<longleftrightarrow> \<not> finished s (31 * n + j)"
    using sl [of j] j by (simp add: slot_ok_def state_bits old)
  then show "old AND READ \<noteq> 0 \<Longrightarrow> finished s (31 * n + j)" by simp
  have only: "only_block i b s s'" and new: "l_heap s' b = Some (bl\<lparr>bl_slots := (bl_slots bl)[j := ?sl]\<rparr>)" "ly_baton s' b = ?bt"
    by (simp_all add: only_block_def s' l_baton_def l_set_def set_block_def)
  note eq = only_blockD [OF only]
  have slj: "slot_ok s' ?bt (31 * n + j) ?sl"
    unfolding old
    by (rule slot_ok_or [OF sl, where p = 2])
      (use sl [of j] j in \<open>auto simp: flag_bits own state_bits eq(1) slot_ok_def old [symmetric]\<close>)
  have "slot_ok s' ?bt (31 * n + l) ((bl_slots bl)[j := ?sl] ! l)" if l: "l < 31" for l
  proof (cases "l = j")
    case True
    with slj len j show ?thesis by simp
  next
    case False
    have "slot_ok s' ?bt (31 * n + l) (bl_slots bl ! l)"
      by (rule slot_ok_keep [OF sl [OF l]]) (use l False in \<open>simp_all add: own eq(1)\<close>)
    with False show ?thesis by simp
  qed
  then have ok': "block_ok s' n (bl\<lparr>bl_slots := (bl_slots bl)[j := ?sl]\<rparr>)"
    using ok new(2) by (simp add: block_ok_def eq b)
  have bt': "baton_ok s' n ?bt" using x(3) before j fin by (simp add: own)
  have lo: "lowners_ok s'"
    using chainD(4) [OF c] unfolding lowners_ok_def own by (simp add: s' l_baton_def l_set_def)
  have msg: "ls_msg ((bl_slots bl)[j := ?sl] ! l) = ls_msg (bl_slots bl ! l)" for l
    using len j by (cases "l = j") simp_all
  have live: "ly_baton s b \<noteq> Gone" "?bt \<noteq> Gone" using bt by simp_all
  note B = change_block [OF c n bl live(1) only new lo live(2) bt' ok']
  show "chain s'" by (rule B(1)) (use bt in \<open>auto simp: own msg\<close>)
  show "l_guar i s s'" by (rule B(2)) (use bt in \<open>auto simp: own msg\<close>)
  show "l_closed s' = l_closed s" "nth_block s' = nth_block s" by (rule eq(14), rule eq(16))
  show "duties_of s' i = (duties_of s i)\<lparr>du_blocks := du_blocks (duties_of s i) - (if old AND READ = 0 then {b} else {})\<rparr>"
    using bt by (auto simp: duties_of_def s' l_baton_def l_set_def set_block_def)
qed

text \<open>Nobody uses the block any more, and it is freed.\<close>

lemma free_block:
  assumes c: "chain s" and n: "nth_block s b n" and bt: "ly_baton s b = Held i"
    and before: "\<And>l. l < 30 \<Longrightarrow> finished s (31 * n + l)"
    and s': "s' = l_baton b Gone (l_set ((ly_chan s)\<lparr>lc_heap := (l_heap s)(b := None)\<rparr>) s)"
  shows "chain s'" "l_guar i s s'" "l_closed s' = l_closed s"
    "duties_of s' i = (duties_of s i)\<lparr>du_blocks := du_blocks (duties_of s i) - {b}\<rparr>"
proof -
  note P = heap_okD [OF chainD(5) [OF c]]
  obtain bl where x: "l_heap s b = Some bl" "block_ok s n bl" "finished s (31 * n + 30)"
    using held_block [OF c n bt] by metis
  have fin: "finished s (31 * n + j)" if "j < 31" for j
    using before [of j] x(3) that by (cases "j = 30") auto
  have b: "b = ly_blocks s ! n" "n < length (ly_blocks s)" using n by (simp_all add: nth_block_def)
  then have inb: "b \<in> set (ly_blocks s)" by simp
  have only: "only_block i b s s'" by (simp add: only_block_def s' l_baton_def l_set_def)
  note eq = only_blockD [OF only]
  have own: "written s' = written s" "finished s' = finished s"
    by (simp_all add: written_def finished_def l_busy_def s' l_set_def l_baton_def fun_eq_iff)
  have inj: "ly_blocks s ! m = b \<longleftrightarrow> m = n" if "m < length (ly_blocks s)" for m
    using blocks_inj [OF c that b(2)] b(1) by simp
  have new: "l_heap s' b = None" "ly_baton s' b = Gone" by (simp_all add: s' l_baton_def l_set_def)
  show "chain s'"
  proof (rule chainI)
    show "few s'" using chainD(1) [OF c] by (simp add: few_def eq)
    show "tail_ok s'" using chainD(2) [OF c] by (simp add: tail_ok_def eq)
    show "head_ok s'" using chainD(3) [OF c] by (simp add: head_ok_def eq)
    show "lowners_ok s'"
      using chainD(4) [OF c] unfolding lowners_ok_def own by (simp add: s' l_baton_def l_set_def)
    show "heap_ok s'"
    proof (rule heap_okI)
      show "ly_box s' a = Some j \<Longrightarrow> l_heap s' a = Some block_new" for a j
        using P(5) [of a j] P(3) [OF inb] by (cases "a = b") (simp_all add: eq)
      show "l_heap s' a = Some x \<Longrightarrow> ly_box s' a = None \<Longrightarrow> a \<in> set (ly_blocks s') \<and> ly_baton s' a \<noteq> Gone" for a x
        using P(6) [of a x] new by (cases "a = b") (simp_all add: eq)
      show "a \<notin> set (ly_blocks s') \<Longrightarrow> ly_baton s' a = Whole" for a
        using P(7) [of a] inb by (cases "a = b") (simp_all add: eq)
    qed (use P(1-4) in \<open>simp_all add: eq\<close>)
    have "baton_ok s' m (ly_baton s' (ly_blocks s' ! m)) \<and> (ly_baton s' (ly_blocks s' ! m) \<noteq> Gone \<longrightarrow>
        (\<exists>x. l_heap s' (ly_blocks s' ! m) = Some x \<and> block_ok s' m x))" if m: "m < length (ly_blocks s)" for m
    proof (cases "m = n")
      case True
      with b have "ly_blocks s' ! m = b" by (simp add: eq(3))
      with fin new True show ?thesis by (simp add: own)
    next
      case False
      note B = chainD(6) [OF c, unfolded blocks_ok_def, rule_format, OF m]
      have ne: "ly_blocks s ! m \<noteq> b" using inj [OF m] False by simp
      have "block_ok s m x \<Longrightarrow> block_ok s' m x" for x
        by (erule block_ok_keep) (use ne in \<open>simp_all add: eq own\<close>)
      moreover have "baton_ok s m bt \<Longrightarrow> baton_ok s' m bt" for bt
        by (erule baton_ok_keep) (simp add: own)
      ultimately show ?thesis using B eq(12,13) [OF ne] by (auto simp: eq(3))
    qed
    then show "blocks_ok s'" by (simp add: blocks_ok_def eq)
  qed
  show "l_guar i s s'"
  proof (rule l_guarI)
    show "duties_of s' j = duties_of s j" if "j \<noteq> i" for j
    proof (rule duties_keep)
      show "ly_baton s' a = Held j \<longleftrightarrow> ly_baton s a = Held j" for a
        using that bt by (cases "a = b") (simp_all add: eq new)
    qed (use that in \<open>simp_all add: eq\<close>)
    show "ls_msg (l_slot s' k) = ls_msg (l_slot s k)" if "ly_own s j = Some (True, k)" for j k
    proof -
      have "k div 31 \<noteq> n"
        using fin [of "k mod 31"] owned_unfinished [OF c that] by auto
      then show ?thesis
        using inj [OF sent_block [OF chainD(2) [OF c] owned_sent [OF c that]]] by (simp add: l_slot_def eq)
    qed
  qed (simp_all add: own, simp_all add: eq)
  show "l_closed s' = l_closed s" by (rule eq(14))
  show "duties_of s' i = (duties_of s i)\<lparr>du_blocks := du_blocks (duties_of s i) - {b}\<rparr>"
    by (auto simp: duties_of_def s' l_baton_def l_set_def)
qed

end
