(* ===== verification/List_Steps.thy ===== *)
theory List_Steps
  imports List_Change
begin

text \<open>
  Every step of a thread of the concurrent unbounded channel keeps the invariant and what
  each thread knows, and none accesses a block that is not live.
\<close>

unbundle bit_operations_syntax

section \<open>Good steps\<close>

definition l_good :: "('q, 't, 'm) lsys \<Rightarrow> nat \<Rightarrow> ('q, 't, 'm) lsys \<Rightarrow> ('m, 't) list_pc \<Rightarrow> bool" where
  "l_good s i s' pc' \<longleftrightarrow> chain s' \<and> l_at s' i pc' \<and> l_guar i s s'"

text \<open>
  The outcome of a good step: it does not go wrong, and as long as there are not too many
  messages it keeps the invariant, what the thread knows, and the guarantee.
\<close>

fun l_out :: "('q, 't, 'm) lsys \<Rightarrow> nat \<Rightarrow> (('q, 't, 'm) lsys \<times> ('m, 't) list_pc) outcome \<Rightarrow> bool" where
  "l_out s i (Done (s', pc')) \<longleftrightarrow> (few s' \<longrightarrow> l_good s i s' pc')"
| "l_out s i Spin \<longleftrightarrow> True"
| "l_out s i _ \<longleftrightarrow> False"

lemma out_good: "chain s' \<Longrightarrow> l_guar i s s' \<Longrightarrow> l_at s' i pc' \<Longrightarrow> l_out s i (Done (s', pc'))"
  by (simp add: l_good_def)

lemma l_calm_out: "l_calm s s' \<Longrightarrow> chain s \<Longrightarrow> l_at s i pc' \<Longrightarrow> l_out s i (Done (s', pc'))"
  using l_calm_good(1) [of s s'] l_calm_good(2) [of s s' i] l_calm_good(3) [of s s' i pc']
  by (simp add: l_good_def)

lemmas l_stay_out = l_calm_out [OF l_calm_simps(1)]

lemma list_answer_total:
  obtains a where "list_answer k r = Done a"
proof (cases k)
  case (SSink t)
  have "\<exists>a. list_answer (SSink t) r = Done a"
    by (cases r) (simp_all add: try_written_def is_closed_def)
  with SSink that show thesis by blast
qed (use that in auto)

lemma duties_box: "duties_of s i = d \<Longrightarrow> du_boxes d = set_option nb \<Longrightarrow> nb = Some b \<Longrightarrow> ly_box s b = Some i"
  by (auto simp: duties_of_def)

lemma duties_own: "duties_of s i = d \<Longrightarrow> \<not> du_slot d \<Longrightarrow> ly_own s i = None"
  by (cases "ly_own s i") (auto simp: duties_of_def)

section \<open>Sending\<close>

lemma tail_seen: "chain s \<Longrightarrow> sees_ltail s (po_index (l_tail s)) (l_sent s) (ly_tgap s \<noteq> None) (l_closed s)"
  using tail_okD [OF chainD(2), of s] by (auto simp: sees_ltail_def)

lemma last_block:
  assumes c: "chain s" and gap: "ly_tgap s = None" and b: "po_block (l_tail s) = Some b"
  shows "nth_block s b (l_sent s div 31)"
proof -
  note T = tail_okD [OF chainD(2) [OF c]]
  have ne: "ly_blocks s \<noteq> []" "b = last (ly_blocks s)" using T(3) b by (auto split: if_splits)
  with T(4) gap show ?thesis by (auto simp: nth_block_def last_conv_nth)
qed

lemma same_knows:
  assumes "l_same s s'"
  shows "sees_ltail s' tail j g d = sees_ltail s tail j g d" "nth_block s' b n = nth_block s b n"
    "has_lslot s' i e b l k = has_lslot s i e b l k"
  using l_sameD(16,17,19) [OF assms] by simp_all

text \<open>The next block is allocated in advance.\<close>

lemma prealloc:
  assumes c: "chain s" and d: "duties_of s i = no_duties\<lparr>du_boxes := set_option nb\<rparr>"
  obtains nb1 s1 where "(if p \<and> nb = None then (let (a, s') = box_new i s in (Some a, s')) else (nb, s)) = (nb1, s1)"
    "chain s1" "l_guar i s s1" "l_same s s1" "duties_of s1 i = no_duties\<lparr>du_boxes := set_option nb1\<rparr>" "p \<Longrightarrow> nb1 \<noteq> None"
proof (cases "p \<and> nb = None")
  case True
  obtain a s1 where n: "box_new i s = (a, s1)" by (cases "box_new i s")
  note B = box_new_good [OF c n]
  show thesis
    by (rule that [of "Some a" s1]) (use True n B d in \<open>simp_all\<close>)
next
  case False
  have "l_guar i s s" by (rule l_calm_good(2) [OF _ c]) simp
  with False c d that [of nb s] show thesis by (auto simp: l_calm_l_same)
qed

lemma send_block_out:
  assumes c: "chain s" and d: "duties_of s i = no_duties\<lparr>du_boxes := set_option nb\<rparr>"
    and t: "sees_ltail s tail j g e"
  shows "l_out s i (list_send_block i k m nb tail s)"
proof -
  have tw: "tail = iw (place j g) e" "gap_ok j g" "j \<le> l_sent s" using t by (simp_all add: sees_ltail_def)
  have off: "list_offset tail = (if g then 31 else j mod 31)"
    using place_mod [OF tw(2)] by (simp add: tw(1))
  consider (closed) "e" | (gap) "\<not> e" "g" | (go) "\<not> e" "\<not> g" by blast
  then show ?thesis
  proof cases
    case closed
    obtain a where a: "list_answer k (Inl m) = Done a" using list_answer_total .
    obtain s' where s': "box_drop nb s = Done s'" "chain s'" "l_guar i s s'"
      "duties_of s' i = (duties_of s i)\<lparr>du_boxes := du_boxes (duties_of s i) - set_option nb\<rparr>"
      using box_drop_good [OF c, of nb i] duties_box [OF d, of nb] by auto
    have "l_at s' i (ListRet a)" using s'(4) d by (simp add: l_at_def no_duties_def)
    from out_good [OF s'(2,3) this] show ?thesis
      using closed a s'(1) by (simp add: list_send_block_def tw(1) MARK_BIT_def del: l_out.simps)
  next
    case gap
    have "l_at s i (ULoad k m nb)" using d by (simp add: l_at_def)
    from l_stay_out [OF c this] show ?thesis
      using gap by (simp add: list_send_block_def off, simp add: tw(1) index_simps del: l_out.simps)
  next
    case go
    let ?p = "j mod 31 = 30"
    obtain nb1 s1 where p: "(if ?p \<and> nb = None then (let (a, s') = box_new i s in (Some a, s')) else (nb, s)) = (nb1, s1)"
      "chain s1" "l_guar i s s1" "l_same s s1" "duties_of s1 i = no_duties\<lparr>du_boxes := set_option nb1\<rparr>" "?p \<Longrightarrow> nb1 \<noteq> None"
      using prealloc [OF c d, of ?p] by metis
    have j31: "j mod 31 \<noteq> 31" using mod_less_divisor [of 31 j] by linarith
    show ?thesis
    proof (cases "po_block (l_tail s)")
      case None
      obtain new s2 where n: "box_new i s1 = (new, s2)" by (cases "box_new i s1")
      note B = box_new_good [OF p(2) n]
      have "ly_blocks s = []" using tail_okD(3) [OF chainD(2) [OF c]] None by (simp split: if_splits)
      then have "l_sent s = 0" using sent_blocks [OF chainD(2) [OF c]] by simp
      then have tail0: "tail = 0" using tw go by (simp add: lidx_def)
      have "l_at s2 i (USwap k m nb1 tail new)"
        using B(4,5) p(5) tail0 by (auto simp: l_at_def)
      from out_good [OF B(1) l_guar_trans [OF p(3) B(2) c] this] show ?thesis
        using go p(1) n None j31 by (simp add: list_send_block_def off, simp add: tw(1) index_simps del: l_out.simps)
    next
      case (Some b)
      have "nth_block s b (j div 31)" if "j = l_sent s"
        using last_block [OF c _ Some] t that go by (simp add: sees_ltail_def)
      then have "l_at s1 i (UCas k m nb1 tail b)"
        using t go p(5,6) l_sameD(1) [OF p(4)] by (auto simp: l_at_def same_knows [OF p(4)])
      from out_good [OF p(2,3) this] show ?thesis
        using go p(1) Some j31 by (simp add: list_send_block_def off, simp add: tw(1) index_simps del: l_out.simps)
    qed
  qed
qed

lemma send_swap_out:
  assumes c: "chain s" and d: "duties_of s i = no_duties\<lparr>du_boxes := insert new (set_option nb)\<rparr>"
    and k: "tail = 0" "nb \<noteq> Some new"
  shows "l_out s i (list_send_swap i k m nb tail new s)"
proof (cases "po_block (l_tail s) = None")
  case True
  have new: "ly_box s new = Some i" using duties_sel(2) [OF d] by simp
  note B = install_first [OF c True new refl]
  let ?s = "s\<lparr>ly_chan := (ly_chan s)\<lparr>lc_tail := (l_tail s)\<lparr>po_block := Some new\<rparr>\<rparr>,
      ly_blocks := ly_blocks s @ [new], ly_box := (ly_box s)(new := None), ly_first := Some i\<rparr>"
  have "insert new (set_option nb) - {new} = set_option nb" using k(2) by (cases nb) auto
  then have "l_at ?s i (UHead k m nb tail new)"
    using B(3,4) d k(1) by (simp add: l_at_def)
  from out_good [OF B(1,2) this] show ?thesis using True by (simp add: list_send_swap_def Let_def del: l_out.simps)
next
  case False
  obtain s' where s': "box_drop nb s = Done s'" "chain s'" "l_guar i s s'"
    "duties_of s' i = (duties_of s i)\<lparr>du_boxes := du_boxes (duties_of s i) - set_option nb\<rparr>"
    using box_drop_good [OF c, of nb i] duties_sel(2) [OF d] by auto
  have "insert new (set_option nb) - set_option nb = {new}" using k(2) by (cases nb) auto
  then have "l_at s' i (ULoad k m (Some new))" using s'(4) d by (simp add: l_at_def)
  from out_good [OF s'(2,3) this] False s'(1) show ?thesis
    by (cases "po_block (l_tail s)") (simp_all add: list_send_swap_def Let_def del: l_out.simps)
qed

lemma send_head_out:
  assumes c: "chain s" and d: "duties_of s i = no_duties\<lparr>du_boxes := set_option nb, du_first := True\<rparr>"
    and k: "tail = 0" "nth_block s new 0"
  shows "l_out s i (list_send_head k m nb tail new s)"
proof -
  have f: "ly_first s = Some i" using duties_sel(6) [OF d] by simp
  note B = install_head [OF c f k(2) refl]
  let ?s = "s\<lparr>ly_chan := (ly_chan s)\<lparr>lc_head := (l_head s)\<lparr>po_block := Some new\<rparr>\<rparr>, ly_first := None\<rparr>"
  have "sees_ltail s tail 0 False False"
    using k(1) tail_okD(1) [OF chainD(2) [OF c]] by (auto simp: sees_ltail_def lidx_def gap_ok_def)
  then have "sees_ltail ?s tail 0 False False" by (simp add: sees_ltail_def)
  moreover have "nth_block ?s new 0" using k(2) by (simp add: nth_block_def)
  ultimately have "l_at ?s i (UCas k m nb tail new)"
    using B(3) d by (auto simp: l_at_def no_duties_def intro!: exI [of _ 0])
  from out_good [OF B(1,2) this] show ?thesis by (simp add: list_send_head_def Let_def del: l_out.simps)
qed

lemma send_cas_out:
  assumes c: "chain s" and d: "duties_of s i = no_duties\<lparr>du_boxes := set_option nb\<rparr>"
    and t: "sees_ltail s tail j False False" and b: "j = l_sent s \<Longrightarrow> nth_block s b (j div 31)"
    and nb: "j mod 31 = 30 \<Longrightarrow> nb \<noteq> None"
  shows "l_out s i (list_send_cas w i k m nb tail b s)"
proof -
  have tw: "tail = lw j False" "j \<le> l_sent s" using t by (simp_all add: sees_ltail_def)
  have off: "list_offset tail = j mod 31" and add: "add_chk tail one_shift = Done (iw (Suc (lidx j)) False)"
    using add_chk_iw [of "lidx j" False] by (simp_all add: tw(1))
  show ?thesis
  proof (cases "\<not> w \<and> po_index (l_tail s) = tail")
    case False
    have "l_at s i (UBlock k m nb (po_index (l_tail s)))" using d tail_seen [OF c] by (auto simp: l_at_def)
    from l_stay_out [OF c this] False add show ?thesis
      by (auto simp: list_send_cas_def Let_def simp del: l_out.simps)
  next
    case True
    then have "po_index (l_tail s) = iw (place j False) False" by (simp add: tw(1))
    note N = tail_word_place [OF c gap_ok_False tw(2) this]
    obtain a where a: "list_answer k (Inr ()) = Done (a :: 'c chan_answer)" using list_answer_total .
    let ?s1 = "l_own i (Some (True, l_sent s)) (s\<lparr>ly_chan := (ly_chan s)\<lparr>lc_tail :=
        (l_tail s)\<lparr>po_index := iw (Suc (lidx j)) False\<rparr>\<rparr>, ly_log := ly_log s @ [m]\<rparr>)"
    let ?s = "?s1\<lparr>ly_tgap := (if j mod 31 = 30 then Some i else None)\<rparr>"
    have own: "ly_own s i = None" by (rule duties_own [OF d]) simp
    have gap: "ly_tgap s = None" using N(2) by simp
    have opn: "\<not> l_closed s" and b': "nth_block s b (l_sent s div 31)" using N b by simp_all
    have "l_tail ?s = (l_tail s)\<lparr>po_index := iw (Suc (lidx (l_sent s))) False\<rparr>"
      "ly_log ?s = ly_log s @ [m]" "ly_own ?s = (ly_own s)(i := Some (True, l_sent s))"
      "ly_tgap ?s = (if l_sent s mod 31 = 30 then Some i else None)"
      "ly_taken ?s = ly_taken s" "ly_blocks ?s = ly_blocks s" "ly_hgap ?s = ly_hgap s" "ly_first ?s = ly_first s"
      "ly_box ?s = ly_box s" "ly_baton ?s = ly_baton s" "l_head ?s = l_head s" "l_heap ?s = l_heap s"
      "lc_fresh (ly_chan ?s) = lc_fresh (ly_chan s)"
      by (simp_all add: l_own_def N)
    note B = reserve_tail [OF c own gap opn b' this]
    have good: "chain ?s" "l_guar i s ?s" "\<not> l_closed ?s"
      "duties_of ?s i = (duties_of s i)\<lparr>du_slot := True, du_tail := (l_sent s mod 31 = 30)\<rparr>" if "few ?s"
      using B that by blast+
    have slot: "has_lslot ?s i True b (j mod 31) j" "ly_log ?s ! j = m" "l_sent ?s = Suc j"
      using b N(1) by (auto simp: has_lslot_def l_own_def nth_block_def)
    show ?thesis
    proof (cases "j mod 31 = 30")
      case True
      then obtain new where new: "nb = Some new" using nb by blast
      have len: "length (ly_blocks s) = Suc (j div 31)"
        using tail_okD(4) [OF chainD(2) [OF c]] gap b N(1) by (auto simp: nth_block_def)
      have "l_at ?s i (UStore a m b new)" if "few ?s"
        using good(4) [OF that] slot True len d new N(1) by (auto simp: l_at_def l_own_def no_duties_def)
      with good(1,2) have "l_out s i (Done (?s, UStore a m b new))" by (simp add: l_good_def)
      with True new N a add \<open>\<not> w \<and> _\<close> show ?thesis
        by (simp add: list_send_cas_def Let_def off index_simps del: l_out.simps)
    next
      case False
      have "?s = ?s1" using gap False by (simp add: l_own_def)
      then have good1: "chain ?s1" "l_guar i s ?s1" "duties_of ?s1 i = no_duties\<lparr>du_boxes := set_option nb, du_slot := True\<rparr>"
        if "few ?s1" using good that d False N(1) by (simp_all add: no_duties_def)
      have nbi: "x \<in> set_option nb \<Longrightarrow> l_heap ?s1 x \<noteq> None \<and> ly_box ?s1 x = Some i" for x
        using duties_sel(2) [OF d, of x] heap_okD(5) [OF chainD(5) [OF c], of x i] by (simp add: l_own_def)
      obtain s2 where s2: "box_drop nb ?s1 = Done s2" "l_sent s2 = l_sent ?s1"
        using nbi by (cases nb) (auto simp: box_drop_def list_free_def split: option.splits)
      have "l_good s i s2 (UWrite a m b (j mod 31))" if "few s2"
      proof -
        have f1: "few ?s1" using that s2(2) by (simp add: few_def)
        obtain s3 where s3: "box_drop nb ?s1 = Done s3" "chain s3" "l_guar i ?s1 s3" "l_same ?s1 s3"
          "duties_of s3 i = (duties_of ?s1 i)\<lparr>du_boxes := du_boxes (duties_of ?s1 i) - set_option nb\<rparr>"
          using box_drop_good [OF good1(1) [OF f1], of nb i] nbi by auto
        then have "s3 = s2" using s2(1) by simp
        moreover have "l_at s3 i (UWrite a m b (j mod 31))"
          using s3(5) good1(3) [OF f1] slot l_sameD(1) [OF s3(4)] \<open>?s = ?s1\<close>
          by (auto simp: l_at_def same_knows [OF s3(4)] no_duties_def)
        ultimately show ?thesis
          using s3(2) l_guar_trans [OF good1(2) [OF f1] s3(3) c] by (simp add: l_good_def)
      qed
      then have "l_out s i (Done (s2, UWrite a m b (j mod 31)))" by simp
      with False N a add \<open>\<not> w \<and> _\<close> s2(1) show ?thesis
        by (simp add: list_send_cas_def Let_def off index_simps del: l_out.simps)
    qed
  qed
qed

lemma install_store_out:
  assumes c: "chain s" and d: "duties_of s i = no_duties\<lparr>du_slot := True, du_boxes := {new}, du_tail := True\<rparr>"
    and k: "has_lslot s i True b 30 k" "l_sent s = Suc k" "length (ly_blocks s) = Suc (k div 31)" "ly_log s ! k = m"
  shows "l_out s i (list_install_store a m b new s)"
proof -
  have k30: "k mod 31 = 30" using k(1) by (simp add: has_lslot_def)
  have gap: "ly_tgap s = Some i" and new: "ly_box s new = Some i" using duties_sel(2,4) [OF d] by simp_all
  have len: "length (ly_blocks s) = l_sent s div 31" using k(2,3) k30 by (simp add: div_Suc_31)
  note B = install_next [OF c gap new len refl]
  let ?s = "s\<lparr>ly_chan := (ly_chan s)\<lparr>lc_tail := (l_tail s)\<lparr>po_block := Some new\<rparr>\<rparr>,
      ly_blocks := ly_blocks s @ [new], ly_box := (ly_box s)(new := None)\<rparr>"
  have "has_lslot ?s i True b 30 k" using k(1) by (auto simp: has_lslot_def nth_block_def nth_append)
  then have "l_at ?s i (UAdd a m b new)"
    using B(3,4) d k by (auto simp: l_at_def no_duties_def intro!: exI [of _ k])
  from out_good [OF B(1,2) this] show ?thesis by (simp add: list_install_store_def Let_def del: l_out.simps)
qed

lemma install_add_out:
  assumes c: "chain s" and d: "duties_of s i = no_duties\<lparr>du_slot := True, du_tail := True\<rparr>"
    and k: "has_lslot s i True b 30 k" "l_sent s = Suc k" "length (ly_blocks s) = Suc (Suc (k div 31))"
      "nth_block s new (Suc (k div 31))" "ly_log s ! k = m"
  shows "l_out s i (list_install_add a m b new s)"
proof -
  have k30: "k mod 31 = 30" using k(1) by (simp add: has_lslot_def)
  have gap: "ly_tgap s = Some i" using duties_sel(4) [OF d] by simp
  have len: "length (ly_blocks s) = Suc (l_sent s div 31)" using k(2,3) k30 by (simp add: div_Suc_31)
  note B = enter_tail [OF c gap len refl]
  let ?s = "s\<lparr>ly_chan := (ly_chan s)\<lparr>lc_tail := (l_tail s)\<lparr>po_index := po_index (l_tail s) + one_shift\<rparr>\<rparr>, ly_tgap := None\<rparr>"
  have "l_sent s = 31 * Suc (k div 31)" using k(2) k30 div_mod_decomp [of k 31] by simp
  then have "linked ?s (k div 31)" by (rule B(4))
  moreover have "has_lslot ?s i True b 30 k" "nth_block ?s new (Suc (k div 31))"
    using k(1,4) by (auto simp: has_lslot_def nth_block_def)
  ultimately have "l_at ?s i (ULink a m b new)"
    using B(5) d k(5) by (auto simp: l_at_def no_duties_def)
  from out_good [OF B(1,2) this] show ?thesis by (simp add: list_install_add_def Let_def del: l_out.simps)
qed

lemma install_link_out:
  assumes c: "chain s" and d: "duties_of s i = no_duties\<lparr>du_slot := True\<rparr>"
    and k: "has_lslot s i True b 30 k" "linked s (k div 31)" "nth_block s new (Suc (k div 31))" "ly_log s ! k = m"
  shows "l_out s i (list_install_link a m b new s)"
proof -
  obtain bl where bl: "l_heap s b = Some bl" using own_block [OF c k(1)] by metis
  note B = link_next [OF c k(1,2,3) bl refl]
  let ?s = "l_set (set_block (Some b) (bl\<lparr>bl_next := Some new\<rparr>) (ly_chan s)) s"
  have "l_at ?s i (UWrite a m b 30)" using B(3-5) d k by (auto simp: l_at_def)
  from out_good [OF B(1,2) this] bl show ?thesis
    by (simp add: list_install_link_def get_block_def index_simps del: l_out.simps)
qed

lemma list_send_write_out:
  assumes c: "chain s" and d: "duties_of s i = no_duties\<lparr>du_slot := True\<rparr>"
    and k: "has_lslot s i True b j k" "ly_log s ! k = m"
  shows "l_out s i (list_send_write a m b j s)"
proof -
  obtain bl where bl: "l_heap s b = Some bl" "j < length (bl_slots bl)" using own_block [OF c k(1)] by metis
  note B = write_message [OF c k bl(1) refl]
  let ?s = "l_set (set_block (Some b) (bl\<lparr>bl_slots :=
      (bl_slots bl)[j := (bl_slots bl ! j)\<lparr>ls_msg := Some m\<rparr>]\<rparr>) (ly_chan s)) s"
  have "l_at ?s i (UState a b j)" using B(3-5) d by (auto simp: l_at_def)
  from out_good [OF B(1,2) this] bl show ?thesis
    by (simp add: list_send_write_def get_slot_def set_slot_def get_block_def del: l_out.simps)
qed

text \<open>What \<open>fetch_or\<close> does to a block that is live.\<close>

lemma slot_or_live:
  "l_heap s b = Some bl \<Longrightarrow> j < length (bl_slots bl) \<Longrightarrow>
   slot_or b j flag s = Done (ls_state (bl_slots bl ! j), l_set (set_block (Some b) (bl\<lparr>bl_slots :=
     (bl_slots bl)[j := (bl_slots bl ! j)\<lparr>ls_state := ls_state (bl_slots bl ! j) OR flag\<rparr>]\<rparr>) (ly_chan s)) s)"
  by (simp add: slot_or_def get_slot_def set_slot_def get_block_def)

lemma send_state_out:
  assumes c: "chain s" and d: "duties_of s i = no_duties\<lparr>du_slot := True\<rparr>"
    and k: "has_lslot s i True b j k" "ls_msg (l_slot s k) = Some (ly_log s ! k)"
  shows "l_out s i (list_send_state i a b j s)"
proof -
  obtain bl where bl: "l_heap s b = Some bl" "j < length (bl_slots bl)" using own_block [OF c k(1)] by metis
  note B = publish [OF c k bl(1) refl]
  have "l_at (l_own i None (l_set (set_block (Some b) (bl\<lparr>bl_slots :=
      (bl_slots bl)[j := (bl_slots bl ! j)\<lparr>ls_state := ls_state (bl_slots bl ! j) OR WRITE\<rparr>]\<rparr>) (ly_chan s)) s)) i (UWake a)"
    using B(3) d by (simp add: l_at_def no_duties_def)
  from out_good [OF B(1,2) this] show ?thesis
    by (simp add: list_send_state_def slot_or_live [OF bl] del: l_out.simps)
qed

section \<open>Receiving\<close>

lemma head_seen_at:
  assumes "chain s" "duties_of s i = no_duties"
  shows "l_at s i (VBlock k (po_index (l_head s)))"
proof -
  obtain mk where "sees_lhead s (po_index (l_head s)) (ly_taken s) (ly_hgap s \<noteq> None) mk"
    using head_okD(2,3) [OF chainD(3) [OF assms(1)]] by (auto simp: sees_lhead_def)
  then have "\<exists>j g mk. sees_lhead s (po_index (l_head s)) j g mk" by (intro exI)
  with assms(2) show ?thesis by (simp add: l_at_def)
qed

lemma head_block:
  assumes c: "chain s" and gap: "ly_hgap s = None" and b: "po_block (l_head s) = Some b"
  shows "nth_block s b (ly_taken s div 31)"
proof -
  note H = head_okD [OF chainD(3) [OF c]] and T = tail_okD [OF chainD(2) [OF c]]
  have b': "ly_blocks s \<noteq> []" "b = ly_blocks s ! (ly_taken s div 31)" using H(6) [OF b gap] by simp_all
  have "ly_taken s div 31 < length (ly_blocks s)"
  proof (cases "ly_taken s = l_sent s")
    case True
    then have "ly_tgap s = None" using H(4) gap by blast
    with T(4) b'(1) True show ?thesis by auto
  next
    case False
    then show ?thesis using sent_block [OF chainD(2) [OF c]] H(1) by simp
  qed
  with b' show ?thesis by (simp add: nth_block_def)
qed

lemma in_block_less: "31 * Suc (j div 31) \<le> n \<Longrightarrow> j < (n :: nat)"
  using div_mod_decomp [of j 31] mod_less_divisor [of 31 j] by simp

lemma idle_at: "duties_of s i = no_duties \<Longrightarrow> l_at s i (VLoad k)" "duties_of s i = no_duties \<Longrightarrow> l_at s i (ListRet a)"
  "duties_of s i = no_duties \<Longrightarrow> l_at s i (list_recv_refused k)"
  by (simp_all add: l_at_def, cases k, simp_all)

lemma recv_try_at:
  assumes c: "chain s" and d: "duties_of s i = no_duties"
    and h: "sees_lhead s head j False mk" "j < l_sent s" "new = iw (Suc (lidx j)) mk'"
      "mk' \<Longrightarrow> 31 * Suc (j div 31) \<le> l_sent s"
    and b: "\<And>b. block = Some b \<Longrightarrow> po_block (l_head s) \<noteq> None \<and> (j = ly_taken s \<longrightarrow> nth_block s b (j div 31))"
  shows "l_at s i (list_recv_try k head new block)"
proof (cases block)
  case None
  with d show ?thesis by (simp add: list_recv_try_def idle_at)
next
  case (Some b)
  with d h assms(7) [OF Some] show ?thesis by (auto simp: list_recv_try_def l_at_def)
qed

lemma recv_block_out:
  assumes c: "chain s" and d: "duties_of s i = no_duties" and h: "sees_lhead s head j g mk"
  shows "l_out s i (list_recv_block k head s)"
proof -
  have hw: "head = iw (place j g) mk" "gap_ok j g" "j \<le> ly_taken s" "j = ly_taken s \<Longrightarrow> \<not> g \<Longrightarrow> ly_hgap s = None"
    "mk \<Longrightarrow> \<not> g \<Longrightarrow> 31 * Suc (j div 31) \<le> l_sent s" using h by (auto simp: sees_lhead_def)
  have off: "list_offset head = (if g then 31 else j mod 31)"
    using place_mod [OF hw(2)] by (simp add: hw(1))
  show ?thesis
  proof (cases g)
    case True
    with l_stay_out [OF c idle_at(1) [OF d]] show ?thesis
      by (simp add: list_recv_block_def Let_def off index_simps del: l_out.simps)
  next
    case False
    have j31: "j mod 31 \<noteq> 31" using mod_less_divisor [of 31 j] by linarith
    have add: "add_chk head one_shift = Done (iw (Suc (lidx j)) mk)"
      using add_chk_iw [of "lidx j" mk] False by (simp add: hw(1))
    have b: "po_block (l_head s) \<noteq> None \<and> (j = ly_taken s \<longrightarrow> nth_block s b (j div 31))"
      if "po_block (l_head s) = Some b" for b
      using head_block [OF c _ that] hw(4) False that by auto
    have "l_at s i (if \<not> mk then VTail k head (po_block (l_head s))
        else list_recv_try k head (iw (Suc (lidx j)) mk) (po_block (l_head s)))"
    proof (cases mk)
      case True
      with recv_try_at [OF c d, of head j mk _ mk] h hw(5) False in_block_less b show ?thesis by auto
    next
      case nm: False
      with b d h False show ?thesis by (auto simp: l_at_def)
    qed
    from l_stay_out [OF c this] False j31 add show ?thesis
      by (simp add: list_recv_block_def Let_def off index_simps del: l_out.simps)
  qed
qed

text \<open>What the load of the tail tells a receiver.\<close>

lemma list_new_head_cases:
  assumes c: "chain s" and h: "sees_lhead s head j False False"
  obtains (empty) "list_new_head head (ly_chan s) = Done (Inl (l_closed s))" "j = l_sent s" "ly_taken s = l_sent s"
  | (some) mk where "list_new_head head (ly_chan s) = Done (Inr (iw (Suc (lidx j)) mk))" "j < l_sent s"
      "mk \<Longrightarrow> 31 * Suc (j div 31) \<le> l_sent s"
proof -
  note T = tail_okD [OF chainD(2) [OF c]] and H = head_okD [OF chainD(3) [OF c]]
  let ?g = "ly_tgap s \<noteq> None" and ?N = "l_sent s"
  have hw: "head = iw (lidx j) False" "j \<le> ly_taken s" "j = ly_taken s \<Longrightarrow> ly_hgap s = None"
    using h by (auto simp: sees_lhead_def)
  have n: "?N < 2 ^ 62" using chainD(1) [OF c] by (simp only: few_def)
  have jn: "j \<le> ?N" using hw(2) H(1) by simp
  then have "j < 2 ^ 62" using n by (rule le_less_trans)
  with n have small: "place ?N ?g mod 2 ^ 63 = place ?N ?g" "lidx j mod 2 ^ 63 = lidx j"
    using place_less [of ?N ?g] place_less [of j False] by (simp_all only: mod_less place_False)
  have add: "add_chk head one_shift = Done (iw (Suc (lidx j)) False)"
    using add_chk_iw [of "lidx j" False] by (simp add: hw(1))
  have same: "drop_bit SHIFT head = drop_bit SHIFT (po_index (l_tail s)) \<longleftrightarrow> j = ?N \<and> \<not> ?g"
    unfolding T(2) hw(1) SHIFT_def One_nat_def drop_iw_eq small
    using place_eq [OF gap_ok_False T(1), of j] by auto
  have divs: "unat (drop_bit SHIFT head) div LAP = j div 31"
    "unat (drop_bit SHIFT (po_index (l_tail s))) div LAP = (?N - of_bool ?g) div 31"
    unfolding T(2) hw(1) SHIFT_def One_nat_def unat_drop_iw small LAP_def
    using place_div [OF T(1)] by simp_all
  show thesis
  proof (cases "j = ?N \<and> \<not> ?g")
    case True
    then have "list_new_head head (ly_chan s) = Done (Inl (l_closed s))"
      using same add by (simp add: list_new_head_def MARK_BIT_def Let_def list_is_shutdown_def)
    with True hw(2) H(1) show thesis by (intro empty) simp_all
  next
    case False
    have lt: "j < ?N"
    proof (rule ccontr)
      assume "\<not> j < ?N"
      then have "j = ?N" "ly_taken s = ?N" using jn hw(2) H(1) by simp_all
      with False hw(3) H(4) show False by simp
    qed
    let ?mk = "j div 31 \<noteq> (?N - of_bool ?g) div 31"
    have "31 * Suc (j div 31) \<le> ?N" if ?mk
    proof -
      have "j div 31 \<le> (?N - of_bool ?g) div 31" using lt by (intro div_le_mono) (auto simp: of_bool_def)
      with that have "Suc (j div 31) \<le> (?N - of_bool ?g) div 31" by simp
      then have "Suc (j div 31) * 31 \<le> ?N - of_bool ?g" by (simp only: less_eq_div_iff_mult_less_eq zero_less_numeral)
      then show ?thesis by simp
    qed
    moreover have "list_new_head head (ly_chan s) = Done (Inr (iw (Suc (lidx j)) ?mk))"
      using same add False divs
      by (auto simp: list_new_head_def MARK_BIT_def Let_def iw_or_mark)
    ultimately show thesis using lt some by blast
  qed
qed

lemma recv_tail_out:
  assumes c: "chain s" and d: "duties_of s i = no_duties" and h: "sees_lhead s head j False False"
    and b: "\<And>b. block = Some b \<Longrightarrow> po_block (l_head s) \<noteq> None \<and> (j = ly_taken s \<longrightarrow> nth_block s b (j div 31))"
  shows "l_out s i (list_recv_tail k head block s)"
  using c h
proof (cases rule: list_new_head_cases)
  case empty
  have "l_at s i (case l_closed s of True \<Rightarrow> ListRet (recv_answer k None) | False \<Rightarrow> list_recv_refused k)"
    using idle_at(2,3) [OF d] by (cases "l_closed s") simp_all
  from l_stay_out [OF c this] empty(1) show ?thesis by (simp add: list_recv_tail_def del: l_out.simps)
next
  case (some mk)
  from l_stay_out [OF c recv_try_at [OF c d h some(2) refl some(3) b]] some(1) show ?thesis
    by (simp add: list_recv_tail_def del: l_out.simps)
qed

lemma recv_cas_out:
  assumes c: "chain s" and d: "duties_of s i = no_duties" and nn: "po_block (l_head s) \<noteq> None"
    and h: "sees_lhead s head j False mk" and b: "j = ly_taken s \<Longrightarrow> nth_block s b (j div 31)"
    and new: "new = iw (Suc (lidx j)) mk'" "j < l_sent s" "mk' \<Longrightarrow> 31 * Suc (j div 31) \<le> l_sent s"
  shows "l_out s i (list_recv_cas w i k head new b s)"
proof -
  have hw: "head = iw (place j False) mk" "j \<le> ly_taken s"
    using h by (auto simp: sees_lhead_def)
  have off: "list_offset head = j mod 31" by (simp add: hw(1))
  show ?thesis
  proof (cases "\<not> w \<and> po_index (l_head s) = head")
    case False
    have "l_at s i (VBlock k (po_index (l_head s)))"
      by (rule head_seen_at [OF c d])
    from l_stay_out [OF c this] False show ?thesis
      by (auto simp: list_recv_cas_def Let_def simp del: l_out.simps)
  next
    case True
    then have "po_index (l_head s) = iw (place j False) mk" by (simp add: hw(1))
    note N = head_word_place [OF c gap_ok_False hw(2) this]
    let ?s1 = "l_own i (Some (False, ly_taken s)) (s\<lparr>ly_chan := (ly_chan s)\<lparr>lc_head :=
        (l_head s)\<lparr>po_index := new\<rparr>\<rparr>, ly_taken := Suc (ly_taken s)\<rparr>)"
    let ?s = "?s1\<lparr>ly_hgap := (if j mod 31 = 30 then Some i else None)\<rparr>"
    have own: "ly_own s i = None" by (rule duties_own [OF d]) simp
    have gap: "ly_hgap s = None" and b': "nth_block s b (ly_taken s div 31)" and lt: "ly_taken s < l_sent s"
      and mk: "mk' \<Longrightarrow> 31 * Suc (ly_taken s div 31) \<le> l_sent s" using N b new by simp_all
    have "l_head ?s = (l_head s)\<lparr>po_index := iw (Suc (lidx (ly_taken s))) mk'\<rparr>"
      "ly_taken ?s = Suc (ly_taken s)" "ly_own ?s = (ly_own s)(i := Some (False, ly_taken s))"
      "ly_hgap ?s = (if ly_taken s mod 31 = 30 then Some i else None)"
      "ly_log ?s = ly_log s" "ly_blocks ?s = ly_blocks s" "ly_tgap ?s = ly_tgap s" "ly_first ?s = ly_first s"
      "ly_box ?s = ly_box s" "ly_baton ?s = ly_baton s" "l_tail ?s = l_tail s" "l_heap ?s = l_heap s"
      "lc_fresh (ly_chan ?s) = lc_fresh (ly_chan s)"
      by (simp_all add: l_own_def N new(1))
    note B = reserve_head [OF c own gap b' lt mk this nn]
    have slot: "has_lslot ?s i False b (j mod 31) j" "ly_taken ?s = Suc j"
      using b N(1) by (auto simp: has_lslot_def l_own_def nth_block_def)
    show ?thesis
    proof (cases "j mod 31 = 30")
      case k30: True
      have "l_at ?s i (VNext k b new)"
        using B(4) slot k30 d N(1) new(1) by (auto simp: l_at_def moves_head_def no_duties_def)
      from out_good [OF B(1,2) this] True k30 N(1) show ?thesis
        by (simp add: list_recv_cas_def Let_def off index_simps del: l_out.simps)
    next
      case k30: False
      have "?s = ?s1" using gap k30 by (simp add: l_own_def)
      moreover have "l_at ?s i (VWait k b (j mod 31))"
        using B(4) slot(1) k30 d N(1) by (auto simp: l_at_def no_duties_def intro: exI [of _ j])
      ultimately show ?thesis
        using out_good [OF B(1,2), of "VWait k b (j mod 31)"] True k30 N(1)
        by (simp add: list_recv_cas_def Let_def off index_simps del: l_out.simps)
    qed
  qed
qed

text \<open>The head moves on to the next block.\<close>

lemma moves_headD:
  assumes "moves_head s i b h"
  shows "has_lslot s i False b 30 h" "ly_taken s = Suc h" "h mod 31 = 30" "Suc h = 31 * Suc (h div 31)"
    "Suc h div 31 = Suc (h div 31)"
proof -
  show s: "has_lslot s i False b 30 h" "ly_taken s = Suc h" using assms by (simp_all add: moves_head_def)
  then show k: "h mod 31 = 30" by (simp add: has_lslot_def)
  then show "Suc h = 31 * Suc (h div 31)" using div_mod_decomp [of h 31] by simp
  show "Suc h div 31 = Suc (h div 31)" using k by (simp add: div_Suc_31)
qed

lemma recv_next_out:
  assumes c: "chain s" and d: "duties_of s i = no_duties\<lparr>du_slot := True, du_head := True\<rparr>"
    and m: "moves_head s i b h" "new = iw (Suc (lidx h)) mk"
  shows "l_out s i (list_recv_next k b new s)"
proof -
  note M = moves_headD [OF m(1)]
  obtain bl where bl: "l_heap s b = Some bl" "block_ok s (h div 31) bl" using own_block [OF c M(1)] by metis
  show ?thesis
  proof (cases "bl_next bl")
    case None
    with bl show ?thesis by (simp add: list_recv_next_def wait_next_def get_block_def)
  next
    case (Some x)
    then have l: "linked s (h div 31)" and x: "x = ly_blocks s ! Suc (h div 31)"
      using bl(2) by (simp_all add: block_ok_def)
    have "nth_block s x (Suc (h div 31))"
      using linked_block [OF chainD(2) [OF c] l] x by (simp add: nth_block_def)
    then have "l_at s i (VPeek k b new x)" using d m l by (auto simp: l_at_def intro!: exI [of _ h])
    from l_stay_out [OF c this] show ?thesis
      using bl Some by (simp add: list_recv_next_def wait_next_def get_block_def del: l_out.simps)
  qed
qed

lemma recv_peek_out:
  assumes c: "chain s" and d: "duties_of s i = no_duties\<lparr>du_slot := True, du_head := True\<rparr>"
    and m: "moves_head s i b h" "new = iw (Suc (lidx h)) mk"
    and x: "linked s (h div 31)" "nth_block s nx (Suc (h div 31))"
  shows "l_out s i (list_recv_peek k b new nx s)"
proof -
  note M = moves_headD [OF m(1)]
  have n: "Suc (h div 31) < length (ly_blocks s)" "nx = ly_blocks s ! Suc (h div 31)"
    using x(2) by (simp_all add: nth_block_def)
  have "\<not> finished s (31 * Suc (h div 31) + 30)" using M(2,4) by (simp add: finished_def)
  from live_block [OF c n(1) _ this] n(2) obtain bl where
    bl: "l_heap s nx = Some bl" "block_ok s (Suc (h div 31)) bl" by auto
  have ix: "(new AND NOT MARK_BIT) + one_shift = lw (Suc h) False"
    using M(3) lidx_Suc [of h] by (simp add: m(2) MARK_BIT_def iw_and_not_mark iw_add_2)
  have mk: "31 * Suc (Suc h div 31) \<le> l_sent s" if "bl_next bl \<noteq> None"
    using that bl(2) M(5) by (auto simp: block_ok_def linked_def)
  have "l_at s i (VHead k b (lw (Suc h) (bl_next bl \<noteq> None)) nx)"
    using d m(1) x mk by (simp add: l_at_def) blast
  moreover have "(if bl_next bl \<noteq> None then lw (Suc h) False OR MARK_BIT else lw (Suc h) False)
      = lw (Suc h) (bl_next bl \<noteq> None)" by (simp add: MARK_BIT_def iw_or_mark)
  ultimately show ?thesis
    using l_stay_out [OF c] bl(1) by (simp only: list_recv_peek_def get_block_def ix Let_def option.case obind.simps)
qed

lemma recv_head_out:
  assumes c: "chain s" and d: "duties_of s i = no_duties\<lparr>du_slot := True, du_head := True\<rparr>"
    and m: "moves_head s i b h" "ix = lw (Suc h) mk" "mk \<Longrightarrow> 31 * Suc (Suc h div 31) \<le> l_sent s"
    and x: "linked s (h div 31)" "nth_block s nx (Suc (h div 31))"
  shows "l_out s i (list_recv_head k b ix nx s)"
proof -
  have gap: "ly_hgap s = Some i" using duties_sel(5) [OF d] by simp
  note B = advance_block [OF c gap refl, of nx]
  let ?s = "l_set ((ly_chan s)\<lparr>lc_head := (l_head s)\<lparr>po_block := Some nx\<rparr>\<rparr>) s"
  have "moves_head ?s i b h" "linked ?s (h div 31)" "po_block (l_head ?s) = Some (ly_blocks ?s ! Suc (h div 31))"
    using m(1) x by (simp_all add: moves_head_def has_lslot_def nth_block_def linked_def l_set_def)
  moreover have "l_sent ?s = l_sent s" by (simp add: l_set_def)
  ultimately have "l_at ?s i (VIndex k b ix)"
    using B(3) d m(2,3) unfolding l_at_def by (simp, intro exI [of _ h] conjI exI [of _ mk]) simp_all
  from out_good [OF B(1,2) this] show ?thesis by (simp add: list_recv_head_def Let_def del: l_out.simps)
qed

lemma recv_index_out:
  assumes c: "chain s" and d: "duties_of s i = no_duties\<lparr>du_slot := True, du_head := True\<rparr>"
    and m: "moves_head s i b h" "ix = lw (Suc h) mk" "mk \<Longrightarrow> 31 * Suc (Suc h div 31) \<le> l_sent s"
    and x: "linked s (h div 31)" "po_block (l_head s) = Some (ly_blocks s ! Suc (h div 31))"
  shows "l_out s i (list_recv_index k b ix s)"
proof -
  note M = moves_headD [OF m(1)]
  have gap: "ly_hgap s = Some i" using duties_sel(5) [OF d] by simp
  have tk: "ly_taken s = 31 * Suc (h div 31)" using M(2,4) by simp
  let ?s = "s\<lparr>ly_chan := (ly_chan s)\<lparr>lc_head := (l_head s)\<lparr>po_index := ix\<rparr>\<rparr>, ly_hgap := None\<rparr>"
  have s': "?s = s\<lparr>ly_chan := (ly_chan s)\<lparr>lc_head := (l_head s)\<lparr>po_index := lw (ly_taken s) mk\<rparr>\<rparr>, ly_hgap := None\<rparr>"
    using m(2) M(2) by simp
  have mk: "mk \<Longrightarrow> 31 * Suc (ly_taken s div 31) \<le> l_sent s" using m(3) M(2) by simp
  note B = enter_head [OF c gap tk x mk s']
  have "has_lslot ?s i False b 30 h" using M(1) by (simp add: has_lslot_def nth_block_def)
  then have "l_at ?s i (VWait k b 30)" using B(3) d by (auto simp: l_at_def no_duties_def intro: exI [of _ h])
  from out_good [OF B(1,2) this] show ?thesis by (simp add: list_recv_index_def Let_def index_simps del: l_out.simps)
qed

lemma recv_wait_out:
  assumes c: "chain s" and d: "duties_of s i = no_duties\<lparr>du_slot := True\<rparr>" and h: "has_lslot s i False b j h"
  shows "l_out s i (list_recv_wait k b j s)"
proof -
  obtain bl where bl: "l_heap s b = Some bl" "j < length (bl_slots bl)" "slot_ok s (ly_baton s b) h (bl_slots bl ! j)"
    using own_block [OF c h] by metis
  show ?thesis
  proof (cases "bit (ls_state (bl_slots bl ! j)) 0")
    case True
    then have "written s h" using bl(3) by (simp add: slot_ok_def)
    then have "l_at s i (VRead k b j)" using d h by (auto simp: l_at_def)
    from l_stay_out [OF c this] bl True show ?thesis
      by (simp add: list_recv_wait_def get_slot_def get_block_def wait_write_def state_bits del: l_out.simps)
  next
    case False
    with bl show ?thesis by (simp add: list_recv_wait_def get_slot_def get_block_def wait_write_def state_bits)
  qed
qed

lemma list_recv_read_out:
  assumes c: "chain s" and d: "duties_of s i = no_duties\<lparr>du_slot := True\<rparr>"
    and h: "has_lslot s i False b j h" and w: "written s h"
  shows "l_out s i (list_recv_read i k b j s)"
proof -
  obtain bl where bl: "l_heap s b = Some bl" "j < length (bl_slots bl)" "slot_ok s (ly_baton s b) h (bl_slots bl ! j)"
    "j = h mod 31" using own_block [OF c h] by metis
  have m: "ls_msg (bl_slots bl ! j) = Some (ly_log s ! h)" using bl(3) w by (simp add: slot_ok_def)
  show ?thesis
  proof (cases "j = 30")
    case True
    note B = read_last [OF c h [unfolded True] w refl]
    have "l_at (l_own i None (l_baton b (Held i) s)) i (VScan (recv_answer k (Some (ly_log s ! h))) b 0)"
      using B(4,5) d by (auto simp: l_at_def no_duties_def)
    from out_good [OF B(1,2) this] show ?thesis
      using bl(1,2) m True by (simp add: list_recv_read_def get_slot_def get_block_def index_simps del: l_out.simps)
  next
    case False
    have "l_at s i (VMark k b j (ly_log s ! h))" using d h w False by (auto simp: l_at_def)
    from l_stay_out [OF c this] bl(1,2) m False show ?thesis
      by (simp add: list_recv_read_def get_slot_def get_block_def index_simps del: l_out.simps)
  qed
qed

lemma recv_mark_out:
  assumes c: "chain s" and d: "duties_of s i = no_duties\<lparr>du_slot := True\<rparr>"
    and h: "has_lslot s i False b j h" and w: "written s h" and j: "j \<noteq> 30"
  shows "l_out s i (list_recv_mark i k b j m s)"
proof -
  obtain bl where bl: "l_heap s b = Some bl" "j < length (bl_slots bl)" "j = h mod 31"
    using own_block [OF c h] by metis
  let ?old = "ls_state (bl_slots bl ! j)" and ?a = "recv_answer k (Some m)"
  let ?s1 = "l_set (set_block (Some b) (bl\<lparr>bl_slots :=
      (bl_slots bl)[j := (bl_slots bl ! j)\<lparr>ls_state := ?old OR READ\<rparr>]\<rparr>) (ly_chan s)) s"
  let ?s = "l_own i None (l_baton b (if ?old AND DESTROY \<noteq> 0 then Held i else ly_baton s b) ?s1)"
  note B = mark_read [OF c h w j bl(1) refl refl]
  have j30: "j + 1 \<le> 30" using bl(3) j mod_less_divisor [of 31 h] by simp
  show ?thesis
  proof (cases "?old AND DESTROY = 0")
    case True
    have "?s = l_own i None ?s1" using True by (simp add: l_baton_def l_own_def l_set_def)
    moreover have "l_at ?s i (ListRet ?a)" using B(6) d True by (simp add: l_at_def no_duties_def)
    ultimately show ?thesis
      using out_good [OF B(1,2), of "ListRet ?a"] True
      by (simp add: list_recv_mark_def slot_or_live [OF bl(1,2)] del: l_out.simps)
  next
    case False
    have "l_at ?s i (VScan ?a b (j + 1))"
      using B(4-6) d False j30 by (auto simp: l_at_def no_duties_def)
    from out_good [OF B(1,2) this] False show ?thesis
      by (simp add: list_recv_mark_def slot_or_live [OF bl(1,2)] del: l_out.simps)
  qed
qed

section \<open>Destroying\<close>

lemma scan_out:
  assumes c: "chain s" and d: "duties_of s i = no_duties\<lparr>du_blocks := {b}\<rparr>"
    and j: "j \<le> 30" and n: "nth_block s b n" and f: "\<And>l. l < j \<Longrightarrow> finished s (31 * n + l)"
  shows "l_out s i (list_scan a b j s)"
proof -
  have bt: "ly_baton s b = Held i" using duties_sel(3) [OF d] by simp
  have b: "b = ly_blocks s ! n" using n by (simp add: nth_block_def)
  obtain bl where bl: "l_heap s b = Some bl" "block_ok s n bl" using held_block [OF c n bt] by metis
  show ?thesis
  proof (cases "j < 30")
    case True
    have sl: "j < length (bl_slots bl)" "slot_ok s (Held i) (31 * n + j) (bl_slots bl ! j)"
      using bl(2) True bt b by (simp_all add: block_ok_def)
    let ?free = "ls_state (bl_slots bl ! j) AND READ = 0"
    have "finished s (31 * n + j)" if "\<not> ?free"
      using sl(2) that by (simp add: slot_ok_def state_bits)
    then have "\<not> ?free \<Longrightarrow> l < Suc j \<Longrightarrow> finished s (31 * n + l)" for l using f by (auto simp: less_Suc_eq)
    then have "l_at s i (if ?free then VFlag a b j else VScan a b (j + 1))"
      using d n f True by (auto simp: l_at_def)
    from l_stay_out [OF c this] True bl(1) sl(1) show ?thesis
      by (simp add: list_scan_def get_slot_def get_block_def index_simps del: l_out.simps)
  next
    case False
    with j have "j = 30" by simp
    note B = free_block [OF c n bt f [unfolded this] refl]
    have "l_at (l_baton b Gone (l_set ((ly_chan s)\<lparr>lc_heap := (l_heap s)(b := None)\<rparr>) s)) i (ListRet a)"
      using B(4) d by (simp add: l_at_def no_duties_def)
    from out_good [OF B(1,2) this] False bl(1) show ?thesis
      by (simp add: list_scan_def list_free_def index_simps del: l_out.simps)
  qed
qed

lemma flag_out:
  assumes c: "chain s" and d: "duties_of s i = no_duties\<lparr>du_blocks := {b}\<rparr>"
    and j: "j < 30" and n: "nth_block s b n" and f: "\<And>l. l < j \<Longrightarrow> finished s (31 * n + l)"
  shows "l_out s i (list_flag a b j s)"
proof -
  have bt: "ly_baton s b = Held i" using duties_sel(3) [OF d] by simp
  obtain bl where bl: "l_heap s b = Some bl" "block_ok s n bl" using held_block [OF c n bt] by metis
  have len: "j < length (bl_slots bl)" using bl(2) j by (simp add: block_ok_def)
  let ?old = "ls_state (bl_slots bl ! j)"
  let ?s1 = "l_set (set_block (Some b) (bl\<lparr>bl_slots :=
      (bl_slots bl)[j := (bl_slots bl ! j)\<lparr>ls_state := ?old OR DESTROY\<rparr>]\<rparr>) (ly_chan s)) s"
  let ?s = "l_baton b (if ?old AND READ = 0 then Left j else Held i) ?s1"
  note B = set_destroy [OF c n bt j f bl(1) refl refl]
  show ?thesis
  proof (cases "?old AND READ = 0")
    case True
    have "l_at ?s i (ListRet a)" using B(7) d True by (simp add: l_at_def no_duties_def)
    from out_good [OF B(1,2) this] True show ?thesis
      by (simp add: list_flag_def slot_or_live [OF bl(1) len] del: l_out.simps)
  next
    case False
    have "(ly_baton s)(b := Held i) = ly_baton s" using bt by (simp add: fun_upd_idem)
    then have "?s = ?s1" using False by (simp add: l_baton_def l_set_def)
    moreover have "l < Suc j \<Longrightarrow> finished s (31 * n + l)" for l using f B(6) [OF _ False] by (auto simp: less_Suc_eq)
    then have "l_at ?s i (VScan a b (j + 1))"
      using B(4,5,7) d n j False unfolding l_at_def by (auto simp: no_duties_def)
    ultimately show ?thesis
      using out_good [OF B(1,2), of "VScan a b (j + 1)"] False
      by (simp add: list_flag_def slot_or_live [OF bl(1) len] del: l_out.simps)
  qed
qed

section \<open>The other steps\<close>

text \<open>The task wakers neither panic nor touch the list.\<close>

lemma update_loop_safe: "positive_update_loop ws prev a \<noteq> Panic \<and> positive_update_loop ws prev a \<noteq> Fault"
  by (induction ws arbitrary: prev) (simp_all add: positive_update_loop.simps)

lemma list_register_safe: "register Q ws (Some t) w \<noteq> Panic \<and> register Q ws (Some t) w \<noteq> Fault"
  using update_loop_safe [of ws]
  by (auto simp: register_def wk_def positive_update_def split: option.splits if_splits
      elim!: obind.elims [of _ _ Panic] obind.elims [of _ _ Fault])

lemma list_wake_loop_safe: "wake_all_loop Q n w \<noteq> Panic \<and> wake_all_loop Q n w \<noteq> Fault"
  by (induction n arbitrary: w) (auto split: option.splits)

lemma obind_l_out:
  assumes "x \<noteq> Panic" "x \<noteq> Fault" "\<And>y. x = Done y \<Longrightarrow> l_out s i (f y)"
  shows "l_out s i (obind x f)"
  using assms by (cases x) simp_all

lemma list_task_out:
  assumes c: "chain s" and d: "duties_of s i = no_duties"
  shows "l_out s i (list_poll_first t s)" "l_out s i (list_poll_update ws t s)"
    "l_out s i (list_poll_register Q ws t s)" "l_out s i (list_shut_wake Q s)"
proof -
  note calm = l_calm_out [OF _ c] and d = d
  show "l_out s i (list_poll_first t s)"
    unfolding list_poll_first_def using d
    by (cases "lc_first (ly_chan s)") (auto intro!: calm simp: l_at_def simp del: l_out.simps)
  show "l_out s i (list_poll_update ws t s)"
    unfolding list_poll_update_def Let_def positive_update_def using update_loop_safe [of ws] d
    by (intro obind_l_out) (auto intro!: calm simp: l_at_def simp del: l_out.simps split: if_splits)
  show "l_out s i (list_poll_register Q ws t s)"
    unfolding list_poll_register_def using list_register_safe [of Q ws t] d
    by (intro obind_l_out calm) (auto simp: l_at_def simp del: l_out.simps)
  show "l_out s i (list_shut_wake Q s)"
    unfolding list_shut_wake_def wake_all_def using list_wake_loop_safe [of Q] d
    by (intro obind_l_out calm; auto simp: l_at_def simp del: l_out.simps)
qed

lemma list_shut_or_out:
  assumes c: "chain s" and d: "duties_of s i = no_duties"
  shows "l_out s i (list_shut_or s)"
proof -
  note B = close_tail [OF c refl]
  let ?s = "l_set ((ly_chan s)\<lparr>lc_tail := (l_tail s)\<lparr>po_index := po_index (l_tail s) OR MARK_BIT\<rparr>\<rparr>) s"
  have "l_at ?s i (if po_index (l_tail s) AND MARK_BIT = 0 then EWake else ListRet (AnsShutdown False))"
    using B(4) d by (simp add: l_at_def)
  from out_good [OF B(1,2) this] show ?thesis by (simp only: list_shut_or_def Let_def)
qed

lemma list_len_of_result: "list_len_of tail head = Panic \<or> (\<exists>n. list_len_of tail head = Done n)"
proof -
  have s: "sub_chk x y = Panic \<or> (\<exists>z. sub_chk x y = Done z)" "add_chk x y = Panic \<or> (\<exists>z. add_chk x y = Done z)" for x y
    by (simp_all add: sub_chk_def add_chk_def)
  have o: "obind x g = Panic \<or> (\<exists>n. obind x g = Done n)"
    if "x = Panic \<or> (\<exists>y. x = Done y)" "\<And>y. g y = Panic \<or> (\<exists>n. g y = Done n)" for x :: "'x outcome" and g :: "'x \<Rightarrow> 'y outcome"
    using that(1) that(2) by (elim disjE exE) simp_all
  have o2: "obind x (\<lambda>(a, b). g a b) = Panic \<or> (\<exists>n. obind x (\<lambda>(a, b). g a b) = Done n)"
    if "x = Panic \<or> (\<exists>y. x = Done y)" "\<And>a b. g a b = Panic \<or> (\<exists>n. g a b = Done n)"
    for x :: "('x \<times> 'z) outcome" and g :: "'x \<Rightarrow> 'z \<Rightarrow> 'y outcome"
    using o [OF that(1), of "\<lambda>(a, b). g a b"] that(2) by auto
  have i: "obind (if unat t = BLOCK_CAP then add_chk t 1 else Done t) (\<lambda>t4. obind (sub_chk t4 h) (\<lambda>n. f n t4)) = Panic
      \<or> (\<exists>n. obind (if unat t = BLOCK_CAP then add_chk t 1 else Done t) (\<lambda>t4. obind (sub_chk t4 h) (\<lambda>n. f n t4)) = Done n)"
    if "\<And>n t. f n t = Panic \<or> (\<exists>x. f n t = Done x)" for t h :: usize and f :: "usize \<Rightarrow> usize \<Rightarrow> usize outcome"
    by (intro o that s) (simp add: s)
  have p: "(if b then omap (\<lambda>t. (0, t)) (sub_chk x y) else Done (z, x)) = Panic
      \<or> (\<exists>r. (if b then omap (\<lambda>t. (0, t)) (sub_chk x y) else Done (z, x)) = Done r)" for b and x y z :: usize
    using s(1) [of x y] by auto
  show ?thesis
    unfolding list_len_of_def Let_def
    by (intro o2 p i s)
qed

lemma len_check_cases:
  assumes c: "chain s" and d: "duties_of s i = no_duties"
  shows "list_len_check tail head s = Panic \<or> l_out s i (list_len_check tail head s)"
proof -
  have "l_at s i NTail" using d by (simp add: l_at_def)
  with l_stay_out [OF c] idle_at(2) [OF d] list_len_of_result [of tail head] show ?thesis
    by (auto simp: list_len_check_def simp del: l_out.simps)
qed

lemma head_counted:
  assumes c: "chain s" and d: "duties_of s i = no_duties" and t: "sees_ltail s tail j g e"
  shows "l_at s i (NCheck tail (po_index (l_head s)) (l_sent s - ly_taken s))"
proof -
  note H = head_okD [OF chainD(3) [OF c]]
  have "head_before (po_index (l_head s)) j g (l_sent s - ly_taken s)" if w: "po_index (l_tail s) = tail"
  proof -
    have tw: "tail = iw (place j g) e" "gap_ok j g" "j \<le> l_sent s" using t by (simp_all add: sees_ltail_def)
    from tail_word_place [OF c tw(2,3)] w tw(1) have N: "l_sent s = j" "(ly_tgap s \<noteq> None) = g" by auto
    obtain mk where "po_index (l_head s) = iw (place (ly_taken s) (ly_hgap s \<noteq> None)) mk" using H(3) by blast
    moreover have "g \<longrightarrow> ly_taken s = j \<longrightarrow> ly_hgap s \<noteq> None" using H(4) unfolding N by auto
    ultimately show ?thesis
      using H(1,2) N(1) unfolding head_before_def
      by (intro exI [of _ "ly_taken s"] exI [of _ "ly_hgap s \<noteq> None"] exI [of _ mk] conjI) simp_all
  qed
  with d t show ?thesis by (auto simp: l_at_def)
qed

text \<open>A call of \<open>len\<close> that has loaded the head may panic, and no other call.\<close>

fun counts :: "('m, 't) list_pc \<Rightarrow> bool" where
  "counts (NCheck tail head n) \<longleftrightarrow> True"
| "counts _ \<longleftrightarrow> False"

lemma list_go_out:
  assumes c: "chain s" and at: "l_at s i pc"
  shows "l_out s i (list_go Q ws i s pc) \<or> counts pc \<and> list_go Q ws i s pc = Panic"
proof -
  have d: "duties_of s i = pc_duties pc" and k: "l_knows s i pc" using at by (simp_all add: l_at_def)
  have "l_out s i (list_go Q ws i s pc)" if "\<not> counts pc"
  proof (cases pc)
    case (ULoad k m nb)
    have "l_at s i (UBlock k m nb (po_index (l_tail s)))"
      using d ULoad tail_seen [OF c] by (auto simp: l_at_def)
    with ULoad l_stay_out [OF c] show ?thesis by (simp del: l_out.simps)
  next
    case (UBlock k m nb tail)
    with send_block_out [OF c] d k show ?thesis by auto
  next
    case (USwap k m nb tail new)
    with send_swap_out [OF c] d k show ?thesis by simp
  next
    case (UHead k m nb tail new)
    with send_head_out [OF c] d k show ?thesis by simp
  next
    case (UCas k m nb tail b)
    with k obtain j where "sees_ltail s tail j False False" "j = l_sent s \<Longrightarrow> nth_block s b (j div 31)"
      "j mod 31 = 30 \<Longrightarrow> nb \<noteq> None" by auto
    with send_cas_out [OF c _ this] UCas d show ?thesis by simp
  next
    case (UStore a m b new)
    with install_store_out [OF c] d k show ?thesis by auto
  next
    case (UAdd a m b new)
    with install_add_out [OF c] d k show ?thesis by auto
  next
    case (ULink a m b new)
    with install_link_out [OF c] d k show ?thesis by auto
  next
    case (UWrite a m b j)
    with list_send_write_out [OF c] d k show ?thesis by auto
  next
    case (UState a b j)
    with send_state_out [OF c] d k show ?thesis by auto
  next
    case (UWake a)
    then have "l_at s i (ListRet a)" using d by (simp add: idle_at)
    with UWake l_calm_out [OF _ c] show ?thesis by (simp add: list_send_wake_def del: l_out.simps)
  next
    case (VLoad k)
    with l_stay_out [OF c head_seen_at [OF c]] d show ?thesis by (simp del: l_out.simps)
  next
    case (VBlock k head)
    with recv_block_out [OF c] d k show ?thesis by auto
  next
    case (VTail k head block)
    with \<open>l_knows s i pc\<close> obtain j where "sees_lhead s head j False False"
      "\<And>b. block = Some b \<Longrightarrow> po_block (l_head s) \<noteq> None \<and> (j = ly_taken s \<longrightarrow> nth_block s b (j div 31))" by auto
    with recv_tail_out [OF c _ this] VTail d show ?thesis by simp
  next
    case (VCas k head new b)
    with \<open>l_knows s i pc\<close> obtain j mk mk' where "po_block (l_head s) \<noteq> None" "sees_lhead s head j False mk"
      "j = ly_taken s \<Longrightarrow> nth_block s b (j div 31)" "new = iw (Suc (lidx j)) mk'" "j < l_sent s"
      "mk' \<Longrightarrow> 31 * Suc (j div 31) \<le> l_sent s" by auto
    with recv_cas_out [OF c _ this] VCas d show ?thesis by simp
  next
    case (VNext k b new)
    with recv_next_out [OF c] d k show ?thesis by auto
  next
    case (VPeek k b new nx)
    with recv_peek_out [OF c] d \<open>l_knows s i pc\<close> show ?thesis by auto
  next
    case (VHead k b ix nx)
    with \<open>l_knows s i pc\<close> obtain h mk where "moves_head s i b h" "ix = lw (Suc h) mk"
      "mk \<Longrightarrow> 31 * Suc (Suc h div 31) \<le> l_sent s" "linked s (h div 31)" "nth_block s nx (Suc (h div 31))" by auto
    with recv_head_out [OF c _ this] VHead d show ?thesis by simp
  next
    case (VIndex k b ix)
    with \<open>l_knows s i pc\<close> obtain h mk where "moves_head s i b h" "ix = lw (Suc h) mk"
      "mk \<Longrightarrow> 31 * Suc (Suc h div 31) \<le> l_sent s" "linked s (h div 31)"
      "po_block (l_head s) = Some (ly_blocks s ! Suc (h div 31))" by auto
    with recv_index_out [OF c _ this] VIndex d show ?thesis by simp
  next
    case (VWait k b j)
    with recv_wait_out [OF c] d k show ?thesis by auto
  next
    case (VRead k b j)
    with list_recv_read_out [OF c] d \<open>l_knows s i pc\<close> show ?thesis by auto
  next
    case (VMark k b j m)
    with recv_mark_out [OF c] d \<open>l_knows s i pc\<close> show ?thesis by auto
  next
    case (VScan a b j)
    with scan_out [OF c] d k show ?thesis by auto
  next
    case (VFlag a b j)
    with flag_out [OF c] d k show ?thesis by auto
  next
    case EOr
    with list_shut_or_out [OF c] d show ?thesis by simp
  next
    case EIs
    with l_stay_out [OF c idle_at(2)] d show ?thesis by (simp del: l_out.simps)
  next
    case NTail
    have "l_at s i (NHead (po_index (l_tail s)))" using d NTail tail_seen [OF c] by (simp add: l_at_def) blast
    with NTail l_stay_out [OF c] show ?thesis by (simp del: l_out.simps)
  next
    case (NHead tail)
    then have "l_at s i (NCheck tail (po_index (l_head s)) (l_sent s - ly_taken s))"
      using d k head_counted [OF c] by auto
    with NHead l_stay_out [OF c] show ?thesis by (simp del: l_out.simps)
  qed (use list_task_out [OF c] d that in simp_all)
  moreover have "list_go Q ws i s pc = Panic \<or> l_out s i (list_go Q ws i s pc)" if "counts pc"
    using that len_check_cases [OF c] d by (cases pc) simp_all
  ultimately show ?thesis by blast
qed

lemma list_first_pc_at: "duties_of s i = no_duties \<Longrightarrow> l_at s i (list_first_pc c)"
  by (cases c) (simp_all add: l_at_def)

lemma list_step_out:
  assumes c: "chain s" and at: "l_at s i pc"
  shows "l_out s i (list_step Q inp i s pc) \<or> counts pc \<and> list_step Q inp i s pc = Panic"
proof (cases inp)
  case (ListCall c')
  have "pc = ListIdle \<Longrightarrow> duties_of s i = no_duties" using at by (simp add: l_at_def)
  with l_stay_out [OF c list_first_pc_at] ListCall show ?thesis
    by (cases "pc = ListIdle") (simp_all del: l_out.simps(1,3,4))
next
  case ListTake
  have "l_at s i ListIdle" if "pc = ListRet a" for a using at that by (simp add: l_at_def)
  with l_stay_out [OF c] ListTake show ?thesis
    by (auto simp del: l_out.simps simp: l_out.simps(2) split: list_pc.splits)
next
  case (ListGo ws)
  with list_go_out [OF c at] show ?thesis by simp
qed

interpretation chain_inv: interference_free "within few (list_step Q)" chain l_at
  for Q :: "('q, 't) aq_ops"
proof unfold_locales
  fix s s' :: "('q, 't, 'm) lsys" and i j inp and pc pc' q :: "('m, 't) list_pc"
  assume a: "chain s" "l_at s i pc" "within few (list_step Q) inp i s pc = Done (s', pc')"
  then have st: "list_step Q inp i s pc = Done (s', pc')" "few s'" by (simp_all add: within_eq_Done)
  with list_step_out [OF a(1,2), of Q inp] have g: "l_good s i s' pc'" by auto
  then show "chain s' \<and> l_at s' i pc'" by (simp add: l_good_def)
  show "l_at s' j q" if "j \<noteq> i" "l_at s j q"
    using g l_at_guar [OF _ that(1) a(1) _ that(2)] by (auto simp: l_good_def)
qed

text \<open>The log only grows.\<close>

lemma box_drop_log: "box_drop nb s = Done s' \<Longrightarrow> ly_log s' = ly_log s"
  by (auto simp: box_drop_def outcome_simps split: option.splits)

lemma few_before:
  assumes "list_step Q inp i s pc = Done (s', pc')" "few s'"
  shows "few s"
proof -
  have "l_sent s \<le> l_sent s'" if "list_go Q ws i s pc = Done (s', pc')" for ws
    using that
    by (cases pc) (auto dest!: box_drop_log simp: list_send_block_def list_send_swap_def list_send_head_def list_send_cas_def
        list_install_store_def list_install_add_def list_install_link_def list_send_write_def slot_or_def
        list_send_state_def list_send_wake_def list_recv_block_def list_recv_tail_def list_recv_cas_def
        list_recv_next_def list_recv_peek_def list_recv_head_def list_recv_index_def list_recv_wait_def
        list_recv_read_def list_recv_mark_def list_scan_def list_flag_def list_poll_first_def
        list_poll_update_def list_poll_register_def list_shut_or_def list_shut_wake_def list_len_check_def
        Let_def l_own_def l_set_def l_baton_def box_new_def list_alloc_def outcome_simps
        split: if_splits option.splits)
  then have "l_sent s \<le> l_sent s'"
    using assms(1) by (cases inp) (auto split: if_splits list_pc.splits)
  with assms(2) show ?thesis by (simp add: few_def)
qed

text \<open>A new channel.\<close>

lemma lsys_new_good:
  "chain (lsys_new (list_new Q))" "l_at (lsys_new (list_new Q)) i (ListIdle :: ('m, 't) list_pc)"
proof -
  show "chain (lsys_new (list_new Q))"
    by (simp add: chain_def few_def tail_ok_def head_ok_def lowners_ok_def heap_ok_def blocks_ok_def
        lsys_new_def list_new_def list_is_shutdown_def finished_def lidx_def)
      (intro exI [of _ False], simp)
  show "l_at (lsys_new (list_new Q)) i (ListIdle :: ('m, 't) list_pc)"
    by (simp add: l_at_def duties_of_def no_duties_def lsys_new_def)
qed

end
