(* ===== verification/List_Len.thy ===== *)
theory List_Len
  imports List_Ring
begin

text \<open>
  What \<open>len\<close> of the unbounded channel computes from a tail and a head that were loaded
  while other threads moved them: the number of messages between them, except when both
  are at the end of the same block, where a subtraction overflows.
\<close>

unbundle bit_operations_syntax

lemma sub_chk_nat:
  "n \<le> m \<Longrightarrow> m < 2 ^ 64 \<Longrightarrow> sub_chk (of_nat m) (of_nat n) = Done (of_nat (m - n))"
  by (simp add: sub_chk_def word_le_nat_alt of_nat_diff)

lemma sub_chk_panic: "m < n \<Longrightarrow> n < 2 ^ 64 \<Longrightarrow> sub_chk (of_nat m) (of_nat n) = Panic"
  by (simp add: sub_chk_def word_le_nat_alt)

text \<open>The indices rotated so that the head falls into the first block.\<close>

lemma rotated:
  assumes "Q div 32 * 32 \<le> R" "R < 2 ^ 63" "Q < 2 ^ 63"
  shows "drop_bit 1 (iw R False - push_bit 1 (of_nat (unat (drop_bit 1 (iw Q False)) div 32 * 32)))
      = of_nat (R - Q div 32 * 32)"
proof -
  have q: "unat (drop_bit 1 (iw Q False)) div 32 * 32 = Q div 32 * 32"
    using assms(3) by (simp only: One_nat_def unat_drop_iw mod_less)
  have "push_bit 1 (of_nat (Q div 32 * 32)) = iw (Q div 32 * 32) False"
    by (simp add: iw_def push_bit_eq_mult)
  then have "iw R False - push_bit 1 (of_nat (Q div 32 * 32)) = iw (R - Q div 32 * 32) False"
    using assms(1) by (simp only: iw_sub)
  moreover have "unat (drop_bit 1 (iw (R - Q div 32 * 32) False)) = R - Q div 32 * 32"
    using assms(2) by (simp only: One_nat_def unat_drop_iw) simp
  moreover have "w = of_nat n" if "unat w = n" for w :: usize and n using that by auto
  ultimately show ?thesis by (simp only: q)
qed

text \<open>The last lines of \<open>len\<close>.\<close>

definition len_end :: "nat \<Rightarrow> nat \<Rightarrow> usize outcome" where
  "len_end x y =
     (let x' = if x = 31 then 32 else x in
      obind (sub_chk (of_nat x') (of_nat y)) (\<lambda>n. sub_chk n (of_nat (x' div 32))))"

lemma len_of_raw:
  assumes "Q \<le> R" "R < 2 ^ 63"
  shows "list_len_of (iw R d) (iw Q mk) =
    (let x = R - Q div 32 * 32 in
     if Q mod 32 = 31 then (if x < 32 then Panic else len_end (x - 32) 0) else len_end x (Q mod 32))"
proof -
  define x where "x = R - Q div 32 * 32"
  have q: "Q div 32 * 32 \<le> R" "Q < 2 ^ 63" using assms by (simp_all add: order_trans [OF div_times_less_eq_dividend])
  have low: "one_shift - 1 = (1 :: usize)" by simp
  have t: "drop_bit SHIFT ((iw R d AND NOT 1) - push_bit SHIFT
      (of_nat (unat (drop_bit SHIFT (iw Q mk AND NOT 1)) div LAP * LAP))) = of_nat x"
    unfolding iw_and_not_mark SHIFT_def LAP_def x_def by (rule rotated [OF q(1) assms(2) q(2)])
  have h: "drop_bit SHIFT ((iw Q mk AND NOT 1) - push_bit SHIFT
      (of_nat (unat (drop_bit SHIFT (iw Q mk AND NOT 1)) div LAP * LAP))) = of_nat (Q mod 32)"
    unfolding iw_and_not_mark SHIFT_def LAP_def
    by (subst rotated [OF div_times_less_eq_dividend q(2) q(2)]) (simp only: minus_div_mult_eq_mod)
  have small: "x < 2 ^ 64" using assms(2) by (simp add: x_def)
  have fin: "obind (if unat (of_nat x :: usize) = BLOCK_CAP then add_chk (of_nat x) 1 else Done (of_nat x)) (\<lambda>tail4.
      obind (sub_chk tail4 (of_nat y)) (\<lambda>n. sub_chk n (of_nat (unat tail4 div LAP)))) = len_end x y"
    if "x < 2 ^ 64" for x y
  proof -
    have u: "unat (of_nat x :: usize) = x" using that by simp
    show ?thesis
    proof (cases "x = 31")
      case True
      have "add_chk (of_nat 31) 1 = Done (of_nat 32)" by (simp add: add_chk_def)
      with True show ?thesis by (simp add: len_end_def index_simps)
    next
      case False
      with u show ?thesis by (simp add: len_end_def index_simps)
    qed
  qed
  have B: "unat (of_nat (Q mod 32) :: usize) = Q mod 32" by simp
  have "list_len_of (iw R d) (iw Q mk) =
     (if Q mod 32 = 31 then (if x < 32 then Panic else len_end (x - 32) 0) else len_end x (Q mod 32))"
  proof (cases "Q mod 32 = 31")
    case True
    have "sub_chk (of_nat x) (of_nat LAP) = (if x < 32 then Panic else Done (of_nat (x - 32)))"
      using small sub_chk_nat [of 32 x] sub_chk_panic [of x 32] by (auto simp: LAP_def)
    with fin [of "x - 32" 0] small True show ?thesis
      unfolding list_len_of_def low Let_def t h B by (simp add: BLOCK_CAP_def LAP_def del: of_nat_diff)
  next
    case False
    with fin [OF small] show ?thesis
      unfolding list_len_of_def low Let_def t h B by (simp add: BLOCK_CAP_def LAP_def)
  qed
  then show ?thesis by (simp only: Let_def x_def)
qed

lemma len_end_done:
  assumes "y \<le> x" "x < 2 ^ 63" "y < 32" "x div 32 \<le> x - y"
  shows "len_end x y = Done (of_nat (if x = 31 then 31 - y else x - y - x div 32))"
proof -
  let ?x = "if x = 31 then 32 else x"
  have b: "y \<le> ?x" "?x < 2 ^ 64" "?x div 32 \<le> ?x - y" "?x - y < 2 ^ 64" using assms by auto
  have "len_end x y = Done (of_nat (?x - y - ?x div 32))"
    unfolding len_end_def Let_def sub_chk_nat [OF b(1,2)] obind.simps by (rule sub_chk_nat [OF b(3,4)])
  then show ?thesis by simp
qed

text \<open>The result for a head and a tail at their places.\<close>

lemma len_of_places:
  assumes g: "gap_ok t g" "gap_ok h hg" "h \<le> t" "g \<Longrightarrow> h = t \<Longrightarrow> hg" and small: "t < 2 ^ 62"
  shows "list_len_of (iw (place t g) d) (iw (place h hg) mk) =
    (if g \<and> hg \<and> h = t then Panic else Done (of_nat (t - h)))"
proof -
  let ?R = "place t g" and ?Q = "place h hg"
  have R: "?R < 2 ^ 63" using place_less [OF small] .
  define tn tr where "tn = (t - of_bool g) div 31" and "tr = (if g then 31 else t mod 31)"
  define hn hr where "hn = (h - of_bool hg) div 31" and "hr = (if hg then 31 else h mod 31)"
  have dm: "?R div 32 = tn" "?R mod 32 = tr" "?Q div 32 = hn" "?Q mod 32 = hr"
    using place_div [OF g(1)] place_mod [OF g(1)] place_div [OF g(2)] place_mod [OF g(2)]
    by (simp_all add: tn_def tr_def hn_def hr_def)
  have RQ: "?R = 32 * tn + tr" "?Q = 32 * hn + hr"
    using div_mod_decomp [of ?R 32] div_mod_decomp [of ?Q 32] dm by simp_all
  have th: "t = 31 * tn + tr" "h = 31 * hn + hr"
  proof -
    show "t = 31 * tn + tr"
    proof (cases g)
      case True
      with g(1) obtain n where "t = 31 * Suc n" using place_gap by metis
      moreover from this have "(t - 1) div 31 = n" by simp
      ultimately show ?thesis using True by (simp add: tn_def tr_def)
    qed (use div_mod_decomp [of t 31] in \<open>simp add: tn_def tr_def\<close>)
    show "h = 31 * hn + hr"
    proof (cases hg)
      case True
      with g(2) obtain n where "h = 31 * Suc n" using place_gap by metis
      moreover from this have "(h - 1) div 31 = n" by simp
      ultimately show ?thesis using True by (simp add: hn_def hr_def)
    qed (use div_mod_decomp [of h 31] in \<open>simp add: hn_def hr_def\<close>)
  qed
  have tr: "tr \<le> 31" "tr = 31 \<longleftrightarrow> g" "hr \<le> 31" "hr = 31 \<longleftrightarrow> hg"
    using mod_less_divisor [of 31 t] mod_less_divisor [of 31 h] by (auto simp: tr_def hr_def)
  have n: "hn < tn \<or> hn = tn \<and> hr \<le> tr"
  proof (rule ccontr)
    assume no: "\<not> (hn < tn \<or> hn = tn \<and> hr \<le> tr)"
    then have "tn < hn \<or> hn = tn \<and> tr < hr" by auto
    moreover have "\<not> (hn = tn \<and> tr < hr)" using g(3) th by auto
    ultimately have lt: "tn < hn" by blast
    then have "31 * tn + 31 \<le> 31 * hn" by simp
    with g(3) th tr have "hr = 0" "tr = 31" "h = t" by linarith+
    with tr g(4) show False by simp
  qed
  then have QR: "?Q \<le> ?R" using RQ tr by auto
  obtain k where k: "tn = hn + k" using n by (metis le_Suc_ex less_or_eq_imp_le)
  have x: "?R - hn * 32 = 32 * k + tr" using RQ(1) k by simp
  have R': "32 * k + tr < 2 ^ 63" using R RQ(1) k by simp
  have main: "list_len_of (iw ?R d) (iw ?Q mk) =
      (if hr = 31 then (if 32 * k + tr < 32 then Panic else len_end (32 * k + tr - 32) 0) else len_end (32 * k + tr) hr)"
    unfolding len_of_raw [OF QR R] Let_def dm x by simp
  show ?thesis
  proof (cases hg)
    case True
    then have h31: "hr = 31" using tr by simp
    show ?thesis
    proof (cases k)
      case 0
      then have "tr = 31" using n k h31 tr by auto
      with 0 h31 th k tr True show ?thesis unfolding main by simp
    next
      case (Suc l)
      have "(32 * l + tr) div 32 = l" using tr(1) by simp
      then have e: "(if 32 * l + tr = 31 then 31 - 0 else 32 * l + tr - 0 - (32 * l + tr) div 32) = 31 * l + tr"
        by auto
      have "(32 * l + tr) div 32 \<le> 32 * l + tr - 0" "32 * l + tr < 2 ^ 63" using R' Suc by simp_all
      then have "len_end (32 * l + tr) 0 = Done (of_nat (31 * l + tr))"
        using len_end_done [of 0 "32 * l + tr"] unfolding e by simp
      moreover have "t - h = 31 * l + tr" "\<not> (g \<and> hg \<and> h = t)" using th k Suc h31 tr(1,2) by auto
      ultimately show ?thesis unfolding main using Suc h31 by (simp del: of_nat_add of_nat_mult)
    qed
  next
    case False
    then have hr: "hr < 31" using tr by auto
    have d: "(32 * k + tr) div 32 = k" using tr(1) by simp
    have le: "hr \<le> 32 * k + tr" "k \<le> 32 * k + tr - hr" using n k hr by auto
    have e: "(if 32 * k + tr = 31 then 31 - hr else 32 * k + tr - hr - k) = 31 * k + tr - hr"
      using tr(1) by auto
    have "len_end (32 * k + tr) hr = Done (of_nat (31 * k + tr - hr))"
      using len_end_done [of hr "32 * k + tr"] R' hr le unfolding d e by simp
    moreover have "t - h = 31 * k + tr - hr" using th k by simp
    ultimately show ?thesis unfolding main using hr False by (simp del: of_nat_add of_nat_mult of_nat_diff)
  qed
qed

end
