(* ===== verification/List_Lin.thy ===== *)
theory List_Lin
  imports List_Steps List_Len Atomic_Chan
begin

text \<open>
  The concurrent unbounded channel implements the atomic one of \<open>Atomic_Chan\<close>: a send
  takes effect when its exchange of the tail index succeeds, a receive when its exchange
  of the head index succeeds, and a receive that finds nothing when it loads the tail.
\<close>

unbundle bit_operations_syntax

section \<open>The abstraction\<close>

text \<open>The message that the slot a thread holds is for.\<close>

definition reading :: "('q, 't, 'm) lsys \<Rightarrow> nat \<Rightarrow> 'm" where
  "reading s i = ly_log s ! snd (the (ly_own s i))"

definition received :: "('q, 't, 'm) lsys \<Rightarrow> nat \<Rightarrow> 't receiver \<Rightarrow> ('m, 't) call_status" where
  "received s i k = Decided (recv_answer k (Some (reading s i)))"

fun list_status :: "('q, 't, 'm) lsys \<Rightarrow> nat \<Rightarrow> ('m, 't) list_pc \<Rightarrow> ('m, 't) call_status" where
  "list_status s i ListIdle = Away"
| "list_status s i (ULoad k m nb) = Pending (CSend k m)"
| "list_status s i (UBlock k m nb tail) = Pending (CSend k m)"
| "list_status s i (USwap k m nb tail new) = Pending (CSend k m)"
| "list_status s i (UHead k m nb tail new) = Pending (CSend k m)"
| "list_status s i (UCas k m nb tail b) = Pending (CSend k m)"
| "list_status s i (UStore a m b new) = Decided a"
| "list_status s i (UAdd a m b new) = Decided a"
| "list_status s i (ULink a m b new) = Decided a"
| "list_status s i (UWrite a m b j) = Decided a"
| "list_status s i (UState a b j) = Decided a"
| "list_status s i (UWake a) = Decided a"
| "list_status s i (VLoad k) = Pending (recv_call k)"
| "list_status s i (VBlock k head) = Pending (recv_call k)"
| "list_status s i (VTail k head b) = Pending (recv_call k)"
| "list_status s i (VCas k head new b) = Pending (recv_call k)"
| "list_status s i (VNext k b new) = received s i k"
| "list_status s i (VPeek k b new next) = received s i k"
| "list_status s i (VHead k b ix next) = received s i k"
| "list_status s i (VIndex k b ix) = received s i k"
| "list_status s i (VWait k b j) = received s i k"
| "list_status s i (VRead k b j) = received s i k"
| "list_status s i (VMark k b j m) = Decided (recv_answer k (Some m))"
| "list_status s i (VScan a b j) = Decided a"
| "list_status s i (VFlag a b j) = Decided a"
| "list_status s i (GFirst t) = Tentative (CPoll t) (AnsPoll (Inr NotReady))"
| "list_status s i (GUpdate t) = Tentative (CPoll t) (AnsPoll (Inr NotReady))"
| "list_status s i (GReg t) = Pending (CPoll t)"
| "list_status s i EOr = Pending CShutdown"
| "list_status s i EWake = Decided (AnsShutdown True)"
| "list_status s i EIs = Pending CIsShutdown"
| "list_status s i NTail = Pending CLen"
| "list_status s i (NHead tail) = Pending CLen"
| "list_status s i (NCheck tail head n) = Tentative CLen (AnsLen (of_nat n))"
| "list_status s i (ListRet a) = Decided a"

definition list_msgs :: "('q, 't, 'm) lsys \<Rightarrow> 'm list" where
  "list_msgs s = drop (ly_taken s) (ly_log s)"

definition list_abs :: "('q, 't, 'm) lsys \<times> ('m, 't) list_pc list \<Rightarrow> ('m, 't) atomic_chan" where
  "list_abs c = \<lparr>at_msgs = list_msgs (fst c), at_closed = l_closed (fst c),
     at_calls = map (\<lambda>i. list_status (fst c) i (snd c ! i)) [0..<length (snd c)]\<rparr>"

text \<open>What the step of a thread is in the specification: nothing, or a step of its call.\<close>

definition list_moves ::
    "('q, 't, 'm) lsys \<Rightarrow> nat \<Rightarrow> ('m, 't) list_pc \<Rightarrow> ('q, 't, 'm) lsys \<Rightarrow> ('m, 't) list_pc \<Rightarrow> bool" where
  "list_moves s i pc s' pc' \<longleftrightarrow>
     (let x = (list_msgs s, l_closed s, list_status s i pc);
          y = (list_msgs s', l_closed s', list_status s' i pc') in
      y = x \<or> caller_step None x y)"

text \<open>The calls of the other threads stay where they were.\<close>

lemma list_status_others:
  assumes g: "l_guar i s s'" and j: "j \<noteq> i" and c: "chain s" and at: "l_at s j pc"
  shows "list_status s' j pc = list_status s j pc"
proof -
  have d: "du_slot (pc_duties pc) \<longleftrightarrow> ly_own s j \<noteq> None"
    using duties_sel(1) [of s j "pc_duties pc"] at by (simp add: l_at_def)
  have "received s' j k = received s j k" if "du_slot (pc_duties pc)" for k
  proof -
    from that d obtain e l where o: "ly_own s j = Some (e, l)" by auto
    with owned_sent [OF c o] l_guarD(3) [OF g] l_guar_others(1) [OF g j]
    show ?thesis by (simp add: received_def reading_def)
  qed
  then show ?thesis by (cases pc) (simp_all add: no_duties_def)
qed

lemma list_moves_lift:
  assumes m: "list_moves s i (ps ! i) s' pc'" and i: "i < length ps"
    and rest: "\<And>j. j < length ps \<Longrightarrow> j \<noteq> i \<Longrightarrow> list_status s' j (ps ! j) = list_status s j (ps ! j)"
  shows "list_abs (s', ps[i := pc']) = list_abs (s, ps)
    \<or> atomic_step None (list_abs (s, ps)) (list_abs (s', ps[i := pc']))"
proof -
  have calls: "at_calls (list_abs (s', ps[i := pc'])) = (at_calls (list_abs (s, ps)))[i := list_status s' i pc']"
    using rest i by (intro nth_equalityI) (auto simp: list_abs_def nth_list_update)
  show ?thesis
  proof (cases "list_status s' i pc' = list_status s i (ps ! i) \<and> list_msgs s' = list_msgs s \<and> l_closed s' = l_closed s")
    case True
    then have "at_calls (list_abs (s', ps[i := pc'])) = at_calls (list_abs (s, ps))"
      using calls i by (simp add: list_abs_def list_update_same_conv)
    with True show ?thesis by (simp add: list_abs_def)
  next
    case False
    with m have "caller_step None (list_msgs s, l_closed s, list_status s i (ps ! i))
        (list_msgs s', l_closed s', list_status s' i pc')"
      unfolding list_moves_def Let_def by blast
    with caller [of i "list_abs (s, ps)" None "list_msgs s'" "l_closed s'" "list_status s' i pc'"] i calls
    show ?thesis by (simp add: list_abs_def)
  qed
qed

section \<open>Steps that change nothing\<close>

definition same_msgs :: "('q, 't, 'm) lsys \<Rightarrow> ('q, 't, 'm) lsys \<Rightarrow> bool" where
  "same_msgs s s' \<longleftrightarrow> ly_log s' = ly_log s \<and> ly_taken s' = ly_taken s \<and> l_closed s' = l_closed s"

lemma same_msgsD:
  "same_msgs s s' \<Longrightarrow> list_msgs s' = list_msgs s" "same_msgs s s' \<Longrightarrow> l_closed s' = l_closed s"
  by (simp_all add: same_msgs_def list_msgs_def)

lemma same_msgs_tail:
  "ly_log s' = ly_log s \<Longrightarrow> ly_taken s' = ly_taken s \<Longrightarrow> po_index (l_tail s') = po_index (l_tail s) \<Longrightarrow> same_msgs s s'"
  by (simp add: same_msgs_def list_is_shutdown_def)

lemma same_msgs_refl [simp]: "same_msgs s s"
  by (simp add: same_msgs_def)

lemma l_same_msgs: "l_same s s' \<Longrightarrow> same_msgs s s'"
  by (simp add: l_same_def same_msgs_def list_is_shutdown_def)

lemma box_drop_msgs:
  assumes "box_drop nb s = Done s'"
  shows "same_msgs s s'" "ly_own s' = ly_own s"
  using assms by (auto simp: box_drop_def list_free_def same_msgs_def list_is_shutdown_def outcome_simps
      split: option.splits)

lemma box_new_msgs: "box_new i s = (a, s') \<Longrightarrow> same_msgs s s'"
  by (auto simp: box_new_def list_alloc_def same_msgs_def list_is_shutdown_def)

lemma slot_or_msgs:
  assumes "slot_or b j f s = Done (old, s')"
  shows "same_msgs s s'" "ly_own s' = ly_own s"
  using assms by (auto simp: slot_or_def set_slot_def set_block_def same_msgs_def list_is_shutdown_def l_set_def
      outcome_simps split: if_splits)

lemma still_moves:
  assumes "same_msgs s s'" "list_status s' i pc' = list_status s i pc"
  shows "list_moves s i pc s' pc'"
  using assms same_msgsD [OF assms(1)] by (simp add: list_moves_def)

lemma decide_moves:
  assumes "same_msgs s s'" "undecided (list_status s i pc) c"
    "atomic_call None c (list_msgs s) (l_closed s) = Some (a, list_msgs s, l_closed s)"
    "list_status s' i pc' = Decided a"
  shows "list_moves s i pc s' pc'"
  using effect [OF assms(2,3)] assms(4) same_msgsD [OF assms(1)] by (simp add: list_moves_def)

lemma settle_moves:
  assumes "same_msgs s s'" "list_status s i pc = Tentative c a"
    "list_status s' i pc' = Decided a \<or> list_status s' i pc' = Pending c"
  shows "list_moves s i pc s' pc'"
  using assms(2,3) same_msgsD [OF assms(1)] by (auto simp: list_moves_def Let_def intro: confirm retract)

section \<open>Each step is a step of the specification\<close>

lemma list_answers_agree:
  assumes "list_answer k r = Done a"
  shows "sender_answer k (try_written r) = Some a"
  using assms by (cases k; cases r) (auto simp: try_written_def sink_answer_def outcome_simps is_closed_def
      into_inner_def split: if_splits)

lemma send_block_moves:
  assumes t: "sees_ltail s tail j g e" and st: "list_send_block i k m nb tail s = Done (s', pc')"
  shows "list_moves s i (UBlock k m nb tail) s' pc'"
proof (cases e)
  case True
  then have cl: "l_closed s" "tail AND MARK_BIT \<noteq> 0" using t by (auto simp: sees_ltail_def iw_closed)
  with st obtain a where a: "box_drop nb s = Done s'" "list_answer k (Inl m) = Done a" "pc' = ListRet a"
    by (auto simp: list_send_block_def outcome_simps)
  have "atomic_call None (CSend k m) (list_msgs s) (l_closed s) = Some (a, list_msgs s, l_closed s)"
    using list_answers_agree [OF a(2)] cl(1) by (simp add: spec_try_send_def try_written_def)
  with decide_moves [OF box_drop_msgs(1) [OF a(1)], of i "UBlock k m nb tail"] a(3) show ?thesis by simp
next
  case False
  then have "tail AND MARK_BIT = 0" using t iw_closed [of "place j g" e] by (auto simp: sees_ltail_def)
  with st have "same_msgs s s'" "list_status s' i pc' = Pending (CSend k m)"
    by (auto simp: list_send_block_def Let_def box_new_def list_alloc_def same_msgs_def list_is_shutdown_def
        split: if_splits option.splits prod.splits)
  then show ?thesis by (simp add: still_moves)
qed

lemma send_swap_moves:
  assumes st: "list_send_swap i k m nb tail new s = Done (s', pc')"
  shows "list_moves s i (USwap k m nb tail new) s' pc'"
proof (cases "po_block (l_tail s) = None")
  case True
  with st have "same_msgs s s'" "list_status s' i pc' = Pending (CSend k m)"
    by (auto simp: list_send_swap_def Let_def same_msgs_def list_is_shutdown_def)
  then show ?thesis by (simp add: still_moves)
next
  case False
  with st have s': "box_drop nb s = Done s'" "pc' = ULoad k m (Some new)"
    by (auto simp: list_send_swap_def Let_def outcome_simps)
  from still_moves [OF box_drop_msgs(1) [OF s'(1)]] s'(2) show ?thesis by simp
qed

lemma send_cas_moves:
  assumes c: "chain s" and t: "sees_ltail s tail j False False"
    and st: "list_send_cas w i k m nb tail b s = Done (s', pc')"
  shows "list_moves s i (UCas k m nb tail b) s' pc'"
proof -
  have tw: "tail = lw j False" "j \<le> l_sent s" using t by (simp_all add: sees_ltail_def)
  have add: "add_chk tail one_shift = Done (iw (Suc (lidx j)) False)"
    using add_chk_iw [of "lidx j" False] by (simp add: tw(1))
  show ?thesis
  proof (cases "\<not> w \<and> po_index (l_tail s) = tail")
    case False
    with st add have "s' = s" "pc' = UBlock k m nb (po_index (l_tail s))"
      by (auto simp: list_send_cas_def Let_def)
    then show ?thesis by (simp add: still_moves)
  next
    case True
    then have "po_index (l_tail s) = iw (place j False) False" by (simp add: tw(1))
    note N = tail_word_place [OF c gap_ok_False tw(2) this]
    obtain a where a: "list_answer k (Inr ()) = Done (a :: 'c chan_answer)" using list_answer_total .
    let ?s = "l_own i (Some (True, l_sent s)) (s\<lparr>ly_chan := (ly_chan s)\<lparr>lc_tail :=
        (l_tail s)\<lparr>po_index := iw (Suc (lidx j)) False\<rparr>\<rparr>, ly_log := ly_log s @ [m]\<rparr>)"
    have "same_msgs ?s s' \<and> list_status s' i pc' = Decided a"
      using st True add a
      by (auto simp: list_send_cas_def Let_def outcome_simps same_msgs_tail dest!: box_drop_msgs(1)
          split: if_splits option.splits)
    note s' = conjunct1 [OF this] conjunct2 [OF this]
    have "list_msgs ?s = list_msgs s @ [m]" "\<not> l_closed ?s"
      using head_okD(1) [OF chainD(3) [OF c]] iw_closed [of "Suc (lidx j)" False]
      by (simp_all add: list_msgs_def l_own_def list_is_shutdown_def)
    then have m': "list_msgs s' = list_msgs s @ [m]" "\<not> l_closed s'" using same_msgsD [OF s'(1)] by simp_all
    have "atomic_call None (CSend k m) (list_msgs s) False = Some (a, list_msgs s @ [m], False)"
      using list_answers_agree [OF a] by (simp add: spec_try_send_def try_written_def)
    from effect [of _ "CSend k m", OF _ this] m' s'(2) N(3) show ?thesis by (simp add: list_moves_def)
  qed
qed

lemma recv_tail_moves:
  assumes c: "chain s" and h: "sees_lhead s head j False False"
    and st: "list_recv_tail k head block s = Done (s', pc')"
  shows "list_moves s i (VTail k head block) s' pc'"
  using c h
proof (cases rule: list_new_head_cases)
  case empty
  then have e: "list_msgs s = []" by (simp add: list_msgs_def)
  have s': "s' = s" "pc' = (if l_closed s then ListRet (recv_answer k None) else list_recv_refused k)"
    using st empty(1) by (auto simp: list_recv_tail_def split: bool.splits)
  show ?thesis
    using e s' by (cases k) (auto simp: list_moves_def Let_def spec_try_recv_def poll_answer_def
        intro!: effect observe)
next
  case (some mk)
  with st have "s' = s" "list_status s i pc' = Pending (recv_call k)"
    by (auto simp: list_recv_tail_def list_recv_try_def split: option.splits)
  then show ?thesis by (simp add: still_moves)
qed

lemma recv_cas_moves:
  assumes c: "chain s" and h: "sees_lhead s head j False mk" and lt: "j < l_sent s"
    and st: "list_recv_cas w i k head new b s = Done (s', pc')"
  shows "list_moves s i (VCas k head new b) s' pc'"
proof (cases "\<not> w \<and> po_index (l_head s) = head")
  case False
  with st have "s' = s" "pc' = VBlock k (po_index (l_head s))" by (auto simp: list_recv_cas_def Let_def)
  then show ?thesis by (simp add: still_moves)
next
  case True
  have hw: "head = iw (place j False) mk" "j \<le> ly_taken s" using h by (auto simp: sees_lhead_def)
  with True have "po_index (l_head s) = iw (place j False) mk" by simp
  note N = head_word_place [OF c gap_ok_False hw(2) this]
  have s': "list_msgs s' = drop (Suc j) (ly_log s)" "l_closed s' = l_closed s"
    "list_status s' i pc' = Decided (recv_answer k (Some (ly_log s ! j)))"
    using st True N(1) by (auto simp: list_recv_cas_def Let_def l_own_def list_msgs_def received_def reading_def
        list_is_shutdown_def split: if_splits)
  have "list_msgs s = ly_log s ! j # drop (Suc j) (ly_log s)"
    using lt by (simp add: list_msgs_def N(1) Cons_nth_drop_Suc)
  then have "atomic_call None (recv_call k) (list_msgs s) d
      = Some (recv_answer k (Some (ly_log s ! j)), drop (Suc j) (ly_log s), d)" for d
    by (cases k) (simp_all add: spec_try_recv_def poll_answer_def)
  with s' show ?thesis by (auto simp: list_moves_def Let_def intro: effect [of _ "recv_call k"])
qed

lemma recv_read_moves:
  assumes c: "chain s" and h: "has_lslot s i False b j h" and w: "written s h"
    and st: "list_recv_read i k b j s = Done (s', pc')"
  shows "list_moves s i (VRead k b j) s' pc'"
proof -
  obtain bl where bl: "l_heap s b = Some bl" "j < length (bl_slots bl)" "slot_ok s (ly_baton s b) h (bl_slots bl ! j)"
    "ly_own s i = Some (False, h)" using own_block [OF c h] by metis
  then have "ls_msg (bl_slots bl ! j) = Some (ly_log s ! h)" using w by (simp add: slot_ok_def)
  with st bl have "same_msgs s s'" "list_status s' i pc' = list_status s i (VRead k b j)"
    by (auto simp: list_recv_read_def get_slot_def get_block_def received_def reading_def l_own_def l_baton_def
        same_msgs_def list_is_shutdown_def split: if_splits)
  then show ?thesis by (rule still_moves)
qed

lemma recv_mark_moves:
  assumes st: "list_recv_mark i k b j m s = Done (s', pc')"
  shows "list_moves s i (VMark k b j m) s' pc'"
proof -
  obtain old s1 where s1: "slot_or b j READ s = Done (old, s1)" using st
    by (auto simp: list_recv_mark_def outcome_simps)
  with st have "same_msgs s1 s'" "list_status s' i pc' = list_status s i (VMark k b j m)"
    by (auto simp: list_recv_mark_def Let_def l_own_def l_baton_def same_msgs_def list_is_shutdown_def split: if_splits)
  with slot_or_msgs(1) [OF s1] show ?thesis by (intro still_moves) (auto simp: same_msgs_def)
qed

lemma destroy_moves:
  shows "list_scan a b j s = Done (s', pc') \<Longrightarrow> list_moves s i (VScan a b j) s' pc'"
    "list_flag a b j s = Done (s', pc') \<Longrightarrow> list_moves s i (VFlag a b j) s' pc'"
proof -
  assume "list_scan a b j s = Done (s', pc')"
  then have "same_msgs s s'" "list_status s' i pc' = Decided a"
    by (auto simp: list_scan_def list_free_def l_baton_def l_set_def same_msgs_def list_is_shutdown_def
        outcome_simps split: if_splits option.splits)
  then show "list_moves s i (VScan a b j) s' pc'" by (simp add: still_moves)
next
  assume st: "list_flag a b j s = Done (s', pc')"
  then obtain old s1 where s1: "slot_or b j DESTROY s = Done (old, s1)" by (auto simp: list_flag_def outcome_simps)
  with st have "same_msgs s1 s'" "list_status s' i pc' = Decided a"
    by (auto simp: list_flag_def l_baton_def same_msgs_def list_is_shutdown_def split: if_splits)
  with slot_or_msgs(1) [OF s1] show "list_moves s i (VFlag a b j) s' pc'"
    by (intro still_moves) (auto simp: same_msgs_def)
qed

lemma send_slot_moves:
  shows "list_install_store a m b new s = Done (s', pc') \<Longrightarrow> list_moves s i (UStore a m b new) s' pc'"
    "list_install_link a m b new s = Done (s', pc') \<Longrightarrow> list_moves s i (ULink a m b new) s' pc'"
    "list_send_write a m b j s = Done (s', pc') \<Longrightarrow> list_moves s i (UWrite a m b j) s' pc'"
    "list_send_state i a b j s = Done (s', pc') \<Longrightarrow> list_moves s i (UState a b j) s' pc'"
proof -
  note frame = same_msgs_def list_is_shutdown_def l_set_def set_block_def set_slot_def l_own_def outcome_simps
  show "list_install_store a m b new s = Done (s', pc') \<Longrightarrow> list_moves s i (UStore a m b new) s' pc'"
    by (rule still_moves) (auto simp: list_install_store_def Let_def frame)
  show "list_install_link a m b new s = Done (s', pc') \<Longrightarrow> list_moves s i (ULink a m b new) s' pc'"
    by (rule still_moves) (auto simp: list_install_link_def frame)
  show "list_send_write a m b j s = Done (s', pc') \<Longrightarrow> list_moves s i (UWrite a m b j) s' pc'"
    by (rule still_moves) (auto simp: list_send_write_def frame split: if_splits)
  assume st: "list_send_state i a b j s = Done (s', pc')"
  then obtain old s1 where s1: "slot_or b j WRITE s = Done (old, s1)" by (auto simp: list_send_state_def outcome_simps)
  with st have "same_msgs s1 s'" "pc' = UWake a"
    by (auto simp: list_send_state_def l_own_def same_msgs_def list_is_shutdown_def)
  with slot_or_msgs(1) [OF s1] show "list_moves s i (UState a b j) s' pc'"
    by (intro still_moves) (auto simp: same_msgs_def)
qed

lemma install_add_moves:
  assumes c: "chain s" and d: "duties_of s i = no_duties\<lparr>du_slot := True, du_tail := True\<rparr>"
    and k: "has_lslot s i True b 30 k" "l_sent s = Suc k" "length (ly_blocks s) = Suc (Suc (k div 31))"
    and st: "list_install_add a m b new s = Done (s', pc')"
  shows "list_moves s i (UAdd a m b new) s' pc'"
proof -
  have "k mod 31 = 30" using k(1) by (simp add: has_lslot_def)
  then have len: "length (ly_blocks s) = Suc (l_sent s div 31)" using k(2,3) by (simp add: div_Suc_31)
  have gap: "ly_tgap s = Some i" using duties_sel(4) [OF d] by simp
  have s': "s' = s\<lparr>ly_chan := (ly_chan s)\<lparr>lc_tail := (l_tail s)\<lparr>po_index := po_index (l_tail s) + one_shift\<rparr>\<rparr>,
      ly_tgap := None\<rparr>" "pc' = ULink a m b new" using st by (simp_all add: list_install_add_def Let_def)
  have "same_msgs s s'" using enter_tail(3) [OF c gap len s'(1)] by (simp add: s'(1) same_msgs_def)
  with s'(2) show ?thesis by (simp add: still_moves)
qed

lemma len_check_moves_list:
  assumes c: "chain s" and t: "sees_ltail s tail j g d"
    and b: "po_index (l_tail s) = tail \<Longrightarrow> head_before head j g n"
    and st: "list_len_check tail head s = Done (s', pc')"
  shows "list_moves s i (NCheck tail head n) s' pc'"
proof (cases "po_index (l_tail s) = tail")
  case False
  with st have "s' = s" "pc' = NTail" by (auto simp: list_len_check_def)
  then show ?thesis by (intro settle_moves) simp_all
next
  case True
  have tw: "tail = iw (place j g) d" "gap_ok j g" "j \<le> l_sent s" using t by (simp_all add: sees_ltail_def)
  from tw(3) chainD(1) [OF c] have j: "j < 2 ^ 62" unfolding few_def by (rule le_less_trans)
  from b [OF True] obtain h hg mk where h: "head = iw (place h hg) mk" "gap_ok h hg" "j = h + n" "g \<longrightarrow> h = j \<longrightarrow> hg"
    by (auto simp: head_before_def)
  have "list_len_of tail head = (if g \<and> hg \<and> h = j then Panic else Done (of_nat (j - h)))"
    unfolding tw(1) h(1) using len_of_places [OF tw(2) h(2)] h(3,4) j by auto
  moreover have "j - h = n" using h(3) by simp
  ultimately have "s' = s" "pc' = ListRet (AnsLen (of_nat n))"
    using st True by (auto simp: list_len_check_def outcome_simps split: if_splits)
  then show ?thesis by (intro settle_moves) simp_all
qed

lemma list_shut_or_moves:
  assumes c: "chain s" and st: "list_shut_or s = Done (s', pc')"
  shows "list_moves s i EOr s' pc'"
proof -
  from st have s': "s' = l_set ((ly_chan s)\<lparr>lc_tail := (l_tail s)\<lparr>po_index := po_index (l_tail s) OR MARK_BIT\<rparr>\<rparr>) s"
    "pc' = (if l_closed s then ListRet (AnsShutdown False) else EWake)"
    by (auto simp: list_shut_or_def Let_def list_is_shutdown_def)
  have "l_closed s'" by (rule close_tail(3) [OF c s'(1)])
  moreover have "list_msgs s' = list_msgs s" by (simp add: s'(1) l_set_def list_msgs_def)
  moreover have "list_status s' i pc' = Decided (AnsShutdown (\<not> l_closed s))" by (simp add: s'(2))
  ultimately show ?thesis by (auto simp: list_moves_def Let_def intro!: effect)
qed

text \<open>Steps of the calls that only tell the wakers.\<close>

lemma l_calm_same_msgs: "l_calm s s' \<Longrightarrow> same_msgs s s'"
  by (rule l_same_msgs [OF l_calm_l_same])

lemma list_go_moves:
  assumes c: "chain s" and at: "l_at s i pc" and st: "list_go Q ws i s pc = Done (s', pc')"
  shows "list_moves s i pc s' pc'"
proof -
  have d: "duties_of s i = pc_duties pc" and k: "l_knows s i pc" using at by (simp_all add: l_at_def)
  show ?thesis
  proof (cases pc)
    case (UBlock k m nb tail)
    with k obtain j g e where "sees_ltail s tail j g e" by auto
    from send_block_moves [OF this] UBlock st show ?thesis by simp
  next
    case (USwap k m nb tail new)
    with st send_swap_moves show ?thesis by simp
  next
    case (UHead k m nb tail new)
    with st have "same_msgs s s'" "pc' = UCas k m nb tail new"
      by (auto simp: list_send_head_def Let_def same_msgs_def list_is_shutdown_def)
    with UHead show ?thesis by (simp add: still_moves)
  next
    case (UCas k m nb tail b)
    with k obtain j where "sees_ltail s tail j False False" by auto
    from send_cas_moves [OF c this] UCas st show ?thesis by simp
  next
    case (UAdd a m b new)
    with k obtain k where "has_lslot s i True b 30 k" "l_sent s = Suc k" "length (ly_blocks s) = Suc (Suc (k div 31))"
      by auto
    from install_add_moves [OF c _ this] UAdd st d show ?thesis by simp
  next
    case (VBlock k head)
    with st have "s' = s" "list_status s i pc' = Pending (recv_call k)"
      by (auto simp: list_recv_block_def list_recv_try_def Let_def outcome_simps split: if_splits option.splits)
    with VBlock show ?thesis by (simp add: still_moves)
  next
    case (VTail k head block)
    with \<open>l_knows s i pc\<close> obtain j where "sees_lhead s head j False False" by auto
    from recv_tail_moves [OF c this] VTail st show ?thesis by simp
  next
    case (VCas k head new b)
    with \<open>l_knows s i pc\<close> obtain j mk where "sees_lhead s head j False mk" "j < l_sent s" by auto
    from recv_cas_moves [OF c this] VCas st show ?thesis by simp
  next
    case (VNext k b new)
    with st have "s' = s" "list_status s i pc' = received s i k" by (auto simp: list_recv_next_def outcome_simps)
    with VNext show ?thesis by (simp add: still_moves)
  next
    case (VPeek k b new nx)
    with st have "s' = s" "list_status s i pc' = received s i k"
      by (auto simp: list_recv_peek_def Let_def outcome_simps)
    with VPeek show ?thesis by (simp add: still_moves)
  next
    case (VHead k b ix nx)
    with st have "same_msgs s s'" "list_status s' i pc' = received s i k"
      by (auto simp: list_recv_head_def Let_def l_set_def same_msgs_def list_is_shutdown_def received_def reading_def)
    with VHead show ?thesis by (simp add: still_moves)
  next
    case (VIndex k b ix)
    with st have "same_msgs s s'" "list_status s' i pc' = received s i k"
      by (auto simp: list_recv_index_def Let_def same_msgs_def list_is_shutdown_def received_def reading_def)
    with VIndex show ?thesis by (simp add: still_moves)
  next
    case (VWait k b j)
    with st have "s' = s" "list_status s i pc' = received s i k" by (auto simp: list_recv_wait_def outcome_simps)
    with VWait show ?thesis by (simp add: still_moves)
  next
    case (VRead k b j)
    with \<open>l_knows s i pc\<close> obtain h where "has_lslot s i False b j h" "written s h" by auto
    from recv_read_moves [OF c this] VRead st show ?thesis by simp
  next
    case (VMark k b j m)
    with st recv_mark_moves show ?thesis by simp
  next
    case (NHead tail)
    have "l_sent s - ly_taken s = length (list_msgs s)" by (simp add: list_msgs_def)
    with NHead st show ?thesis by (auto simp: list_moves_def Let_def intro!: observe)
  next
    case (NCheck tail head n)
    with \<open>l_knows s i pc\<close> obtain j g e where "sees_ltail s tail j g e"
      "po_index (l_tail s) = tail \<Longrightarrow> head_before head j g n" by auto
    from len_check_moves_list [OF c this] NCheck st show ?thesis by simp
  next
    case EOr
    with st list_shut_or_moves [OF c] show ?thesis by simp
  next
    case EIs
    with st show ?thesis by (intro decide_moves [of _ _ _ _ CIsShutdown]) auto
  next
    case (GFirst t)
    with st have "l_calm s s'" "pc' = GReg t \<or> pc' = GUpdate t"
      by (auto simp: list_poll_first_def split: if_splits)
    with GFirst show ?thesis
      by (auto intro: still_moves settle_moves l_calm_same_msgs)
  next
    case (GUpdate t)
    with st have "l_calm s s'" "pc' = GReg t \<or> pc' = ListRet (AnsPoll (Inr NotReady))"
      by (auto simp: list_poll_update_def Let_def outcome_simps split: if_splits)
    with GUpdate show ?thesis by (auto intro: settle_moves l_calm_same_msgs)
  next
    case (GReg t)
    with st have "l_calm s s'" "pc' = VLoad (RAgain t)"
      by (auto simp: list_poll_register_def outcome_simps)
    with GReg show ?thesis by (auto intro: still_moves l_calm_same_msgs)
  next
    case EWake
    with st have "l_calm s s'" "pc' = ListRet (AnsShutdown True)"
      by (auto simp: list_shut_wake_def outcome_simps)
    with EWake show ?thesis by (auto intro: still_moves l_calm_same_msgs)
  next
    case (UWake a)
    with st have "l_calm s s'" "pc' = ListRet a" by (auto simp: list_send_wake_def)
    with UWake show ?thesis by (auto intro: still_moves l_calm_same_msgs)
  qed (use st in \<open>auto intro: still_moves send_slot_moves destroy_moves\<close>)
qed

lemma list_step_moves:
  assumes c: "chain s" and at: "l_at s i pc" and st: "list_step Q inp i s pc = Done (s', pc')"
  shows "list_moves s i pc s' pc'"
proof (cases inp)
  case (ListCall c)
  with st have "pc = ListIdle" "s' = s" "pc' = list_first_pc c" by (auto split: if_splits)
  then show ?thesis by (cases c) (auto simp: list_moves_def intro: invoke)
next
  case ListTake
  with st obtain a where "pc = ListRet a" "s' = s" "pc' = ListIdle" by (auto split: list_pc.splits)
  then show ?thesis by (auto simp: list_moves_def intro: return)
next
  case (ListGo ws)
  with list_go_moves [OF c at] st show ?thesis by simp
qed

interpretation list_sim: simulation "within few (list_step Q)" "assertions chain l_at" "assertions chain l_at"
    list_abs "atomic_step None"
  for Q :: "('q, 't) aq_ops"
proof unfold_locales
  fix s s' :: "('q, 't, 'm) lsys" and ps i inp and pc' :: "('m, 't) list_pc"
  assume a: "assertions chain l_at (s, ps)" "i < length ps"
    "within few (list_step Q) inp i s (ps ! i) = Done (s', pc')"
  have st: "list_step Q inp i s (ps ! i) = Done (s', pc')" "few s'" using a(3) by (simp_all add: within_eq_Done)
  have at: "chain s" "\<And>j. j < length ps \<Longrightarrow> l_at s j (ps ! j)" using a(1) by (simp_all add: assertions_def)
  have "l_good s i s' pc'"
    using list_step_out [OF at(1) at(2) [OF a(2)], of Q inp] st by auto
  then have "l_guar i s s'" by (simp add: l_good_def)
  from list_moves_lift [OF list_step_moves [OF at(1) at(2) [OF a(2)] st(1)] a(2)]
    list_status_others [OF this _ at(1) at(2)]
  show "list_abs (s', ps[i := pc']) = list_abs (s, ps)
    \<or> atomic_step None (list_abs (s, ps)) (list_abs (s', ps[i := pc']))" by blast
qed

end
