(* ===== verification/List_Conc_Props.thy ===== *)
theory List_Conc_Props
  imports List_Lin
begin

text \<open>
  The properties of the concurrent unbounded channel, for any number of threads that start
  with no call on a new channel. They hold as long as fewer than \<open>2 ^ 62\<close> messages have
  been sent (\<open>few\<close>): the words hold indices of 63 bits, and after that a thread that has
  slept all the time could take an index for one it has seen before.
\<close>

section \<open>A new channel\<close>

definition list_start :: "('q, 't) aq_ops \<Rightarrow> nat \<Rightarrow> ('q, 't, 'm) lsys \<times> ('m, 't) list_pc list" where
  "list_start Q n = (lsys_new (list_new Q), replicate n ListIdle)"

text \<open>The history names only threads of the configuration.\<close>

definition list_inv :: "('q, 't, 'm) lsys \<times> ('m, 't) list_pc list \<Rightarrow> bool" where
  "list_inv c \<longleftrightarrow> assertions chain l_at c \<and> (\<forall>j \<ge> length (snd c). duties_of (fst c) j = no_duties)"

lemma list_inv_start: "list_inv (list_start Q n :: ('q, 't, 'm) lsys \<times> ('m, 't) list_pc list)"
proof -
  have "l_at (lsys_new (list_new Q)) i (ListIdle :: ('m, 't) list_pc)" for i by (rule lsys_new_good)
  moreover from this have "duties_of (lsys_new (list_new Q :: ('q, 't, 'm) lchan)) i = no_duties" for i
    by (simp add: l_at_def)
  ultimately show ?thesis by (simp add: list_inv_def list_start_def assertions_def lsys_new_good(1))
qed

interpretation list_all: interleaving "within few (list_step Q)" list_inv list_inv for Q :: "('q, 't) aq_ops"
proof unfold_locales
  fix s s' :: "('q, 't, 'm) lsys" and ps i inp and pc' :: "('m, 't) list_pc"
  assume a: "list_inv (s, ps)" "i < length ps" "within few (list_step Q) inp i s (ps ! i) = Done (s', pc')"
  then have "assertions chain l_at (s', ps[i := pc'])"
    unfolding list_inv_def by (intro chain_inv.assertions_step) auto
  moreover have "duties_of s' j = no_duties" if j: "length ps \<le> j" for j
  proof -
    have "list_step Q inp i s (ps ! i) = Done (s', pc')" "few s'" using a(3) by (simp_all add: within_eq_Done)
    with list_step_out [of s i "ps ! i" Q inp] a(1,2) have "l_guar i s s'"
      by (auto simp: list_inv_def assertions_def l_good_def)
    from l_guar_others(2) [OF this, of j] a(1,2) j show ?thesis by (simp add: list_inv_def)
  qed
  ultimately show "list_inv (s', ps[i := pc'])" by (simp add: list_inv_def)
qed simp

text \<open>What holds as long as there are few messages.\<close>

lemma reachable_chain:
  fixes Q :: "('q, 't) aq_ops" and s :: "('q, 't, 'm) lsys"
  assumes run: "reachable (list_step Q) (list_start Q n) (s, ps)" and u: "few s"
  shows "chain s" "i < length ps \<Longrightarrow> l_at s i (ps ! i)" "length ps \<le> i \<Longrightarrow> duties_of s i = no_duties"
    "(atomic_step None)\<^sup>*\<^sup>* (atomic_new n) (list_abs (s, ps))"
proof -
  have w: "reachable (within few (list_step Q)) (list_start Q n) (s, ps)"
    using run u by (intro reachable_within) (auto intro: few_before)
  have inv: "list_inv (s, ps)" by (rule list_all.reachable_Inv [OF w list_inv_start])
  then show "chain s" "i < length ps \<Longrightarrow> l_at s i (ps ! i)" "length ps \<le> i \<Longrightarrow> duties_of s i = no_duties"
    by (simp_all add: list_inv_def assertions_def)
  have start: "assertions chain l_at (list_start Q n :: ('q, 't, 'm) lsys \<times> ('m, 't) list_pc list)"
    by (rule list_inv_start [unfolded list_inv_def, THEN conjunct1])
  have "list_abs (list_start Q n :: ('q, 't, 'm) lsys \<times> ('m, 't) list_pc list) = atomic_new n"
    by (simp add: list_abs_def list_start_def atomic_new_def list_msgs_def)
      (simp add: lsys_new_def list_new_def list_is_shutdown_def list_eq_iff_nth_eq)
  with list_sim.reachable_refines [OF w start]
  show "(atomic_step None)\<^sup>*\<^sup>* (atomic_new n) (list_abs (s, ps))" by simp
qed

text \<open>The slot whose message a thread writes or reads, without an atomic access.\<close>

fun l_accesses :: "('m, 't) list_pc \<Rightarrow> (nat \<times> nat) option" where
  "l_accesses (UWrite a m b j) = Some (b, j)"
| "l_accesses (UState a b j) = Some (b, j)"
| "l_accesses (VRead k b j) = Some (b, j)"
| "l_accesses (VMark k b j m) = Some (b, j)"
| "l_accesses _ = None"

section \<open>Concrete runs\<close>

text \<open>
  Thread 0 installs the first block and reserves a slot for 7, thread 1 sends 9 in the
  meantime; thread 2 asks for a message and waits until thread 0 has written 7.
\<close>

definition lgo :: "(nat, nat) list_input" where
  "lgo = ListGo [False]"


definition list_final :: "nat \<Rightarrow> (nat \<times> (nat, nat) list_input) list
    \<Rightarrow> ((nat \<times> nat list, nat, nat) lsys \<times> (nat, nat) list_pc list) option" where
  "list_final n sched = run (list_step list_aq) sched (list_start list_aq n)"



text \<open>
  Threads 0 to 30 each reserve a slot of the first block and sleep, threads 31 to 61 each
  reserve one of these messages, and thread 62 asks for the length.
\<close>

definition crowd :: "(nat \<times> (nat, nat) list_input) list" where
  "crowd = concat (map (\<lambda>i. (i, ListCall (CSend (STry i) i)) # replicate (if i = 0 then 5 else 3) (i, lgo)) [0..<31])
     @ concat (map (\<lambda>i. (31 + i, ListCall CTryRecv) # replicate 4 (31 + i, lgo)) [0..<31])
     @ (62, ListCall CLen) # replicate 2 (62, lgo)"

lemma crowd_run:
  "case list_final 63 crowd of None \<Rightarrow> False | Some (s, ps) \<Rightarrow>
     length (ly_log s) = 31 \<and> length ps = 63 \<and> l_accesses (ps ! 5) = Some (0, 5) \<and>
     (case ps ! 62 of NCheck tail head n \<Rightarrow> po_index (lc_tail (ly_chan s)) = tail \<and> list_offset tail = BLOCK_CAP
        \<and> list_offset head = BLOCK_CAP \<and> n = 0 | _ \<Rightarrow> False)"
  by code_simp

lemma crowd_reachable:
  obtains s :: "(nat \<times> nat list, nat, nat) lsys" and ps tail head where
    "reachable (list_step list_aq) (list_start list_aq 63) (s, ps)" "few s" "length (ly_log s) = 31"
    "length ps = 63" "l_accesses (ps ! 5) = Some (0, 5)" "ps ! 62 = NCheck tail head 0"
    "po_index (lc_tail (ly_chan s)) = tail" "list_offset tail = BLOCK_CAP" "list_offset head = BLOCK_CAP"
proof -
  obtain s ps where r: "list_final 63 crowd = Some (s, ps)"
    using crowd_run by (auto split: option.splits)
  with crowd_run obtain tail head where f: "length (ly_log s) = 31" "length ps = 63" "l_accesses (ps ! 5) = Some (0, 5)"
    "ps ! 62 = NCheck tail head 0" "po_index (lc_tail (ly_chan s)) = tail" "list_offset tail = BLOCK_CAP"
    "list_offset head = BLOCK_CAP" by (auto split: list_pc.splits)
  moreover have "reachable (list_step list_aq) (list_start list_aq 63) (s, ps)"
    by (rule run_reachable [OF r [unfolded list_final_def]])
  moreover have "few s" by (simp add: few_def f(1))
  ultimately show thesis using that by blast
qed

section \<open>Properties\<close>



lemma l_accesses_own:
  assumes "l_at s i pc" "l_accesses pc = Some (b, j)"
  obtains d k where "has_lslot s i d b j k" "\<not> d \<Longrightarrow> written s k"
  using assms by (cases pc) (auto simp: l_at_def)

lemma l_accesses_apart:
  assumes c: "chain s" and at: "l_at s i pc" "l_at s j q" and a: "l_accesses pc = Some x" "l_accesses q = Some x"
  shows "i = j"
proof -
  obtain b l where x: "x = (b, l)" by (cases x)
  obtain d k where o1: "has_lslot s i d b l k" "\<not> d \<Longrightarrow> written s k"
    using l_accesses_own [OF at(1)] a(1) x by metis
  obtain e k' where o2: "has_lslot s j e b l k'" "\<not> e \<Longrightarrow> written s k'"
    using l_accesses_own [OF at(2)] a(2) x by metis
  have "k div 31 = k' div 31" "k mod 31 = k' mod 31"
    using o1(1) o2(1) blocks_inj [OF c] by (auto simp: has_lslot_def nth_block_def)
  then have k: "k' = k" by (metis div_mod_decomp)
  have own: "ly_own s i = Some (d, k)" "ly_own s j = Some (e, k)" using o1(1) o2(1) k by (simp_all add: has_lslot_def)
  have busy: "\<not> written s k" if "ly_own s m = Some (True, k)" for m
    using that by (auto simp: written_def l_busy_def)
  have "e = d" using busy [of i] busy [of j] own o1(2) o2(2) k by (cases d; cases e) auto
  with lownersD(3) [OF chainD(4) [OF c] own(1), of j] own(2) show ?thesis by simp
qed

text \<open>
  C4. However the threads interleave, no step follows a null pointer or a pointer to a block
  that was freed, frees a block twice, indexes outside a block or reads a slot that holds no
  message; none panics or overflows, with the exception of \<open>len\<close>; and no two threads are
  ever inside the plain write or read of the message of the same slot.
\<close>

theorem unbounded_memory_safe:
  fixes Q :: "('q, 't) aq_ops" and s :: "('q, 't, 'm) lsys"
  assumes "reachable (list_step Q) (list_start Q n) (s, ps)" "few s" and "i < length ps"
  shows "list_step Q inp i s (ps ! i) \<noteq> Fault
    \<and> (list_step Q inp i s (ps ! i) = Panic \<longrightarrow> counts (ps ! i))
    \<and> (\<forall>j < length ps. j \<noteq> i \<longrightarrow> l_accesses (ps ! i) \<noteq> None \<longrightarrow> l_accesses (ps ! j) \<noteq> l_accesses (ps ! i))"
proof -
  note R = reachable_chain [OF assms(1,2)]
  have "l_out s i (list_step Q inp i s (ps ! i)) \<or> counts (ps ! i) \<and> list_step Q inp i s (ps ! i) = Panic"
    by (rule list_step_out [OF R(1) R(2) [OF assms(3)]])
  then have "list_step Q inp i s (ps ! i) \<noteq> Fault"
    "list_step Q inp i s (ps ! i) = Panic \<longrightarrow> counts (ps ! i)" by auto
  moreover have "\<forall>j < length ps. j \<noteq> i \<longrightarrow> l_accesses (ps ! i) \<noteq> None \<longrightarrow> l_accesses (ps ! j) \<noteq> l_accesses (ps ! i)"
  proof (intro allI impI notI)
    fix j
    assume j: "j < length ps" "j \<noteq> i" "l_accesses (ps ! i) \<noteq> None" "l_accesses (ps ! j) = l_accesses (ps ! i)"
    then obtain x where "l_accesses (ps ! i) = Some x" "l_accesses (ps ! j) = Some x" by auto
    from l_accesses_apart [OF R(1) R(2) [OF assms(3)] R(2) [OF j(1)] this] j(2) show False by simp
  qed
  ultimately show ?thesis by blast
qed

theorem unbounded_memory_safe_witness:
  "\<exists>(s :: (nat \<times> nat list, nat, nat) lsys) ps. length (ly_log s) = 31 \<and> l_accesses (ps ! 5) = Some (0, 5)
     \<and> list_step list_aq (ListGo []) 5 s (ps ! 5) \<noteq> Fault \<and> list_step list_aq (ListGo []) 5 s (ps ! 5) \<noteq> Panic
     \<and> l_accesses (ps ! 6) \<noteq> Some (0, 5)"
proof -
  obtain s :: "(nat \<times> nat list, nat, nat) lsys" and ps tail head where
    r: "reachable (list_step list_aq) (list_start list_aq 63) (s, ps)" "few s" "length (ly_log s) = 31"
    "length ps = 63" "l_accesses (ps ! 5) = Some (0, 5)" "ps ! 62 = NCheck tail head 0"
    "po_index (lc_tail (ly_chan s)) = tail" "list_offset tail = BLOCK_CAP" "list_offset head = BLOCK_CAP"
    by (rule crowd_reachable)
  have "5 < length ps" "6 < length ps" using r(4) by simp_all
  moreover have "\<not> counts (ps ! 5)" using r(5) by (cases "ps ! 5") simp_all
  ultimately show ?thesis using unbounded_memory_safe [OF r(1,2), of 5 "ListGo []"] r(3,5)
    by (intro exI [of _ s] exI [of _ ps]) auto
qed






text \<open>
  C37. \<open>len\<close> panics under concurrency: a call that has loaded the tail and the head panics
  exactly if the tail has not changed since, and both were at the end of the same block.
  Such a state is reached when a sender has taken the last slot of a block and not yet
  entered the next block, and a receiver has taken the message of that slot. The body then
  computes \<open>tail -= LAP\<close> from 31 and 32; without overflow checks \<open>len\<close> answers about
  \<open>2 ^ 64\<close> instead of 0.
\<close>

theorem unbounded_len_panics:
  fixes Q :: "('q, 't) aq_ops" and s :: "('q, 't, 'm) lsys"
  assumes "reachable (list_step Q) (list_start Q n) (s, ps)" "few s" and "i < length ps"
    and "ps ! i = NCheck tail head m"
  shows "list_step Q (ListGo ws) i s (ps ! i) = Panic \<longleftrightarrow>
    po_index (lc_tail (ly_chan s)) = tail \<and> list_offset tail = BLOCK_CAP \<and> list_offset head = BLOCK_CAP \<and> m = 0"
proof (cases "po_index (lc_tail (ly_chan s)) = tail")
  case True
  note R = reachable_chain [OF assms(1,2)]
  from R(2) [OF assms(3)] assms(4) obtain j g d where t: "sees_ltail s tail j g d" and b: "head_before head j g m"
    using True by (auto simp: l_at_def)
  have tw: "tail = iw (place j g) d" "gap_ok j g" "j \<le> l_sent s" using t by (simp_all add: sees_ltail_def)
  from b obtain h hg mk where h: "head = iw (place h hg) mk" "gap_ok h hg" "j = h + m" "g \<longrightarrow> h = j \<longrightarrow> hg"
    by (auto simp: head_before_def)
  from tw(3) chainD(1) [OF R(1)] have "j < 2 ^ 62" unfolding few_def by (rule le_less_trans)
  from len_of_places [OF tw(2) h(2) _ _ this] h(3,4)
  have "list_len_of tail head = Panic \<longleftrightarrow> g \<and> hg \<and> m = 0" unfolding tw(1) h(1) by auto
  moreover have "list_offset tail = BLOCK_CAP \<longleftrightarrow> g" "list_offset head = BLOCK_CAP \<longleftrightarrow> hg"
    using place_mod [OF tw(2)] place_mod [OF h(2)] mod_less_divisor [of 31 j] mod_less_divisor [of 31 h]
    by (auto simp: tw(1) h(1) BLOCK_CAP_def LAP_def)
  ultimately show ?thesis
    using True assms(4) list_len_of_result [of tail head] by (auto simp: list_len_check_def)
next
  case False
  with assms(4) show ?thesis by (simp add: list_len_check_def)
qed

theorem unbounded_len_panics_witness:
  "\<exists>(s :: (nat \<times> nat list, nat, nat) lsys) ps. reachable (list_step list_aq) (list_start list_aq 63) (s, ps)
     \<and> length (ly_log s) = 31 \<and> list_step list_aq (ListGo []) 62 s (ps ! 62) = Panic"
proof -
  obtain s :: "(nat \<times> nat list, nat, nat) lsys" and ps tail head where
    r: "reachable (list_step list_aq) (list_start list_aq 63) (s, ps)" "few s" "length (ly_log s) = 31"
    "length ps = 63" "l_accesses (ps ! 5) = Some (0, 5)" "ps ! 62 = NCheck tail head 0"
    "po_index (lc_tail (ly_chan s)) = tail" "list_offset tail = BLOCK_CAP" "list_offset head = BLOCK_CAP"
    by (rule crowd_reachable)
  have "62 < length ps" using r(4) by simp
  from unbounded_len_panics [OF r(1,2) this r(6)] r(7-9)
  have "list_step list_aq (ListGo []) 62 s (ps ! 62) = Panic" by simp
  with r(1,3) show ?thesis by blast
qed

end
