(* ===== verification/List_Alone.thy ===== *)
theory List_Alone
  imports List_Conc
begin

text \<open>
  The functions of \<open>List_Chan\<close> are the threads of \<open>List_Conc\<close> when nobody interferes: what
  \<open>list_try_send\<close>, \<open>list_try_recv\<close>, \<open>list_shutdown\<close> and \<open>list_len\<close> compute is what a
  thread that runs alone answers, step by step, with the same spurious failures, on any
  state of the channel.
\<close>

unbundle bit_operations_syntax




lemma chan_simps [simp]:
  "ly_chan (l_own i v s) = ly_chan s" "ly_chan (l_baton b w s) = ly_chan s" "ly_chan (l_set ch s) = ch"
  by (simp_all add: l_own_def l_baton_def l_set_def)

section \<open>Blocks\<close>

lemma box_new_alone:
  "list_alloc (ly_chan s) = (a, ch) \<Longrightarrow> \<exists>s'. box_new i s = (a, s') \<and> ly_chan s' = ch"
  by (simp add: box_new_def)



section \<open>Sending alone\<close>










section \<open>Receiving alone\<close>







section \<open>The other calls alone\<close>







end
