(* ===== verification/Spec2Isabelle.thy ===== *)
theory Spec2Isabelle
  imports Prelude Errors Serial_Waker_Conc Spinlock Thread_Waker Channels Zero_Props Array_Conc_Props Array_Alone List_Conc_Props List_Alone
begin

text \<open>
  A model of zchan, a library of channels that work both for threads and for \<open>futures\<close>.
  A channel is a queue behind a reference counter: \<open>counter::Sender\<close> and
  \<open>counter::Receiver\<close> (\<open>src/counter.rs\<close>) hold a pointer to one box with the channel in
  it, shut the channel down when the last handle of a side is dropped, and free the box
  after both sides are gone. \<open>src/channel.rs\<close> builds the three flavours: bounded
  (\<open>src/array.rs\<close>, a ring of stamped slots), unbounded (\<open>src/list.rs\<close>, a linked list of
  blocks) and zero-capacity (\<open>src/zero.rs\<close>, a rendezvous). Tasks that wait on a channel
  are queued in an \<open>AtomicSerialWaker\<close> (\<open>src/atomic_serial_waker.rs\<close>); threads that block
  on a zero-capacity channel are queued in a \<open>Waker\<close> (\<open>src/waker.rs\<close>) and are told what
  woke them through a \<open>Context\<close> (\<open>src/context.rs\<close>) that holds a \<open>Selected\<close>
  (\<open>src/select.rs\<close>); \<open>src/utils.rs\<close> has the spinlock around those queues, and
  \<open>src/error.rs\<close> the errors of the calls.

  Theories and what they model.
  \<^item> \<open>Prelude\<close>: outcomes (a value, a panic, a memory fault, a loop that has not ended),
    checked arithmetic on \<open>usize\<close>, spurious failures, lemmas on words.
  \<^item> \<open>Errors\<close>: \<open>src/error.rs\<close>.
  \<^item> \<open>Channel_Contract\<close>: the abstract queue that \<open>try_send\<close>, \<open>try_recv\<close> and \<open>shutdown\<close>
    are specified by, the trait \<open>Shutdown\<close> of \<open>src/lib.rs\<close> as the locale \<open>shutdownable\<close>
    and the queueing channels as the locale \<open>fifo_channel\<close>, with the refinement of every
    sequence of calls proved once.
  \<^item> \<open>Interleave\<close>: threads that interleave atomic steps on a shared state, reachable
    configurations, and as locales: invariants, assertions that hold thread by thread
    (\<open>interference_free\<close>), and simulations of an abstract system; runs within a bound,
    and runs of one thread alone.
  \<^item> \<open>Chan_Calls\<close>, \<open>Atomic_Chan\<close>: the calls of the queueing channels and their answers, and
    the channel in which each call has its effect in one step, which the concurrent models
    are shown to implement.
  \<^item> \<open>Spinlock\<close>: \<open>src/utils.rs\<close> as a step relation; mutual exclusion.
  \<^item> \<open>Serial_Waker\<close>, \<open>Serial_Waker_Conc\<close>: \<open>src/atomic_serial_waker.rs\<close>, first as one
    thread runs it, then one atomic access at a time; conservation of the registered
    tasks, and the wake-up that can be lost.
  \<^item> \<open>Array_Pos\<close>, \<open>Array_Chan\<close>, \<open>Array_Spec\<close>, \<open>Array_Props\<close>: \<open>src/array.rs\<close>; stamps as
    encodings of positions, every function of the channel, the representation of the
    abstract queue and what each call does to it, and the properties.
  \<^item> \<open>Array_Conc\<close>: \<open>src/array.rs\<close> again, one atomic access of one of any number of threads
    at a time, with the computations of \<open>Array_Chan\<close>. \<open>Array_Ring\<close>, \<open>Array_Steps\<close>: the
    invariant of the ring, what each thread knows, and that every step keeps both.
    \<open>Array_Lin\<close>: the simulation of \<open>Atomic_Chan\<close>.
    \<open>Array_Conc_Props\<close>: the properties. \<open>Array_Alone\<close>: the sequential functions are the
    concurrent steps of a thread that runs alone.
  \<^item> \<open>List_Pos\<close>, \<open>List_Chan\<close>, \<open>List_Spec\<close>, \<open>List_Props\<close>: \<open>src/list.rs\<close> in the same
    parts; the indices of messages as numbers that skip one place per block, the blocks as
    addresses of a heap in which a second free or an access after a free is a fault.
  \<^item> \<open>List_Conc\<close>: \<open>src/list.rs\<close> again, one atomic access of one of any number of threads
    at a time, with the heap and the computations of \<open>List_Chan\<close>, and with a history: the
    messages in the order of their slots, the blocks in the order of the list, and who is to
    close a gap, install, drop or destroy a block. \<open>List_Ring\<close>: the invariant over that
    history. \<open>List_Know\<close>: the duties and the knowledge of a thread, and what a step may do to
    those of others. \<open>List_Moves\<close>, \<open>List_Change\<close>: frames, and one lemma per change of the
    shared state. \<open>List_Steps\<close>: every step keeps the invariant and goes wrong only in
    \<open>len\<close>. \<open>List_Len\<close>: the result of \<open>len\<close> from the places of head and tail. \<open>List_Lin\<close>:
    the simulation of \<open>Atomic_Chan\<close>. \<open>List_Conc_Props\<close>: the properties. \<open>List_Alone\<close>: the
    sequential functions are the concurrent steps of a thread that runs alone.
  \<^item> \<open>Select_Ops\<close>, \<open>Thread_Context\<close>, \<open>Thread_Waker\<close>: \<open>src/select.rs\<close>,
    \<open>src/context.rs\<close>, \<open>src/waker.rs\<close>.
  \<^item> \<open>Zero_Chan\<close>: \<open>src/zero.rs\<close> as atomic steps of any number of threads, on top of the
    spinlock, the thread wakers and the contexts. \<open>Zero_Inv\<close>, \<open>Zero_Steps\<close>: the invariant
    of blocked calls, their packets, contexts and queue entries, and that every step keeps
    it. \<open>Zero_Spec\<close>: the rendezvous the channel implements, with the simulation.
    \<open>Zero_Props\<close>: the properties.
  \<^item> \<open>Ref_Counter\<close>: \<open>src/counter.rs\<close> as steps of any number of threads, for every channel
    that meets the locale \<open>counted\<close>; \<open>Channels\<close>: \<open>src/channel.rs\<close>, with that contract
    discharged for the bounded and the unbounded channel.

  State and operations. A struct is a record with the source's fields in its order, a
  function of the source is a function on the state with the source's name (prefixed by
  its file where two files have the same), and the result of a call is an \<open>outcome\<close>.
  Queues of the crate \<open>crossbeam\<close> are an argument: \<open>aq_laws\<close> says what their
  documentation promises, and \<open>list_aq\<close> satisfies it. A loop around
  \<open>compare_exchange_weak\<close> takes a list with the spurious failures of its iterations; a
  list that contains a success (\<open>fair\<close>) is enough for every loop a single thread runs,
  which the refinement theorems show. \<open>wake_all\<close> runs with fuel 5, one more than the four
  places of its queue; dropping an unbounded channel with the number of indices between
  head and tail, which its theorem shows to be enough. The sequential theorems
  on the unbounded channel are for fewer than \<open>2 ^ 62\<close> messages in the channel at a time,
  more than an address space holds, and the concurrent ones for fewer than \<open>2 ^ 62\<close> sends in
  all (\<open>few\<close>); the concurrent bounded channel is proved correct until the laps in its words
  come round (\<open>unwrapped\<close>). A thread that slept longer than that could take a word for one
  it has seen before; the sequential refinements hold across the wrap-around. The step
  relations are sequentially consistent; memory orderings are not modelled.

  What is concurrent. The task waker, the spinlock, the reference counter, the bounded,
  the unbounded and the zero-capacity channel are step relations of any number of threads.
  The bounded and the unbounded channel have a sequential model as well, in which a call is
  what one thread does when no other call on the channel is in progress, with spurious
  failures; it is the one the reference counter uses: there a call is one step.
  A call of a task waker is one step of a channel. In the zero-capacity channel, what a
  thread does while it holds the guard of the spinlock is one step: other threads can see of it only the
  contexts of waiting threads, which these only read. The addresses of new local variables
  are chosen by the environment, and are not null, aligned and apart from the live ones.

  Not modelled: \<open>Debug\<close> output; the benchmarks; \<open>unsafe impl Send/Sync\<close>; the comparison
  of handles by the address of their box; concurrent calls of \<open>is_empty\<close> and \<open>is_full\<close> on
  the queueing channels; a zero-capacity channel inside the reference counter, because its
  calls block and are not one step.
\<close>

end
